(* ===== verification/Prelude.thy ===== *)
theory Prelude
  imports Main "HOL-Library.Word"
begin

text \<open>
  Shared vocabulary of the development: the outcome type of a Rust function, the unsigned
  arithmetic of the standard library, and the generic lemmas on lists and options that the
  component theories use.

  Unsigned integers that only count (slots, epochs, lamports, costs) are \<^typ>\<open>nat\<close>; the
  operations below write out where the source saturates, checks or wraps at 64 or 32 bits.
  Bytes and bit sets are \<^typ>\<open>8 word\<close> and \<^typ>\<open>64 word\<close>. A \<open>Pubkey\<close> or a \<open>Hash\<close> is
  32 bytes; it is modelled by the number those bytes spell in big-endian order, so that equality
  and the lexicographic order of the source are equality and \<open>\<le>\<close> of \<^typ>\<open>nat\<close> and the
  all-zero default is \<open>0\<close>.
\<close>

named_theorems result_simps \<open>how the outcome of a sequence of fallible calls decomposes\<close>
named_theorems arith_defs \<open>definitions of the checked and saturating integer operations\<close>

type_synonym slot = nat
type_synonym epoch = nat
type_synonym pubkey = nat
type_synonym hash = nat
type_synonym lamports = nat
type_synonym unix_timestamp = int
type_synonym byte = "8 word"

abbreviation u64_max :: nat where "u64_max \<equiv> 18446744073709551615"
abbreviation u32_max :: nat where "u32_max \<equiv> 4294967295"
abbreviation u16_max :: nat where "u16_max \<equiv> 65535"
abbreviation u8_max :: nat where "u8_max \<equiv> 255"

section \<open>Outcomes\<close>

text \<open>
  A call returns a value, returns an error value, or panics (a failed \<open>assert!\<close>, an
  \<open>unwrap\<close> or \<open>expect\<close> of nothing, an index out of range). The question mark operator of the
  source is \<open>rbind\<close>.
\<close>

datatype ('e, 'a) result = Ok 'a | Err 'e | Panic

fun rbind :: "('e, 'a) result \<Rightarrow> ('a \<Rightarrow> ('e, 'b) result) \<Rightarrow> ('e, 'b) result" where
  "rbind (Ok a) f = f a"
| "rbind (Err e) f = Err e"
| "rbind Panic f = Panic"

fun map_err :: "('e \<Rightarrow> 'f) \<Rightarrow> ('e, 'a) result \<Rightarrow> ('f, 'a) result" where
  "map_err g (Ok a) = Ok a"
| "map_err g (Err e) = Err (g e)"
| "map_err g Panic = Panic"

definition ok_or :: "'e \<Rightarrow> 'a option \<Rightarrow> ('e, 'a) result" where
  "ok_or e x = (case x of None \<Rightarrow> Err e | Some a \<Rightarrow> Ok a)"

definition unwrap :: "'a option \<Rightarrow> ('e, 'a) result" where
  "unwrap x = (case x of None \<Rightarrow> Panic | Some a \<Rightarrow> Ok a)"

definition ensure :: "bool \<Rightarrow> 'e \<Rightarrow> ('e, unit) result" where
  "ensure b e = (if b then Ok () else Err e)"

definition assert_that :: "bool \<Rightarrow> ('e, unit) result" where
  "assert_that b = (if b then Ok () else Panic)"

definition is_ok :: "('e, 'a) result \<Rightarrow> bool" where
  "is_ok r = (case r of Ok _ \<Rightarrow> True | _ \<Rightarrow> False)"

section \<open>Unsigned arithmetic of the standard library\<close>

definition sat_add_u64 :: "nat \<Rightarrow> nat \<Rightarrow> nat" where
  [arith_defs]: "sat_add_u64 a b = min (a + b) u64_max"

definition sat_add_u32 :: "nat \<Rightarrow> nat \<Rightarrow> nat" where
  [arith_defs]: "sat_add_u32 a b = min (a + b) u32_max"

definition sat_add_u16 :: "nat \<Rightarrow> nat \<Rightarrow> nat" where
  [arith_defs]: "sat_add_u16 a b = min (a + b) u16_max"

definition sat_mul_u64 :: "nat \<Rightarrow> nat \<Rightarrow> nat" where
  [arith_defs]: "sat_mul_u64 a b = min (a * b) u64_max"

definition checked_add_u64 :: "nat \<Rightarrow> nat \<Rightarrow> nat option" where
  [arith_defs]: "checked_add_u64 a b = (if a + b \<le> u64_max then Some (a + b) else None)"

definition checked_sub :: "nat \<Rightarrow> nat \<Rightarrow> nat option" where
  [arith_defs]: "checked_sub a b = (if b \<le> a then Some (a - b) else None)"

definition checked_rem :: "nat \<Rightarrow> nat \<Rightarrow> nat option" where
  [arith_defs]: "checked_rem a b = (if b = 0 then None else Some (a mod b))"

text \<open>\<open>u64::pow\<close> of a build without overflow checks: the power modulo \<open>2 ^ 64\<close>.\<close>

definition pow_u64 :: "nat \<Rightarrow> nat \<Rightarrow> nat" where
  [arith_defs]: "pow_u64 b e = (b ^ e) mod 2 ^ 64"

text \<open>Signed 64-bit values are \<^typ>\<open>int\<close>: the saturating operations and the cast \<open>as i64\<close>.\<close>

definition sat_i64 :: "int \<Rightarrow> int" where
  [arith_defs]: "sat_i64 x = max (- (2 ^ 63)) (min (2 ^ 63 - 1) x)"

definition as_i64 :: "nat \<Rightarrow> int" where
  [arith_defs]: "as_i64 n = (let m = n mod 2 ^ 64 in if m < 2 ^ 63 then int m else int m - 2 ^ 64)"

text \<open>\<open>saturating_sub\<close> is subtraction on \<^typ>\<open>nat\<close>, which also stops at \<open>0\<close>.\<close>

abbreviation (input) sat_sub :: "nat \<Rightarrow> nat \<Rightarrow> nat" where "sat_sub a b \<equiv> a - b"

section \<open>Lemmas on outcomes\<close>

lemma rbind_eq_Ok [result_simps]: "rbind m f = Ok b \<longleftrightarrow> (\<exists>a. m = Ok a \<and> f a = Ok b)"
  by (cases m) auto

lemma rbind_eq_Err [result_simps]:
  "rbind m f = Err e \<longleftrightarrow> m = Err e \<or> (\<exists>a. m = Ok a \<and> f a = Err e)"
  by (cases m) auto

lemma rbind_eq_Panic [result_simps]:
  "rbind m f = Panic \<longleftrightarrow> m = Panic \<or> (\<exists>a. m = Ok a \<and> f a = Panic)"
  by (cases m) auto

lemma map_err_eq_Ok [result_simps]: "map_err g m = Ok a \<longleftrightarrow> m = Ok a"
  by (cases m) auto

lemma map_err_eq_Panic [result_simps]: "map_err g m = Panic \<longleftrightarrow> m = Panic"
  by (cases m) auto

lemma map_err_eq_Err [result_simps]: "map_err g m = Err e \<longleftrightarrow> (\<exists>e'. m = Err e' \<and> e = g e')"
  by (cases m) auto

lemma ok_or_eq_Ok [result_simps]: "ok_or e x = Ok a \<longleftrightarrow> x = Some a"
  by (auto simp: ok_or_def split: option.splits)

lemma ok_or_eq_Err [result_simps]: "ok_or e x = Err e' \<longleftrightarrow> x = None \<and> e' = e"
  by (auto simp: ok_or_def split: option.splits)

lemma ok_or_neq_Panic [simp]: "ok_or e x \<noteq> Panic"
  by (auto simp: ok_or_def split: option.splits)

lemma unwrap_eq_Ok [result_simps]: "unwrap x = Ok a \<longleftrightarrow> x = Some a"
  by (auto simp: unwrap_def split: option.splits)

lemma unwrap_eq_Panic [result_simps]: "unwrap x = Panic \<longleftrightarrow> x = None"
  by (auto simp: unwrap_def split: option.splits)

lemma unwrap_neq_Err [simp]: "unwrap x \<noteq> Err e"
  by (auto simp: unwrap_def split: option.splits)

lemma ensure_eq_Ok [result_simps]: "ensure b e = Ok u \<longleftrightarrow> b"
  by (auto simp: ensure_def)

lemma ensure_eq_Err [result_simps]: "ensure b e = Err e' \<longleftrightarrow> \<not> b \<and> e' = e"
  by (auto simp: ensure_def)

lemma ensure_neq_Panic [simp]: "ensure b e \<noteq> Panic"
  by (auto simp: ensure_def)

lemma assert_that_eq_Ok [result_simps]: "assert_that b = Ok u \<longleftrightarrow> b"
  by (auto simp: assert_that_def)

lemma assert_that_eq_Panic [result_simps]: "assert_that b = Panic \<longleftrightarrow> \<not> b"
  by (auto simp: assert_that_def)

lemma assert_that_neq_Err [simp]: "assert_that b \<noteq> Err e"
  by (auto simp: assert_that_def)

lemma is_ok_iff: "is_ok r \<longleftrightarrow> (\<exists>a. r = Ok a)"
  by (auto simp: is_ok_def split: result.splits)

section \<open>Lemmas on the integer operations\<close>

lemma sat_add_u64_exact: "a + b \<le> u64_max \<Longrightarrow> sat_add_u64 a b = a + b"
  by (simp add: arith_defs)

lemma sat_add_u64_mono1: "a \<le> a' \<Longrightarrow> sat_add_u64 a b \<le> sat_add_u64 a' b"
  by (simp add: arith_defs)

lemma sat_add_u64_mono2: "b \<le> b' \<Longrightarrow> sat_add_u64 a b \<le> sat_add_u64 a b'"
  by (simp add: arith_defs)

lemma sat_add_u64_le_max [simp]: "sat_add_u64 a b \<le> u64_max"
  by (simp add: arith_defs)

lemma sat_add_u64_ge: "a \<le> u64_max \<Longrightarrow> a \<le> sat_add_u64 a b"
  by (simp add: arith_defs)

lemma sat_add_u64_0 [simp]: "a \<le> u64_max \<Longrightarrow> sat_add_u64 a 0 = a"
  by (simp add: arith_defs)

lemma sat_add_u64_le_iff: "l < u64_max \<Longrightarrow> sat_add_u64 a b \<le> l \<longleftrightarrow> a + b \<le> l"
  by (auto simp: arith_defs)

lemma pow_u64_exact: "2 ^ e < (2 ^ 64 :: nat) \<Longrightarrow> pow_u64 2 e = 2 ^ e"
  by (simp add: arith_defs)

lemma pow_u64_two: "e < 64 \<Longrightarrow> pow_u64 2 e = 2 ^ e"
  by (rule pow_u64_exact) (rule power_strict_increasing, simp_all)

lemma as_i64_small: "n < 2 ^ 63 \<Longrightarrow> as_i64 n = int n"
  by (simp add: arith_defs Let_def)

section \<open>Lemmas on lists\<close>

lemma sorted_wrt_snoc:
  "sorted_wrt P (xs @ [x]) \<longleftrightarrow> sorted_wrt P xs \<and> (\<forall>y \<in> set xs. P y x)"
  by (auto simp: sorted_wrt_append)

lemma sorted_wrt_butlast: "sorted_wrt P xs \<Longrightarrow> sorted_wrt P (butlast xs)"
  by (cases xs rule: rev_cases) (auto simp: sorted_wrt_append)

lemma sorted_wrt_tl: "sorted_wrt P xs \<Longrightarrow> sorted_wrt P (tl xs)"
  by (cases xs) auto

lemma sorted_wrt_last:
  "sorted_wrt P xs \<Longrightarrow> x \<in> set xs \<Longrightarrow> x = last xs \<or> P x (last xs)"
  by (cases xs rule: rev_cases) (auto simp: sorted_wrt_append)

lemma takeWhile_drop_length: "drop (length (takeWhile P xs)) xs = dropWhile P xs"
  by (simp add: dropWhile_eq_drop)

end
