(* ===== verification/Ordered_Map.thy ===== *)
theory Ordered_Map
  imports Prelude
begin

text \<open>
  The part of the standard library's \<open>BTreeMap\<close> that the vote account uses, as an interface
  (a locale over the abstract partial function a map stands for) and as an implementation
  (association lists with strictly increasing keys). The lemmas on \<open>is_floor\<close>, the entry with
  the greatest key not above a given one, are what the authorized-voter queue needs and are
  proved once in the interface.
\<close>

type_synonym ('k, 'v) btree_map = "('k \<times> 'v) list"

fun bt_insert :: "'k::linorder \<Rightarrow> 'v \<Rightarrow> ('k, 'v) btree_map \<Rightarrow> ('k, 'v) btree_map" where
  "bt_insert k v [] = [(k, v)]"
| "bt_insert k v ((k', v') # m) =
     (if k < k' then (k, v) # (k', v') # m
      else if k = k' then (k, v) # m
      else (k', v') # bt_insert k v m)"

fun bt_remove :: "'k::linorder \<Rightarrow> ('k, 'v) btree_map \<Rightarrow> ('k, 'v) btree_map" where
  "bt_remove k [] = []"
| "bt_remove k ((k', v') # m) = (if k = k' then m else (k', v') # bt_remove k m)"

definition bt_get :: "('k::linorder, 'v) btree_map \<Rightarrow> 'k \<Rightarrow> 'v option" where
  "bt_get m k = map_of m k"

definition bt_first :: "('k::linorder, 'v) btree_map \<Rightarrow> ('k \<times> 'v) option" where
  "bt_first m = (case m of [] \<Rightarrow> None | e # _ \<Rightarrow> Some e)"

definition bt_last :: "('k::linorder, 'v) btree_map \<Rightarrow> ('k \<times> 'v) option" where
  "bt_last m = (if m = [] then None else Some (last m))"

text \<open>\<open>range(..b)\<close>: the entries with a key below \<open>b\<close>, in key order.\<close>

definition bt_below :: "('k::linorder, 'v) btree_map \<Rightarrow> 'k \<Rightarrow> ('k, 'v) btree_map" where
  "bt_below m b = filter (\<lambda>e. fst e < b) m"

definition bt_invar :: "('k::linorder, 'v) btree_map \<Rightarrow> bool" where
  "bt_invar m = sorted_wrt (<) (map fst m)"

text \<open>\<open>v\<close> is the value at the greatest key of \<open>f\<close> that is not above \<open>k\<close>.\<close>

definition is_floor :: "('k::linorder \<rightharpoonup> 'v) \<Rightarrow> 'k \<Rightarrow> 'v \<Rightarrow> bool" where
  "is_floor f k v \<longleftrightarrow> (\<exists>k' \<le> k. f k' = Some v \<and> (\<forall>j. k' < j \<and> j \<le> k \<longrightarrow> f j = None))"

lemma is_floor_unique:
  assumes "is_floor f k v" and "is_floor f k w"
  shows "v = w"
proof -
  from assms obtain a b where
    a: "a \<le> k" "f a = Some v" "\<And>j. a < j \<Longrightarrow> j \<le> k \<Longrightarrow> f j = None" and
    b: "b \<le> k" "f b = Some w" "\<And>j. b < j \<Longrightarrow> j \<le> k \<Longrightarrow> f j = None"
    by (auto simp: is_floor_def)
  have "\<not> a < b" using a(3) [of b] b(1,2) by auto
  moreover have "\<not> b < a" using b(3) [of a] a(1,2) by auto
  ultimately have "a = b" by simp
  with a(2) b(2) show ?thesis by simp
qed

lemma is_floor_at: "f k = Some v \<Longrightarrow> is_floor f k v"
  by (auto simp: is_floor_def)

lemma is_floor_cong_below:
  assumes "\<And>j. j \<le> k \<Longrightarrow> f j = g j" and "is_floor f k v"
  shows "is_floor g k v"
proof -
  from assms(2) obtain a where "a \<le> k" "f a = Some v" "\<And>j. a < j \<Longrightarrow> j \<le> k \<Longrightarrow> f j = None"
    by (auto simp: is_floor_def)
  with assms(1) show ?thesis
    unfolding is_floor_def by (intro exI [of _ a]) simp
qed

lemma is_floor_upd_other:
  assumes "k < e"
  shows "is_floor (f(e := x)) k v \<longleftrightarrow> is_floor f k v"
proof -
  have eq: "(f(e := x)) j = f j" if "j \<le> k" for j
    using that assms by auto
  show ?thesis
    using is_floor_cong_below [of k "f(e := x)" f v] is_floor_cong_below [of k f "f(e := x)" v] eq
    by auto
qed

lemma is_floor_upd_above:
  assumes "e \<le> k" and "\<forall>j. e < j \<and> j \<le> k \<longrightarrow> f j = None"
  shows "is_floor (f(e \<mapsto> v)) k v"
  unfolding is_floor_def using assms
  by (intro exI [of _ e]) auto

text \<open>Keys above the floor's key decide nothing below them: two maps that agree from a key on
  have the same floors there.\<close>

lemma is_floor_agree:
  assumes "c \<le> k" and "f c \<noteq> None" and "\<And>j. c \<le> j \<Longrightarrow> j \<le> k \<Longrightarrow> f j = g j" and "is_floor f k w"
  shows "is_floor g k w"
proof -
  from assms(4) obtain k' where k': "k' \<le> k" "f k' = Some w" "\<And>j. k' < j \<Longrightarrow> j \<le> k \<Longrightarrow> f j = None"
    by (auto simp: is_floor_def)
  have "c \<le> k'"
    using k'(3) [of c] assms(1,2) by (cases "k' < c") auto
  then have "g k' = Some w"
    using assms(3) [of k'] k'(1,2) by simp
  moreover have "g j = None" if "k' < j" "j \<le> k" for j
    using assms(3) [of j] k'(3) [OF that] that \<open>c \<le> k'\<close> by simp
  ultimately show ?thesis using k'(1) by (auto simp: is_floor_def)
qed

lemma is_floor_agree_iff:
  assumes "c \<le> k" and "f c \<noteq> None" and "\<And>j. c \<le> j \<Longrightarrow> j \<le> k \<Longrightarrow> f j = g j"
  shows "is_floor g k w \<longleftrightarrow> is_floor f k w"
proof
  assume *: "is_floor g k w"
  show "is_floor f k w"
  proof (rule is_floor_agree [where f = g and c = c, OF assms(1)])
    show "g c \<noteq> None" using assms(2) assms(3) [of c] assms(1) by simp
    show "g j = f j" if "c \<le> j" "j \<le> k" for j
      by (rule assms(3) [OF that, symmetric])
  qed (rule *)
next
  assume *: "is_floor f k w"
  show "is_floor g k w"
    by (rule is_floor_agree [where f = f and c = c, OF assms(1,2) _ *]) (rule assms(3))
qed

lemma is_floor_cache:
  assumes fl: "is_floor f e v"
  shows "is_floor (f(e \<mapsto> v)) k w \<longleftrightarrow> is_floor f k w"
proof (cases "k < e")
  case True
  then show ?thesis by (rule is_floor_upd_other)
next
  case False
  from fl obtain k0 where k0: "k0 \<le> e" "f k0 = Some v" "\<And>j. k0 < j \<Longrightarrow> j \<le> e \<Longrightarrow> f j = None"
    by (auto simp: is_floor_def)
  show ?thesis
  proof (cases "\<exists>j. e < j \<and> j \<le> k \<and> f j \<noteq> None")
    case True
    then obtain c where "e < c" "c \<le> k" "f c \<noteq> None" by auto
    then show ?thesis
      by (intro is_floor_agree_iff [where f = f and c = c]) auto
  next
    case None_above: False
    then have 1: "is_floor (f(e \<mapsto> v)) k v"
      using False by (intro is_floor_upd_above) auto
    have "k0 \<le> k" using k0(1) False by simp
    moreover have "f j = None" if "k0 < j" "j \<le> k" for j
      using that None_above k0(3) [of j] by (cases "j \<le> e") auto
    ultimately have 2: "is_floor f k v"
      using k0(2) by (auto simp: is_floor_def)
    from 1 2 show ?thesis by (blast dest: is_floor_unique)
  qed
qed

lemma is_floor_restrict:
  assumes "f c \<noteq> None" and "c \<le> k"
  shows "is_floor (\<lambda>j. if j < c then None else f j) k w \<longleftrightarrow> is_floor f k w"
  using assms by (intro is_floor_agree_iff [where f = f and c = c]) auto

section \<open>The interface\<close>

locale ordered_map =
  fixes empty :: "'m"
    and insert :: "'k::linorder \<Rightarrow> 'v \<Rightarrow> 'm \<Rightarrow> 'm"
    and remove :: "'k \<Rightarrow> 'm \<Rightarrow> 'm"
    and get :: "'m \<Rightarrow> 'k \<Rightarrow> 'v option"
    and last_entry :: "'m \<Rightarrow> ('k \<times> 'v) option"
    and below :: "'m \<Rightarrow> 'k \<Rightarrow> ('k \<times> 'v) list"
    and invar :: "'m \<Rightarrow> bool"
  assumes get_empty: "get empty = Map.empty"
    and get_insert: "invar m \<Longrightarrow> get (insert k v m) = (get m)(k \<mapsto> v)"
    and get_remove: "invar m \<Longrightarrow> get (remove k m) = (get m)(k := None)"
    and last_None: "invar m \<Longrightarrow> last_entry m = None \<longleftrightarrow> get m = Map.empty"
    and last_Some: "invar m \<Longrightarrow> last_entry m = Some (k, v) \<Longrightarrow>
          get m k = Some v \<and> (\<forall>j. get m j \<noteq> None \<longrightarrow> j \<le> k)"
    and set_below: "invar m \<Longrightarrow> set (below m b) = {(k, v). get m k = Some v \<and> k < b}"
    and sorted_below: "invar m \<Longrightarrow> sorted_wrt (<) (map fst (below m b))"
    and invar_empty: "invar empty"
    and invar_insert: "invar m \<Longrightarrow> invar (insert k v m)"
    and invar_remove: "invar m \<Longrightarrow> invar (remove k m)"
begin

lemmas map_laws = get_empty get_insert get_remove invar_empty invar_insert invar_remove

text \<open>Removing every key of a list.\<close>

lemma fold_remove:
  "invar m \<Longrightarrow> invar (fold remove ks m) \<and>
     get (fold remove ks m) = (\<lambda>j. if j \<in> set ks then None else get m j)"
proof (induction ks arbitrary: m)
  case Nil
  then show ?case by (auto simp: fun_eq_iff)
next
  case (Cons k ks)
  then have "invar (remove k m)" by (simp add: invar_remove)
  from Cons.IH [OF this] show ?case
    using Cons.prems by (auto simp: get_remove fun_eq_iff)
qed

lemma fold_remove_below:
  assumes "invar m"
  shows "get (fold remove (map fst (below m c)) m) = (\<lambda>j. if j < c then None else get m j)"
proof -
  have "set (map fst (below m c)) = {k. get m k \<noteq> None \<and> k < c}"
    using set_below [OF assms] by force
  then show ?thesis
    using fold_remove [OF assms] by (auto simp: fun_eq_iff)
qed

text \<open>The last entry below a key is its floor when the key itself is absent.\<close>

lemma below_last_floor:
  assumes inv: "invar m" and absent: "get m k = None"
    and ne: "below m k \<noteq> []" and l: "last (below m k) = (k', v)"
  shows "is_floor (get m) k v"
proof -
  from ne l have "(k', v) \<in> set (below m k)"
    using last_in_set [OF ne] by simp
  then have k': "get m k' = Some v" "k' < k"
    by (auto simp: set_below [OF inv])
  have "get m j = None" if "k' < j" "j \<le> k" for j
  proof (rule ccontr)
    assume "get m j \<noteq> None"
    then obtain w where w: "get m j = Some w" by auto
    with absent that have "j < k" by (cases "j = k") auto
    with w have "(j, w) \<in> set (below m k)"
      by (simp add: set_below [OF inv])
    then have "j \<in> set (map fst (below m k))" by force
    then have "j = last (map fst (below m k)) \<or> j < last (map fst (below m k))"
      by (rule sorted_wrt_last [OF sorted_below [OF inv]])
    moreover have "last (map fst (below m k)) = k'"
      using ne l by (simp add: last_map)
    ultimately show False using that by auto
  qed
  with k' show ?thesis
    unfolding is_floor_def by (intro exI [of _ k']) auto
qed

lemma below_empty_no_floor:
  assumes inv: "invar m" and absent: "get m k = None" and e: "below m k = []"
  shows "\<not> is_floor (get m) k v"
proof
  assume "is_floor (get m) k v"
  then obtain k' where "k' \<le> k" "get m k' = Some v"
    by (auto simp: is_floor_def)
  moreover from this absent have "k' < k" by (cases "k' = k") auto
  ultimately have "(k', v) \<in> set (below m k)"
    by (simp add: set_below [OF inv])
  with e show False by simp
qed

end

section \<open>The implementation\<close>

lemma set_bt_insert:
  "set (map fst (bt_insert k v m)) = {k} \<union> set (map fst m)"
  by (induction k v m rule: bt_insert.induct) auto

lemma bt_invar_insert: "bt_invar m \<Longrightarrow> bt_invar (bt_insert k v m)"
proof (induction k v m rule: bt_insert.induct)
  case (2 k v k' v' m)
  then show ?case
    using set_bt_insert [of k v m] by (auto simp: bt_invar_def)
qed (simp add: bt_invar_def)

lemma map_of_above: "\<forall>j \<in> set (map fst m). (k::'k::linorder) < j \<Longrightarrow> map_of m k = None"
  by (auto simp: map_of_eq_None_iff)

lemma bt_get_insert: "bt_invar m \<Longrightarrow> bt_get (bt_insert k v m) = (bt_get m)(k \<mapsto> v)"
proof (induction k v m rule: bt_insert.induct)
  case (2 k v k' v' m)
  then show ?case
    by (auto simp: bt_get_def bt_invar_def fun_eq_iff)
qed (auto simp: bt_get_def fun_eq_iff)

lemma bt_get_remove: "bt_invar m \<Longrightarrow> bt_get (bt_remove k m) = (bt_get m)(k := None)"
proof (induction k m rule: bt_remove.induct)
  case (2 k k' v' m)
  then show ?case
    by (auto simp: bt_get_def bt_invar_def fun_eq_iff map_of_above)
qed (auto simp: bt_get_def fun_eq_iff)

lemma set_bt_remove: "set (map fst (bt_remove k m)) \<subseteq> set (map fst m)"
  by (induction k m rule: bt_remove.induct) auto

lemma bt_invar_remove: "bt_invar m \<Longrightarrow> bt_invar (bt_remove k m)"
proof (induction k m rule: bt_remove.induct)
  case (2 k k' v' m)
  then have "\<forall>j \<in> set (map fst m). k' < j" by (simp add: bt_invar_def)
  then have "\<forall>j \<in> set (map fst (bt_remove k m)). k' < j"
    using set_bt_remove [of k m] by blast
  with 2 show ?case
    by (simp add: bt_invar_def)
qed (simp add: bt_invar_def)

lemma bt_invar_distinct: "bt_invar m \<Longrightarrow> distinct (map fst m)"
  unfolding bt_invar_def using strict_sorted_iff by blast

lemma bt_get_iff: "bt_invar m \<Longrightarrow> bt_get m k = Some v \<longleftrightarrow> (k, v) \<in> set m"
  by (simp add: bt_get_def map_of_eq_Some_iff bt_invar_distinct)

lemma bt_last_max:
  assumes "bt_invar m" and "bt_last m = Some (k, v)" and "bt_get m j \<noteq> None"
  shows "j \<le> k"
proof -
  from assms(3) have "j \<in> set (map fst m)"
    by (auto simp: bt_get_def map_of_eq_None_iff)
  with assms(1) have "j = last (map fst m) \<or> j < last (map fst m)"
    unfolding bt_invar_def by (rule sorted_wrt_last)
  moreover have "last (map fst m) = k"
    using assms(2) by (auto simp: bt_last_def last_map split: if_splits)
  ultimately show ?thesis by auto
qed

interpretation bt: ordered_map "[]" bt_insert bt_remove bt_get bt_last bt_below bt_invar
proof (unfold_locales, goal_cases)
  case 1
  show ?case by (simp add: bt_get_def fun_eq_iff)
next
  case (2 m k v)
  then show ?case by (rule bt_get_insert)
next
  case (3 m k)
  then show ?case by (rule bt_get_remove)
next
  case (4 m)
  then show ?case by (cases m) (auto simp: bt_last_def bt_get_def fun_eq_iff)
next
  case (5 m k v)
  then have "m \<noteq> []" "last m = (k, v)"
    by (auto simp: bt_last_def split: if_splits)
  then have "(k, v) \<in> set m" using last_in_set [of m] by simp
  with 5 bt_last_max [OF 5] show ?case by (simp add: bt_get_iff)
next
  case (6 m b)
  then show ?case by (auto simp: bt_below_def bt_get_iff)
next
  case (7 m b)
  then show ?case
    unfolding bt_below_def bt_invar_def sorted_wrt_map by (rule sorted_wrt_filter)
next
  case 8
  show ?case by (simp add: bt_invar_def)
next
  case (9 m k v)
  then show ?case by (rule bt_invar_insert)
next
  case (10 m k)
  then show ?case by (rule bt_invar_remove)
qed

end
