(* ===== verification/Authorized_Voters.thy ===== *)
theory Authorized_Voters
  imports Ordered_Map
begin

text \<open>
  \<^verbatim>\<open>sdk/program/src/vote/authorized_voters.rs\<close>: the queue of authorized voters of a vote
  account. An entry \<open>(e, k)\<close> says that \<open>k\<close> signs votes from epoch \<open>e\<close> on, until the next entry.
  The voter of an epoch is the floor of the map at that epoch; looking it up may cache it, and
  purging drops the entries of past epochs.
\<close>

type_synonym authorized_voters = "(epoch, pubkey) btree_map"

definition av_new :: "epoch \<Rightarrow> pubkey \<Rightarrow> authorized_voters" where
  "av_new e k = bt_insert e k []"

text \<open>The voter of an epoch, and whether the epoch has an entry of its own.\<close>

definition get_or_calculate_authorized_voter_for_epoch ::
  "authorized_voters \<Rightarrow> epoch \<Rightarrow> (pubkey \<times> bool) option" where
  "get_or_calculate_authorized_voter_for_epoch av e =
     (case bt_get av e of
        None \<Rightarrow>
          (let r = bt_below av e in
           if r = [] then None else Some (snd (last r), False))
      | Some k \<Rightarrow> Some (k, True))"

definition av_get_authorized_voter :: "authorized_voters \<Rightarrow> epoch \<Rightarrow> pubkey option" where
  "av_get_authorized_voter av e = map_option fst (get_or_calculate_authorized_voter_for_epoch av e)"

definition get_and_cache_authorized_voter_for_epoch ::
  "authorized_voters \<Rightarrow> epoch \<Rightarrow> pubkey option \<times> authorized_voters" where
  "get_and_cache_authorized_voter_for_epoch av e =
     (case get_or_calculate_authorized_voter_for_epoch av e of
        None \<Rightarrow> (None, av)
      | Some (k, existed) \<Rightarrow> (Some k, if \<not> existed then bt_insert e k av else av))"

definition av_insert :: "authorized_voters \<Rightarrow> epoch \<Rightarrow> pubkey \<Rightarrow> authorized_voters" where
  "av_insert av e k = bt_insert e k av"

text \<open>Dropping the entries before the current epoch; the source asserts that one is left.\<close>

definition purge_authorized_voters :: "authorized_voters \<Rightarrow> epoch \<Rightarrow> ('e, authorized_voters) result" where
  "purge_authorized_voters av current_epoch =
     (let expired_keys = map fst (bt_below av current_epoch);
          av' = fold bt_remove expired_keys av
      in rbind (assert_that (av' \<noteq> [])) (\<lambda>_. Ok av'))"

definition av_is_empty :: "authorized_voters \<Rightarrow> bool" where
  "av_is_empty av = (av = [])"

definition av_first :: "authorized_voters \<Rightarrow> (epoch \<times> pubkey) option" where
  "av_first av = bt_first av"

definition av_last :: "authorized_voters \<Rightarrow> (epoch \<times> pubkey) option" where
  "av_last av = bt_last av"

definition av_len :: "authorized_voters \<Rightarrow> nat" where
  "av_len av = length av"

definition av_contains :: "authorized_voters \<Rightarrow> epoch \<Rightarrow> bool" where
  "av_contains av e = (bt_get av e \<noteq> None)"

abbreviation av_invar :: "authorized_voters \<Rightarrow> bool" where
  "av_invar \<equiv> bt_invar"

section \<open>The voter of an epoch is the floor of the map\<close>

lemma goc_Some:
  assumes "av_invar av" and "get_or_calculate_authorized_voter_for_epoch av e = Some (k, b)"
  shows "is_floor (bt_get av) e k \<and> (b \<longleftrightarrow> bt_get av e \<noteq> None)"
proof (cases "bt_get av e")
  case None
  with assms(2) have ne: "bt_below av e \<noteq> []" and k: "snd (last (bt_below av e)) = k" and "\<not> b"
    by (auto simp: get_or_calculate_authorized_voter_for_epoch_def Let_def split: if_splits)
  obtain e' where "last (bt_below av e) = (e', k)"
    using k by (cases "last (bt_below av e)") auto
  with bt.below_last_floor [OF assms(1) None ne] None \<open>\<not> b\<close> show ?thesis by simp
next
  case (Some k')
  with assms(2) show ?thesis
    by (auto simp: get_or_calculate_authorized_voter_for_epoch_def intro: is_floor_at)
qed

lemma goc_None:
  assumes "av_invar av" and "get_or_calculate_authorized_voter_for_epoch av e = None"
  shows "\<not> is_floor (bt_get av) e k"
proof -
  from assms(2) have "bt_get av e = None" "bt_below av e = []"
    by (auto simp: get_or_calculate_authorized_voter_for_epoch_def Let_def split: if_splits option.splits)
  then show ?thesis
    by (rule bt.below_empty_no_floor [OF assms(1)])
qed

lemma av_get_iff_floor:
  assumes "av_invar av"
  shows "av_get_authorized_voter av e = Some k \<longleftrightarrow> is_floor (bt_get av) e k"
proof
  assume "av_get_authorized_voter av e = Some k"
  then show "is_floor (bt_get av) e k"
    using goc_Some [OF assms] by (auto simp: av_get_authorized_voter_def)
next
  assume fl: "is_floor (bt_get av) e k"
  then obtain k' b where "get_or_calculate_authorized_voter_for_epoch av e = Some (k', b)"
    using goc_None [OF assms] by fastforce
  with goc_Some [OF assms this] fl show "av_get_authorized_voter av e = Some k"
    by (auto simp: av_get_authorized_voter_def dest: is_floor_unique)
qed

text \<open>Two queues with the same floors answer every query alike.\<close>

lemma av_get_cong:
  assumes "av_invar av" and "av_invar av'"
    and "\<And>k. is_floor (bt_get av) e k \<longleftrightarrow> is_floor (bt_get av') e k"
  shows "av_get_authorized_voter av e = av_get_authorized_voter av' e"
  using assms by (metis av_get_iff_floor not_None_eq)

section \<open>Caching and purging\<close>

lemma get_and_cache_Some:
  assumes "av_invar av" and "get_and_cache_authorized_voter_for_epoch av e = (Some k, av')"
  shows "av_get_authorized_voter av e = Some k" and "av_invar av'" and "bt_get av' e = Some k"
    and "av_get_authorized_voter av' j = av_get_authorized_voter av j"
proof -
  from assms(2) obtain b where g: "get_or_calculate_authorized_voter_for_epoch av e = Some (k, b)"
    and av': "av' = (if \<not> b then bt_insert e k av else av)"
    by (auto simp: get_and_cache_authorized_voter_for_epoch_def split: option.splits)
  note fl = goc_Some [OF assms(1) g]
  from g show "av_get_authorized_voter av e = Some k"
    by (simp add: av_get_authorized_voter_def)
  show inv: "av_invar av'"
    using assms(1) by (simp add: av' bt.invar_insert)
  show "bt_get av' e = Some k"
  proof (cases b)
    case True
    with fl obtain k' where "bt_get av e = Some k'" by auto
    moreover from this fl have "k' = k" by (auto dest: is_floor_at is_floor_unique)
    ultimately show ?thesis using True av' by simp
  next
    case False
    then show ?thesis using av' by (simp add: bt.get_insert assms(1))
  qed
  show "av_get_authorized_voter av' j = av_get_authorized_voter av j"
  proof (rule av_get_cong [OF inv assms(1)])
    show "is_floor (bt_get av') j w \<longleftrightarrow> is_floor (bt_get av) j w" for w
      using fl by (simp add: av' bt.get_insert assms(1) is_floor_cache)
  qed
qed

lemma get_and_cache_None:
  assumes "get_and_cache_authorized_voter_for_epoch av e = (None, av')"
  shows "av' = av" and "av_get_authorized_voter av e = None"
  using assms
  by (auto simp: get_and_cache_authorized_voter_for_epoch_def av_get_authorized_voter_def
      split: option.splits)

lemma purge_present:
  assumes "av_invar av" and "bt_get av c \<noteq> None"
  obtains av' where "purge_authorized_voters av c = Ok av'" and "av_invar av'"
    and "\<And>e. bt_get av' e = (if e < c then None else bt_get av e)"
    and "\<And>e. c \<le> e \<Longrightarrow> av_get_authorized_voter av' e = av_get_authorized_voter av e"
proof -
  let ?av' = "fold bt_remove (map fst (bt_below av c)) av"
  have inv: "av_invar ?av'"
    using bt.fold_remove [OF assms(1)] by blast
  have get: "bt_get ?av' = (\<lambda>j. if j < c then None else bt_get av j)"
    by (rule bt.fold_remove_below [OF assms(1)])
  have "?av' \<noteq> []"
    using fun_cong [OF get, of c] assms(2) by (auto simp: bt_get_def)
  then have "purge_authorized_voters av c = Ok ?av'"
    by (simp add: purge_authorized_voters_def assert_that_def)
  moreover have "av_get_authorized_voter ?av' e = av_get_authorized_voter av e" if "c \<le> e" for e
  proof (rule av_get_cong [OF inv assms(1)])
    show "is_floor (bt_get ?av') e w \<longleftrightarrow> is_floor (bt_get av) e w" for w
      unfolding get by (rule is_floor_restrict [where f = "bt_get av" and c = c, OF assms(2) that])
  qed
  ultimately show ?thesis
    using that [of ?av'] inv get by simp
qed

end
