(* ===== verification/Std_Slice.thy ===== *)
theory Std_Slice
  imports Prelude
begin

text \<open>
  Slice operations of the standard library that the source relies on: three-way comparison,
  binary search, partition point and rotation. Binary search is given by its documented contract,
  as a locale, and by the loop of the library, which meets the contract. Clients reason from the
  contract only: which of several equal elements is found is not part of it.
\<close>

datatype ordering = Less | Equal | Greater

fun ordering_rank :: "ordering \<Rightarrow> nat" where
  "ordering_rank Less = 0"
| "ordering_rank Equal = 1"
| "ordering_rank Greater = 2"

definition cmp :: "'a::linorder \<Rightarrow> 'a \<Rightarrow> ordering" where
  "cmp a b = (if a < b then Less else if a = b then Equal else Greater)"

text \<open>\<open>f\<close> compares an element with the target; the slice has the smaller elements first.\<close>

definition partitioned_by :: "('a \<Rightarrow> ordering) \<Rightarrow> 'a list \<Rightarrow> bool" where
  "partitioned_by f xs = sorted_wrt (\<lambda>x y. ordering_rank (f x) \<le> ordering_rank (f y)) xs"

text \<open>
  The loop of \<open>slice::binary_search_by\<close> in the toolchain the workspace pins: \<open>Inr\<close> is \<open>Ok\<close>, an
  index of an equal element; \<open>Inl\<close> is \<open>Err\<close>, the insertion point.
\<close>

function bs_loop :: "('a \<Rightarrow> ordering) \<Rightarrow> 'a list \<Rightarrow> nat \<Rightarrow> nat \<Rightarrow> nat + nat" where
  "bs_loop f xs left right =
     (if left < right then
        let mid = left + (right - left) div 2 in
        case f (xs ! mid) of
          Equal \<Rightarrow> Inr mid
        | Less \<Rightarrow> bs_loop f xs (mid + 1) right
        | Greater \<Rightarrow> bs_loop f xs left mid
      else Inl left)"
  by pat_completeness auto
termination
  by (relation "measure (\<lambda>(f, xs, left, right). right - left)") auto

declare bs_loop.simps [simp del]

definition binary_search_by :: "('a \<Rightarrow> ordering) \<Rightarrow> 'a list \<Rightarrow> nat + nat" where
  "binary_search_by f xs = bs_loop f xs 0 (length xs)"

definition partition_point :: "('a \<Rightarrow> bool) \<Rightarrow> 'a list \<Rightarrow> nat" where
  "partition_point p xs =
     (case binary_search_by (\<lambda>x. if p x then Less else Greater) xs of Inl i \<Rightarrow> i | Inr i \<Rightarrow> i)"

definition rotate_right1 :: "'a list \<Rightarrow> 'a list" where
  "rotate_right1 xs = (if xs = [] then [] else last xs # butlast xs)"

definition rotate_left1 :: "'a list \<Rightarrow> 'a list" where
  "rotate_left1 xs = (case xs of [] \<Rightarrow> [] | x # ys \<Rightarrow> ys @ [x])"

lemma ordering_rank_simps [simp]:
  "ordering_rank o1 \<le> 0 \<longleftrightarrow> o1 = Less"
  "ordering_rank o1 = 0 \<longleftrightarrow> o1 = Less"
  "2 \<le> ordering_rank o1 \<longleftrightarrow> o1 = Greater"
  by (cases o1; simp)+

lemma partitioned_nth:
  assumes "partitioned_by f xs" and "i \<le> j" and "j < length xs"
  shows "ordering_rank (f (xs ! i)) \<le> ordering_rank (f (xs ! j))"
proof (cases "i = j")
  case False
  with assms show ?thesis
    by (auto simp: partitioned_by_def sorted_wrt_iff_nth_less)
qed simp

lemma partitioned_Less_down:
  assumes "partitioned_by f xs" and "i \<le> j" and "j < length xs" and "f (xs ! j) = Less"
  shows "f (xs ! i) = Less"
  using partitioned_nth [OF assms(1-3)] assms(4) by simp

lemma partitioned_Greater_up:
  assumes "partitioned_by f xs" and "i \<le> j" and "j < length xs" and "f (xs ! i) = Greater"
  shows "f (xs ! j) = Greater"
  using partitioned_nth [OF assms(1-3)] assms(4) by simp

section \<open>The contract of binary search\<close>

locale binary_search =
  fixes bs :: "('a \<Rightarrow> ordering) \<Rightarrow> 'a list \<Rightarrow> nat + nat"
  assumes found: "partitioned_by f xs \<Longrightarrow> bs f xs = Inr i \<Longrightarrow> i < length xs \<and> f (xs ! i) = Equal"
    and absent_below: "partitioned_by f xs \<Longrightarrow> bs f xs = Inl i \<Longrightarrow> j < i \<Longrightarrow>
          j < length xs \<and> f (xs ! j) = Less"
    and absent_above: "partitioned_by f xs \<Longrightarrow> bs f xs = Inl i \<Longrightarrow> i \<le> j \<Longrightarrow> j < length xs \<Longrightarrow>
          f (xs ! j) = Greater"
begin

lemma insertion_bound:
  assumes "partitioned_by f xs" and "bs f xs = Inl i"
  shows "i \<le> length xs"
proof (cases i)
  case (Suc j)
  then show ?thesis using absent_below [OF assms, of j] by simp
qed simp

lemma found_iff_member:
  assumes "partitioned_by f xs"
  shows "(\<exists>i. bs f xs = Inr i) \<longleftrightarrow> (\<exists>x \<in> set xs. f x = Equal)"
proof
  assume "\<exists>i. bs f xs = Inr i"
  then obtain i where "bs f xs = Inr i" by blast
  from found [OF assms this] show "\<exists>x \<in> set xs. f x = Equal" by auto
next
  assume "\<exists>x \<in> set xs. f x = Equal"
  then obtain j where j: "j < length xs" "f (xs ! j) = Equal"
    by (auto simp: in_set_conv_nth)
  show "\<exists>i. bs f xs = Inr i"
  proof (cases "bs f xs")
    case (Inl i)
    show ?thesis
    proof (cases "j < i")
      case True
      with absent_below [OF assms Inl] j show ?thesis by simp
    next
      case False
      with absent_above [OF assms Inl, of j] j show ?thesis by simp
    qed
  qed blast
qed

text \<open>Inserting at the returned index, found or not, keeps the smaller elements in front and
  the greater ones behind.\<close>

lemma insertion_point:
  assumes "partitioned_by f xs" and "(case bs f xs of Inl i \<Rightarrow> i | Inr i \<Rightarrow> i) = k"
  shows "k \<le> length xs" and "j < k \<Longrightarrow> f (xs ! j) \<noteq> Greater"
    and "k \<le> j \<Longrightarrow> j < length xs \<Longrightarrow> f (xs ! j) \<noteq> Less"
proof -
  show "k \<le> length xs"
    using assms insertion_bound [OF assms(1)] found [OF assms(1)]
    by (cases "bs f xs") (auto simp: less_imp_le)
  show "f (xs ! j) \<noteq> Greater" if "j < k"
  proof (cases "bs f xs")
    case (Inl i)
    with assms absent_below [OF assms(1) Inl, of j] that show ?thesis by simp
  next
    case (Inr i)
    with found [OF assms(1) Inr] assms(2) partitioned_nth [OF assms(1), of j i] that show ?thesis
      by auto
  qed
  show "f (xs ! j) \<noteq> Less" if "k \<le> j" "j < length xs"
  proof (cases "bs f xs")
    case (Inl i)
    with assms absent_above [OF assms(1) Inl, of j] that show ?thesis by simp
  next
    case (Inr i)
    with found [OF assms(1) Inr] assms(2) partitioned_nth [OF assms(1), of i j] that show ?thesis
      by auto
  qed
qed

end

section \<open>The library's loop meets the contract\<close>

text \<open>The loop keeps only smaller elements left of \<open>left\<close> and only greater ones from \<open>right\<close> on.\<close>

lemma bs_loop_correct:
  assumes "partitioned_by f xs" and "left \<le> right" and "right \<le> length xs"
    and "\<And>j. j < left \<Longrightarrow> f (xs ! j) = Less"
    and "\<And>j. right \<le> j \<Longrightarrow> j < length xs \<Longrightarrow> f (xs ! j) = Greater"
  shows "case bs_loop f xs left right of
      Inr i \<Rightarrow> i < length xs \<and> f (xs ! i) = Equal
    | Inl i \<Rightarrow> i \<le> length xs \<and> (\<forall>j < i. f (xs ! j) = Less) \<and>
        (\<forall>j. i \<le> j \<and> j < length xs \<longrightarrow> f (xs ! j) = Greater)"
  using assms
proof (induction f xs left right rule: bs_loop.induct)
  case (1 f xs left right)
  show ?case
  proof (cases "left < right")
    case False
    then have "bs_loop f xs left right = Inl left"
      by (simp add: bs_loop.simps [of f xs left right])
    with False "1.prems" show ?thesis by simp
  next
    case True
    define mid where "mid = left + (right - left) div 2"
    have mid: "left \<le> mid" "mid < right"
      using True by (auto simp: mid_def)
    have len: "mid < length xs"
      using mid "1.prems"(3) by simp
    have eq: "bs_loop f xs left right =
      (case f (xs ! mid) of Equal \<Rightarrow> Inr mid | Less \<Rightarrow> bs_loop f xs (mid + 1) right
       | Greater \<Rightarrow> bs_loop f xs left mid)"
      unfolding mid_def using True by (simp add: bs_loop.simps [of f xs left right] Let_def)
    show ?thesis
    proof (cases "f (xs ! mid)")
      case Less
      have below: "f (xs ! j) = Less" if "j < mid + 1" for j
        using partitioned_Less_down [OF "1.prems"(1) _ len Less, of j] that by simp
      have "mid + 1 \<le> right" using mid by simp
      from "1.IH"(1) [OF True mid_def Less "1.prems"(1) this "1.prems"(3) below "1.prems"(5)]
      show ?thesis by (simp add: eq Less)
    next
      case Equal
      with len show ?thesis by (simp add: eq)
    next
      case Greater
      have above: "f (xs ! j) = Greater" if "mid \<le> j" "j < length xs" for j
        by (rule partitioned_Greater_up [OF "1.prems"(1) that Greater])
      have "mid \<le> length xs" using len by simp
      from "1.IH"(2) [OF True mid_def Greater "1.prems"(1) mid(1) this "1.prems"(4) above]
      show ?thesis by (simp add: eq Greater)
    qed
  qed
qed

lemma binary_search_by_correct:
  assumes "partitioned_by f xs"
  shows "case binary_search_by f xs of
      Inr i \<Rightarrow> i < length xs \<and> f (xs ! i) = Equal
    | Inl i \<Rightarrow> i \<le> length xs \<and> (\<forall>j < i. f (xs ! j) = Less) \<and>
        (\<forall>j. i \<le> j \<and> j < length xs \<longrightarrow> f (xs ! j) = Greater)"
  unfolding binary_search_by_def by (rule bs_loop_correct [OF assms]) auto

interpretation slice_bs: binary_search binary_search_by
proof (unfold_locales, goal_cases)
  case (1 f xs i)
  with binary_search_by_correct [OF 1(1)] show ?case by simp
next
  case (2 f xs i j)
  with binary_search_by_correct [OF 2(1)] show ?case by auto
next
  case (3 f xs i j)
  with binary_search_by_correct [OF 3(1)] show ?case by auto
qed

lemma partition_point_eq:
  assumes "n \<le> length xs" and "\<And>i. i < n \<Longrightarrow> p (xs ! i)"
    and "\<And>i. n \<le> i \<Longrightarrow> i < length xs \<Longrightarrow> \<not> p (xs ! i)"
  shows "partition_point p xs = n"
proof -
  let ?f = "\<lambda>x. if p x then Less else Greater"
  have "ordering_rank (?f (xs ! i)) \<le> ordering_rank (?f (xs ! j))" if "i < j" "j < length xs" for i j
    using that assms(2) [of i] assms(3) [of j] assms(2) [of j] assms(3) [of i]
    by (cases "i < n"; cases "j < n") auto
  then have part: "partitioned_by ?f xs"
    by (auto simp: partitioned_by_def sorted_wrt_iff_nth_less)
  obtain k where k: "partition_point p xs = k" by blast
  then have ip: "(case binary_search_by ?f xs of Inl i \<Rightarrow> i | Inr i \<Rightarrow> i) = k"
    by (simp add: partition_point_def)
  note * = slice_bs.insertion_point [OF part ip]
  have "\<not> k < n" using *(3) [of k] assms by fastforce
  moreover have "\<not> n < k" using *(2) [of n] *(1) assms(3) [of n] by fastforce
  ultimately show ?thesis using k by simp
qed

end
