(* ===== verification/Instruction_Error.thy ===== *)
theory Instruction_Error
  imports Prelude
begin

text \<open>
  The error enums of the on-chain programs: \<open>InstructionError\<close>
  (\<^verbatim>\<open>sdk/instruction/src/error.rs\<close>) and \<open>VoteError\<close> (\<^verbatim>\<open>sdk/program/src/vote/error.rs\<close>).
  A program error becomes an instruction error through its discriminant, so that two program
  errors stay distinguishable exactly when the discriminants differ.
\<close>

datatype (plugins only: code) instruction_error =
    GenericError | InvalidArgument | InvalidInstructionData | InvalidAccountData
  | AccountDataTooSmall | InsufficientFunds | IncorrectProgramId | MissingRequiredSignature
  | AccountAlreadyInitialized | UninitializedAccount | UnbalancedInstruction | ModifiedProgramId
  | ExternalAccountLamportSpend | ExternalAccountDataModified | ReadonlyLamportChange
  | ReadonlyDataModified | DuplicateAccountIndex | ExecutableModified | RentEpochModified
  | NotEnoughAccountKeys | AccountDataSizeChanged | AccountNotExecutable | AccountBorrowFailed
  | AccountBorrowOutstanding | DuplicateAccountOutOfSync | Custom nat | InvalidError
  | ExecutableDataModified | ExecutableLamportChange | ExecutableAccountNotRentExempt
  | UnsupportedProgramId | CallDepth | MissingAccount | ReentrancyNotAllowed
  | MaxSeedLengthExceeded | InvalidSeeds | InvalidRealloc | ComputationalBudgetExceeded
  | PrivilegeEscalation | ProgramEnvironmentSetupFailure | ProgramFailedToComplete
  | ProgramFailedToCompile | Immutable | IncorrectAuthority | BorshIoError string
  | AccountNotRentExempt | InvalidAccountOwner | ArithmeticOverflow | UnsupportedSysvar
  | IllegalOwner | MaxAccountsDataAllocationsExceeded | MaxAccountsExceeded
  | MaxInstructionTraceLengthExceeded | BuiltinProgramsMustConsumeComputeUnits

datatype (plugins only: code) vote_error =
    VoteTooOld | SlotsMismatch | SlotHashMismatch | EmptySlots | TimestampTooOld
  | TooSoonToReauthorize | LockoutConflict | NewVoteStateLockoutMismatch | SlotsNotOrdered
  | ConfirmationsNotOrdered | ZeroConfirmations | ConfirmationTooLarge | RootRollBack
  | ConfirmationRollBack | SlotSmallerThanRoot | TooManyVotes | VotesTooOldAllFiltered
  | RootOnDifferentFork | ActiveVoteAccountClose | CommissionUpdateTooLate | AssertionFailed

text \<open>The discriminant of a vote error, which \<open>ToPrimitive\<close> derives from the order of the enum.\<close>

fun vote_error_code :: "vote_error \<Rightarrow> nat" where
  "vote_error_code VoteTooOld = 0"
| "vote_error_code SlotsMismatch = 1"
| "vote_error_code SlotHashMismatch = 2"
| "vote_error_code EmptySlots = 3"
| "vote_error_code TimestampTooOld = 4"
| "vote_error_code TooSoonToReauthorize = 5"
| "vote_error_code LockoutConflict = 6"
| "vote_error_code NewVoteStateLockoutMismatch = 7"
| "vote_error_code SlotsNotOrdered = 8"
| "vote_error_code ConfirmationsNotOrdered = 9"
| "vote_error_code ZeroConfirmations = 10"
| "vote_error_code ConfirmationTooLarge = 11"
| "vote_error_code RootRollBack = 12"
| "vote_error_code ConfirmationRollBack = 13"
| "vote_error_code SlotSmallerThanRoot = 14"
| "vote_error_code TooManyVotes = 15"
| "vote_error_code VotesTooOldAllFiltered = 16"
| "vote_error_code RootOnDifferentFork = 17"
| "vote_error_code ActiveVoteAccountClose = 18"
| "vote_error_code CommissionUpdateTooLate = 19"
| "vote_error_code AssertionFailed = 20"

definition vote_err :: "vote_error \<Rightarrow> instruction_error" where
  "vote_err e = Custom (vote_error_code e)"

fun vote_error_of_code :: "nat \<Rightarrow> vote_error" where
  "vote_error_of_code n =
     [VoteTooOld, SlotsMismatch, SlotHashMismatch, EmptySlots, TimestampTooOld,
      TooSoonToReauthorize, LockoutConflict, NewVoteStateLockoutMismatch, SlotsNotOrdered,
      ConfirmationsNotOrdered, ZeroConfirmations, ConfirmationTooLarge, RootRollBack,
      ConfirmationRollBack, SlotSmallerThanRoot, TooManyVotes, VotesTooOldAllFiltered,
      RootOnDifferentFork, ActiveVoteAccountClose, CommissionUpdateTooLate, AssertionFailed] ! n"

lemma vote_error_code_inverse: "vote_error_of_code (vote_error_code e) = e"
  by (cases e) simp_all

lemma vote_error_code_inj: "vote_error_code e = vote_error_code e' \<Longrightarrow> e = e'"
  using vote_error_code_inverse by metis

lemma vote_err_eq_iff [simp]: "vote_err e = vote_err e' \<longleftrightarrow> e = e'"
  by (auto simp: vote_err_def dest: vote_error_code_inj)

end
