(* ===== verification/Vote_Tower.thy ===== *)
theory Vote_Tower
  imports Vote_State
begin

text \<open>
  What the tower of \<^verbatim>\<open>sdk/program/src/vote/state/mod.rs\<close> promises. \<open>tower_inv\<close> is the invariant of
  the stack of votes; \<open>process_next_vote_slot\<close> keeps it. A vote leaves the stack only by becoming
  the root or after its lockout has passed. Voting on consecutive slots builds exactly the tower
  that \<open>TowerSync::new_from_slot\<close> writes down directly.
\<close>

section \<open>The invariant\<close>

text \<open>
  What \<open>process_new_vote_state\<close> demands of a proposed tower: at most 31 votes, slots strictly
  increasing, confirmation counts between 1 and 31 and strictly decreasing, and no vote expired
  by the vote right after it.
\<close>

definition tower_wf :: "landed_vote list \<Rightarrow> bool" where
  "tower_wf vs \<longleftrightarrow>
     length vs \<le> MAX_LOCKOUT_HISTORY \<and>
     sorted_wrt (\<lambda>a b. lv_slot a < lv_slot b) vs \<and>
     sorted_wrt (\<lambda>a b. lv_confirmation_count b < lv_confirmation_count a) vs \<and>
     (\<forall>v \<in> set vs. 1 \<le> lv_confirmation_count v \<and> lv_confirmation_count v \<le> MAX_LOCKOUT_HISTORY) \<and>
     (\<forall>i. Suc i < length vs \<longrightarrow> is_locked_out_at_slot (lv_lockout (vs ! i)) (lv_slot (vs ! Suc i)))"

text \<open>
  What building the tower one vote at a time adds: a vote has at least as many confirmations as
  votes from it to the top.
\<close>

definition tower_deep :: "landed_vote list \<Rightarrow> bool" where
  "tower_deep vs \<longleftrightarrow> (\<forall>i < length vs. length vs \<le> i + lv_confirmation_count (vs ! i))"

definition root_below :: "slot option \<Rightarrow> landed_vote list \<Rightarrow> bool" where
  "root_below r vs \<longleftrightarrow>
     (case r of None \<Rightarrow> True | Some r' \<Rightarrow> vs \<noteq> [] \<and> (\<forall>v \<in> set vs. r' < lv_slot v))"

definition tower_inv :: "vote_state \<Rightarrow> bool" where
  "tower_inv vs \<longleftrightarrow> tower_wf (votes vs) \<and> tower_deep (votes vs) \<and> root_below (root_slot vs) (votes vs)"

text \<open>A fresh vote may go on top of these votes: they are a tower with room and the top one is
  still locked out.\<close>

definition can_push :: "landed_vote list \<Rightarrow> landed_vote \<Rightarrow> bool" where
  "can_push vs v \<longleftrightarrow>
     tower_wf vs \<and> tower_deep vs \<and> length vs < MAX_LOCKOUT_HISTORY \<and>
     lv_confirmation_count v = 1 \<and> (\<forall>w \<in> set vs. lv_slot w < lv_slot v) \<and>
     (vs \<noteq> [] \<longrightarrow> is_locked_out_at_slot (lv_lockout (last vs)) (lv_slot v))"

text \<open>Consecutive votes: the tower after voting on \<open>0 \<dots> n\<close>.\<close>

definition vote_all :: "vote_state \<Rightarrow> slot list \<Rightarrow> epoch \<Rightarrow> slot \<Rightarrow> bool \<Rightarrow> vote_state" where
  "vote_all vs ss e cs t = fold (\<lambda>s vs. process_next_vote_slot vs s e cs t) ss vs"

text \<open>The lockouts of a stack of consecutive votes up to \<open>n\<close>.\<close>

definition consecutive :: "nat \<Rightarrow> lockout list" where
  "consecutive n = map (\<lambda>s. new_with_confirmation_count s (Suc n - s)) [Suc n - MAX_LOCKOUT_HISTORY ..< Suc n]"

definition consecutive_root :: "nat \<Rightarrow> slot option" where
  "consecutive_root n = (if MAX_LOCKOUT_HISTORY \<le> n then Some (n - MAX_LOCKOUT_HISTORY) else None)"

section \<open>Lockouts grow with confirmations\<close>

lemma increase_confirmation_count_simps [simp]:
  "lockout_slot (increase_confirmation_count l n) = lockout_slot l"
  "confirmation_count (increase_confirmation_count l n) = sat_add_u32 (confirmation_count l) n"
  by (simp_all add: increase_confirmation_count_def)

lemma lockout_period_small: "confirmation_count l < 64 \<Longrightarrow> lockout_period l = 2 ^ confirmation_count l"
  by (simp add: lockout_period_def INITIAL_LOCKOUT_def pow_u64_two)

lemma last_locked_out_slot_mono:
  assumes "lockout_slot l = lockout_slot l'" and "confirmation_count l \<le> confirmation_count l'"
    and "confirmation_count l' < 64"
  shows "last_locked_out_slot l \<le> last_locked_out_slot l'"
  unfolding last_locked_out_slot_def assms(1)
  using assms(2,3) by (intro sat_add_u64_mono2) (simp add: lockout_period_small)

section \<open>The tower\<close>

lemma tower_wf_take: "tower_wf vs \<Longrightarrow> tower_wf (take k vs)"
  unfolding tower_wf_def by (auto dest: in_set_takeD simp: sorted_wrt_take)

lemma tower_wf_tl: "tower_wf vs \<Longrightarrow> tower_wf (tl vs)"
  by (cases vs) (auto simp: tower_wf_def)

lemma tower_deep_take: "tower_deep vs \<Longrightarrow> tower_deep (take k vs)"
  by (fastforce simp: tower_deep_def)

lemma tower_deep_tl: "tower_deep vs \<Longrightarrow> tower_deep (tl vs)"
  by (cases vs) (force simp: tower_deep_def)+

lemma root_below_push:
  assumes "root_below r vs" and "set us \<subseteq> set vs" and "\<forall>v \<in> set vs. lv_slot v < lv_slot w"
  shows "root_below r (us @ [w])"
proof (cases r)
  case (Some r')
  with assms(1) obtain v where "v \<in> set vs" "r' < lv_slot v"
    by (cases vs) (auto simp: root_below_def)
  with assms(3) have "r' < lv_slot w" by fastforce
  with Some assms(1,2) show ?thesis by (auto simp: root_below_def)
qed (simp add: root_below_def)

lemma tower_wf_nth:
  assumes "tower_wf vs" and "i < j" and "j < length vs"
  shows "lv_slot (vs ! i) < lv_slot (vs ! j)"
    and "lv_confirmation_count (vs ! j) < lv_confirmation_count (vs ! i)"
  using assms by (auto simp: tower_wf_def sorted_wrt_iff_nth_less)

lemma tower_wf_count:
  assumes "tower_wf vs" and "i < length vs"
  shows "1 \<le> lv_confirmation_count (vs ! i)" and "lv_confirmation_count (vs ! i) \<le> MAX_LOCKOUT_HISTORY"
  using assms by (auto simp: tower_wf_def)

lemma tower_slots_inj:
  assumes "tower_wf vs" and "v \<in> set vs" and "w \<in> set vs" and "lv_slot v = lv_slot w"
  shows "v = w"
proof -
  from assms(2,3) obtain i j where ij: "i < length vs" "v = vs ! i" "j < length vs" "w = vs ! j"
    by (auto simp: in_set_conv_nth)
  with assms(4) show ?thesis
    using tower_wf_nth(1) [OF assms(1), of i j] tower_wf_nth(1) [OF assms(1), of j i]
    by (cases i j rule: linorder_cases) auto
qed

section \<open>Popping expired votes\<close>

text \<open>What is popped is a suffix of expired votes; what is left ends in a vote still locked out.\<close>

lemma pop_expired_take:
  obtains k where "pop_expired s vs = take k vs" and "k \<le> length vs"
    and "\<forall>v \<in> set (drop k vs). last_locked_out_slot (lv_lockout v) < s"
    and "k = 0 \<or> is_locked_out_at_slot (lv_lockout (vs ! (k - 1))) s"
proof (induction s vs arbitrary: thesis rule: pop_expired.induct)
  case (1 s vs)
  show ?case
  proof (cases "vs \<noteq> [] \<and> \<not> is_locked_out_at_slot (lv_lockout (last vs)) s")
    case True
    obtain k where k: "pop_expired s (butlast vs) = take k (butlast vs)" "k \<le> length (butlast vs)"
      "\<forall>v \<in> set (drop k (butlast vs)). last_locked_out_slot (lv_lockout v) < s"
      "k = 0 \<or> is_locked_out_at_slot (lv_lockout (butlast vs ! (k - 1))) s"
      using "1.IH" [OF True] by blast
    have "pop_expired s vs = take k vs"
      using True k(1,2) by (simp add: pop_expired.simps [of s vs] butlast_conv_take)
    moreover have "drop k vs = drop k (butlast vs) @ [last vs]"
      using True k(2) by (metis append_butlast_last_id drop_append diff_is_0_eq drop0)
    then have "\<forall>v \<in> set (drop k vs). last_locked_out_slot (lv_lockout v) < s"
      using k(3) True by (auto simp: is_locked_out_at_slot_def)
    moreover have "k = 0 \<or> is_locked_out_at_slot (lv_lockout (vs ! (k - 1))) s"
      using k(2,4) nth_butlast [of "k - 1" vs] by (cases k) auto
    moreover have "k \<le> length vs" using k(2) by simp
    ultimately show ?thesis by (intro "1.prems" [of k])
  next
    case False
    then have "pop_expired s vs = take (length vs) vs"
      by (subst pop_expired.simps) auto
    moreover have "length vs = 0 \<or> is_locked_out_at_slot (lv_lockout (vs ! (length vs - 1))) s"
      using False last_conv_nth [of vs] by (cases "vs = []") auto
    ultimately show ?thesis by (intro "1.prems" [of "length vs"]) auto
  qed
qed

section \<open>Doubling lockouts\<close>

lemma length_double_from [simp]: "length (double_from d i vs) = length vs"
  by (induction vs arbitrary: i) auto

lemma nth_double_from:
  "j < length vs \<Longrightarrow> double_from d i vs ! j =
     (if i + j + lv_confirmation_count (vs ! j) < d
      then (vs ! j)\<lparr>lv_lockout := increase_confirmation_count (lv_lockout (vs ! j)) 1\<rparr>
      else vs ! j)"
  by (induction vs arbitrary: i j) (auto simp: nth_Cons split: nat.splits)

lemma double_from_slot: "j < length vs \<Longrightarrow> lv_slot (double_from d i vs ! j) = lv_slot (vs ! j)"
  by (simp add: nth_double_from)

lemma map_slot_double_from [simp]: "map lv_slot (double_from d i vs) = map lv_slot vs"
  by (rule nth_equalityI) (auto simp: double_from_slot)

lemma double_from_latency:
  "j < length vs \<Longrightarrow> latency (double_from d i vs ! j) = latency (vs ! j)"
  by (simp add: nth_double_from)

text \<open>On a deep stack with one fresh vote on top, doubling raises each count to the depth of the
  vote and no further.\<close>

lemma double_from_count:
  assumes "j < length vs" and "length vs \<le> Suc (j + lv_confirmation_count (vs ! j))"
    and "lv_confirmation_count (vs ! j) \<le> MAX_LOCKOUT_HISTORY"
  shows "lv_confirmation_count (double_from (length vs) 0 vs ! j) =
    max (lv_confirmation_count (vs ! j)) (length vs - j)"
  using assms by (auto simp: nth_double_from vote_consts arith_defs)


section \<open>Processing a vote keeps the tower\<close>

text \<open>The index-wise facts of a stack with a fresh vote on top, before and after doubling.\<close>

lemma can_push_slot:
  assumes "can_push vs v" and "i < j" and "j < Suc (length vs)"
  shows "lv_slot ((vs @ [v]) ! i) < lv_slot ((vs @ [v]) ! j)"
  using assms tower_wf_nth(1) [of vs i j]
  by (cases "j < length vs") (auto simp: can_push_def nth_append less_Suc_eq)

lemma can_push_locked:
  assumes "can_push vs v" and "Suc i < Suc (length vs)"
  shows "is_locked_out_at_slot (lv_lockout ((vs @ [v]) ! i)) (lv_slot ((vs @ [v]) ! Suc i))"
proof (cases "Suc i < length vs")
  case True
  then show ?thesis using assms by (simp add: can_push_def tower_wf_def nth_append)
next
  case False
  then have "i = length vs - 1" "vs \<noteq> []" using assms(2) by auto
  with assms(1) show ?thesis by (simp add: can_push_def nth_append last_conv_nth)
qed

lemma can_push_bound:
  assumes "can_push vs v" and "j < Suc (length vs)"
  shows "lv_confirmation_count ((vs @ [v]) ! j) \<le> MAX_LOCKOUT_HISTORY"
  using assms tower_wf_count(2) [of vs j]
  by (cases "j < length vs") (auto simp: can_push_def nth_append less_Suc_eq vote_consts)

lemma push_count:
  assumes "can_push vs v" and "j < Suc (length vs)"
  shows "lv_confirmation_count (double_from (Suc (length vs)) 0 (vs @ [v]) ! j) =
    max (lv_confirmation_count ((vs @ [v]) ! j)) (Suc (length vs) - j)"
proof -
  have "Suc (length vs) \<le> Suc (j + lv_confirmation_count ((vs @ [v]) ! j))"
    using assms by (cases "j < length vs") (auto simp: can_push_def tower_deep_def nth_append less_Suc_eq)
  with double_from_count [of j "vs @ [v]"] can_push_bound [OF assms] assms(2) show ?thesis by simp
qed

lemma push_count_decreasing:
  assumes p: "can_push vs v" and "i < j" and "j < Suc (length vs)"
  shows "lv_confirmation_count (double_from (Suc (length vs)) 0 (vs @ [v]) ! j) <
    lv_confirmation_count (double_from (Suc (length vs)) 0 (vs @ [v]) ! i)"
proof -
  have "lv_confirmation_count ((vs @ [v]) ! j) < max (lv_confirmation_count ((vs @ [v]) ! i)) (Suc (length vs) - i)"
  proof (cases "j < length vs")
    case True
    with assms tower_wf_nth(2) [of vs i j] show ?thesis by (simp add: can_push_def nth_append)
  next
    case False
    with assms show ?thesis by (auto simp: can_push_def nth_append)
  qed
  with assms push_count [OF p, of i] push_count [OF p, of j] show ?thesis by auto
qed

lemma push_locked:
  assumes p: "can_push vs v" and i: "Suc i < Suc (length vs)"
  shows "is_locked_out_at_slot (lv_lockout (double_from (Suc (length vs)) 0 (vs @ [v]) ! i))
    (lv_slot (double_from (Suc (length vs)) 0 (vs @ [v]) ! Suc i))"
proof -
  have "max (lv_confirmation_count ((vs @ [v]) ! i)) (Suc (length vs) - i) < 64"
    using can_push_bound [OF p, of i] i p by (auto simp: can_push_def vote_consts)
  then have "last_locked_out_slot (lv_lockout ((vs @ [v]) ! i)) \<le>
      last_locked_out_slot (lv_lockout (double_from (Suc (length vs)) 0 (vs @ [v]) ! i))"
    using i push_count [OF p, of i] by (intro last_locked_out_slot_mono) (auto simp: double_from_slot)
  with can_push_locked [OF p i] i show ?thesis
    by (simp add: is_locked_out_at_slot_def double_from_slot)
qed

lemma push_double_wf:
  assumes p: "can_push vs v"
  shows "tower_wf (double_from (Suc (length vs)) 0 (vs @ [v]))"
    and "tower_deep (double_from (Suc (length vs)) 0 (vs @ [v]))"
proof -
  define ws where "ws = double_from (Suc (length vs)) 0 (vs @ [v])"
  have n: "length ws = Suc (length vs)" by (simp add: ws_def)
  have "1 \<le> lv_confirmation_count (ws ! j) \<and> lv_confirmation_count (ws ! j) \<le> MAX_LOCKOUT_HISTORY"
    if "j < length ws" for j
    using that push_count [OF p, of j] can_push_bound [OF p, of j] p
    by (auto simp: ws_def can_push_def)
  moreover have "lv_slot (ws ! i) < lv_slot (ws ! j)" if "i < j" "j < length ws" for i j
    using that can_push_slot [OF p, of i j] by (simp add: ws_def double_from_slot)
  moreover have "lv_confirmation_count (ws ! j) < lv_confirmation_count (ws ! i)" if "i < j" "j < length ws" for i j
    using that push_count_decreasing [OF p] by (simp add: ws_def)
  moreover have "is_locked_out_at_slot (lv_lockout (ws ! i)) (lv_slot (ws ! Suc i))" if "Suc i < length ws" for i
    using that push_locked [OF p] by (simp add: ws_def)
  moreover have "length ws \<le> MAX_LOCKOUT_HISTORY" using n p by (simp add: can_push_def)
  ultimately have "tower_wf ws"
    unfolding tower_wf_def sorted_wrt_iff_nth_less by (auto simp: in_set_conv_nth)
  then show "tower_wf (double_from (Suc (length vs)) 0 (vs @ [v]))" by (simp add: ws_def)
  show "tower_deep (double_from (Suc (length vs)) 0 (vs @ [v]))"
    unfolding tower_deep_def using push_count [OF p] by auto
qed

lemma increment_credits_frame [simp]:
  "votes (increment_credits vs e c) = votes vs"
  "root_slot (increment_credits vs e c) = root_slot vs"
  "authorized_voters (increment_credits vs e c) = authorized_voters vs"
  "last_timestamp (increment_credits vs e c) = last_timestamp vs"
  by (simp_all add: increment_credits_def Let_def split: prod.splits)

text \<open>
  The two ways a newer vote changes the stack: some expired votes are popped and the rest keep
  their place, or the stack is full, nothing has expired, and the oldest vote becomes the root.
\<close>

lemma process_next_vote_slot_cases:
  assumes "\<not> (case last_voted_slot vs of None \<Rightarrow> False | Some l \<Rightarrow> s \<le> l)"
    and "length (votes vs) \<le> MAX_LOCKOUT_HISTORY"
  obtains (pop) k landed where
      "k \<le> length (votes vs)" "k < MAX_LOCKOUT_HISTORY"
      "votes (process_next_vote_slot vs s e cs t) =
         double_from (Suc k) 0 (take k (votes vs) @ [landed])"
      "root_slot (process_next_vote_slot vs s e cs t) = root_slot vs"
      "\<forall>v \<in> set (drop k (votes vs)). last_locked_out_slot (lv_lockout v) < s"
      "k = 0 \<or> is_locked_out_at_slot (lv_lockout (votes vs ! (k - 1))) s"
      "lv_lockout landed = lockout_new s"
      "latency landed = (if t then compute_vote_latency s cs else 0)"
    | (root) v0 rest landed where
      "votes vs = v0 # rest" "length (votes vs) = MAX_LOCKOUT_HISTORY"
      "votes (process_next_vote_slot vs s e cs t) =
         double_from MAX_LOCKOUT_HISTORY 0 (rest @ [landed])"
      "root_slot (process_next_vote_slot vs s e cs t) = Some (lv_slot v0)"
      "is_locked_out_at_slot (lv_lockout (last (votes vs))) s"
      "lv_lockout landed = lockout_new s"
      "latency landed = (if t then compute_vote_latency s cs else 0)"
proof -
  let ?landed = "\<lparr>latency = (if t then compute_vote_latency s cs else 0), lv_lockout = lockout_new s\<rparr>"
  obtain k where k: "pop_expired s (votes vs) = take k (votes vs)" "k \<le> length (votes vs)"
    "\<forall>v \<in> set (drop k (votes vs)). last_locked_out_slot (lv_lockout v) < s"
    "k = 0 \<or> is_locked_out_at_slot (lv_lockout (votes vs ! (k - 1))) s"
    by (rule pop_expired_take)
  show thesis
  proof (cases "k = MAX_LOCKOUT_HISTORY")
    case False
    have "votes (process_next_vote_slot vs s e cs t) = double_from (Suc k) 0 (take k (votes vs) @ [?landed])"
      "root_slot (process_next_vote_slot vs s e cs t) = root_slot vs"
      using assms(1) False k(1,2)
      by (simp_all add: process_next_vote_slot_def Let_def pop_expired_votes_def double_lockouts_def
          min_absorb2)
    with False k assms(2) show thesis
      by (intro pop [of k ?landed]) auto
  next
    case True
    with k(2) assms(2) have len: "length (votes vs) = MAX_LOCKOUT_HISTORY" by simp
    then obtain v0 rest where v: "votes vs = v0 # rest"
      by (cases "votes vs") (auto simp: vote_consts)
    have *: "votes (process_next_vote_slot vs s e cs t) = double_from MAX_LOCKOUT_HISTORY 0 (rest @ [?landed])"
      "root_slot (process_next_vote_slot vs s e cs t) = Some (lv_slot v0)"
      using assms(1) True k(1) len v
      by (auto simp: process_next_vote_slot_def Let_def pop_expired_votes_def double_lockouts_def)
    moreover have "is_locked_out_at_slot (lv_lockout (last (votes vs))) s"
      using k(4) True len v by (auto simp: last_conv_nth vote_consts)
    ultimately show thesis
      using v len by (intro root [of v0 rest ?landed]) auto
  qed
qed

lemma tower_inv_default: "tower_inv vote_state_default"
  by (simp add: tower_inv_def tower_wf_def tower_deep_def root_below_def vote_state_default_def)

lemma newer_than_all:
  assumes "tower_wf (votes vs)" and "\<not> (case last_voted_slot vs of None \<Rightarrow> False | Some l \<Rightarrow> s \<le> l)"
    and "v \<in> set (votes vs)"
  shows "lv_slot v < s"
proof -
  from assms(3) have ne: "votes vs \<noteq> []" by auto
  with assms(2) have "lv_slot (last (votes vs)) < s"
    by (simp add: last_voted_slot_def last_lockout_def list_last_def)
  moreover have "v = last (votes vs) \<or> lv_slot v < lv_slot (last (votes vs))"
    using assms(1,3) unfolding tower_wf_def by (intro sorted_wrt_last) auto
  ultimately show ?thesis by auto
qed

lemma set_slots_double_from: "lv_slot ` set (double_from d i vs) = lv_slot ` set vs"
  using arg_cong [OF map_slot_double_from [of d i vs], of set] by (simp del: map_slot_double_from)

lemma root_below_slots:
  assumes "lv_slot ` set vs = lv_slot ` set ws"
  shows "root_below r vs \<longleftrightarrow> root_below r ws"
proof -
  have eq: "root_below r us \<longleftrightarrow>
    (case r of None \<Rightarrow> True | Some r' \<Rightarrow> lv_slot ` set us \<noteq> {} \<and> (\<forall>x \<in> lv_slot ` set us. r' < x))" for us
    by (auto simp: root_below_def split: option.splits)
  show ?thesis unfolding eq assms ..
qed

lemma push_keeps_tower_inv:
  assumes p: "can_push us v" and rb: "root_below r (us @ [v])"
    and vs': "votes vs' = double_from (Suc (length us)) 0 (us @ [v])" "root_slot vs' = r"
  shows "tower_inv vs'"
  using push_double_wf [OF p] rb
    root_below_slots [OF set_slots_double_from, of r "Suc (length us)" 0 "us @ [v]"]
  by (simp add: tower_inv_def vs')

lemma process_next_vote_slot_keeps_inv:
  assumes inv: "tower_inv vs"
  shows "tower_inv (process_next_vote_slot vs s e cs t)"
proof (cases "case last_voted_slot vs of None \<Rightarrow> False | Some l \<Rightarrow> s \<le> l")
  case True
  with inv show ?thesis by (simp add: process_next_vote_slot_def)
next
  case newer: False
  from inv have wf: "tower_wf (votes vs)" and deep: "tower_deep (votes vs)"
    and rb: "root_below (root_slot vs) (votes vs)"
    by (auto simp: tower_inv_def)
  note above = newer_than_all [OF wf newer]
  have len: "length (votes vs) \<le> MAX_LOCKOUT_HISTORY" using wf by (simp add: tower_wf_def)
  from newer len show ?thesis
  proof (cases rule: process_next_vote_slot_cases [where e = e and cs = cs and t = t])
    case (pop k landed)
    let ?us = "take k (votes vs)"
    have land: "lv_slot landed = s" "lv_confirmation_count landed = 1"
      using pop(7) by (simp_all add: lockout_new_def new_with_confirmation_count_def)
    have "can_push ?us landed"
      using tower_wf_take [OF wf] tower_deep_take [OF deep] land above pop(1,2,6)
      by (auto simp: can_push_def last_conv_nth dest: in_set_takeD)
    moreover have "root_below (root_slot vs) (?us @ [landed])"
      using above land by (intro root_below_push [OF rb]) (auto dest: in_set_takeD)
    ultimately show ?thesis
      by (rule push_keeps_tower_inv) (use pop(1,3,4) in \<open>simp_all add: min_absorb2\<close>)
  next
    case (root v0 rest landed)
    have land: "lv_slot landed = s" "lv_confirmation_count landed = 1"
      using root(6) by (simp_all add: lockout_new_def new_with_confirmation_count_def)
    have "can_push rest landed"
      using tower_wf_tl [OF wf] tower_deep_tl [OF deep] land above root(1,2,5)
      by (auto simp: can_push_def)
    moreover have "root_below (Some (lv_slot v0)) (rest @ [landed])"
      using above [of v0] root(1) land wf by (auto simp: root_below_def tower_wf_def)
    ultimately show ?thesis
      by (rule push_keeps_tower_inv) (use root(1-4) in simp_all)
  qed
qed

text \<open>
  C2: processing a vote keeps the tower invariant: at most 31 votes, slots strictly increasing,
  confirmation counts between 1 and 31 and strictly decreasing, no vote expired by its successor,
  each vote confirmed at least as often as it is deep, and the root below every vote.
\<close>

theorem process_next_vote_slot_inv:
  assumes "tower_inv vs"
  shows "tower_inv (process_next_vote_slot vs s e cs t)"
  using assms by (rule process_next_vote_slot_keeps_inv)

theorem process_next_vote_slot_inv_witness:
  "tower_inv (process_next_vote_slot vote_state_default 7 0 8 True) \<and>
   tower (process_next_vote_slot vote_state_default 7 0 8 True) = [7]"
proof
  show "tower_inv (process_next_vote_slot vote_state_default 7 0 8 True)"
    by (rule process_next_vote_slot_inv) (rule tower_inv_default)
qed code_simp

lemma slots_unique:
  assumes "tower_wf vs" and "v \<in> set vs" and "u \<in> set vs" and "lv_slot u = lv_slot v"
  shows "u = v"
proof -
  have "inj_on lv_slot (set vs)"
    using assms(1) by (auto simp: tower_wf_def inj_on_def in_set_conv_nth sorted_wrt_iff_nth_less) (metis linorder_neqE_nat order_less_irrefl)
  then show ?thesis using assms(2-4) by (simp add: inj_on_def)
qed

lemma doubled_vote:
  assumes wf: "tower_wf vs" and v: "v \<in> set vs" and us: "set us \<subseteq> set vs" and w: "lv_slot w \<noteq> lv_slot v"
    and v': "v' \<in> set (double_from d 0 (us @ [w]))" "lv_slot v' = lv_slot v"
  shows "latency v' = latency v \<and> lv_confirmation_count v \<le> lv_confirmation_count v' \<and> lv_confirmation_count v' \<le> lv_confirmation_count v + 1"
proof -
  obtain j where j: "j < length (us @ [w])" "v' = double_from d 0 (us @ [w]) ! j"
    using v'(1) unfolding in_set_conv_nth length_double_from by blast
  have slot: "lv_slot ((us @ [w]) ! j) = lv_slot v" using v'(2) double_from_slot [OF j(1)] j(2) by simp
  have "(us @ [w]) ! j \<in> set us" using nth_mem [OF j(1)] slot w by auto
  then have "(us @ [w]) ! j = v" using slots_unique [OF wf v _ slot] us by blast
  moreover have "lv_confirmation_count v \<le> MAX_LOCKOUT_HISTORY" using wf v by (auto simp: tower_wf_def)
  ultimately show ?thesis using j by (auto simp: nth_double_from vote_consts arith_defs)
qed

text \<open>
  C14: a vote leaves the stack only by becoming the root or after its lockout has passed; while it
  stays, whether its lockout has passed or not, it keeps its latency, never loses a confirmation and gains
  at most one.
\<close>

theorem process_next_vote_slot_lockout:
  assumes wf: "tower_wf (votes vs)" and v: "v \<in> set (votes vs)"
    and vs'_def: "vs' = process_next_vote_slot vs s e cs t"
  shows "(\<forall>v' \<in> set (votes vs'). lv_slot v' = lv_slot v \<longrightarrow> latency v' = latency v \<and>
             lv_confirmation_count v \<le> lv_confirmation_count v' \<and>
             lv_confirmation_count v' \<le> lv_confirmation_count v + 1) \<and>
         (lv_slot v \<in> lv_slot ` set (votes vs') \<or> root_slot vs' = Some (lv_slot v) \<or>
          last_locked_out_slot (lv_lockout v) < s)"
proof (cases "case last_voted_slot vs of None \<Rightarrow> False | Some l \<Rightarrow> s \<le> l")
  case True
  then have same: "vs' = vs" by (simp add: vs'_def process_next_vote_slot_def)
  have "v' = v" if "v' \<in> set (votes vs')" "lv_slot v' = lv_slot v" for v'
    using slots_unique [OF wf v] that same by simp
  then have "\<forall>v' \<in> set (votes vs'). lv_slot v' = lv_slot v \<longrightarrow> v' = v" by blast
  then have "\<forall>v' \<in> set (votes vs'). lv_slot v' = lv_slot v \<longrightarrow> latency v' = latency v \<and>
             lv_confirmation_count v \<le> lv_confirmation_count v' \<and> lv_confirmation_count v' \<le> lv_confirmation_count v + 1"
    by (metis le_add1 order_refl)
  then show ?thesis using v same by blast
next
  case newer: False
  have len: "length (votes vs) \<le> MAX_LOCKOUT_HISTORY" using wf by (simp add: tower_wf_def)
  have above: "lv_slot v < s" using newer_than_all [OF wf newer v] .
  from newer len show ?thesis
  proof (cases rule: process_next_vote_slot_cases [where e = e and cs = cs and t = t])
    case (pop k landed)
    have "lv_slot landed \<noteq> lv_slot v" using above pop(7) by (simp add: lockout_new_def new_with_confirmation_count_def)
    from doubled_vote [OF wf v set_take_subset this]
    have "\<forall>v' \<in> set (votes vs'). lv_slot v' = lv_slot v \<longrightarrow> latency v' = latency v \<and>
             lv_confirmation_count v \<le> lv_confirmation_count v' \<and> lv_confirmation_count v' \<le> lv_confirmation_count v + 1"
      using pop(3) by (simp add: vs'_def)
    moreover from v have "v \<in> set (take k (votes vs)) \<or> v \<in> set (drop k (votes vs))"
      by (metis Un_iff append_take_drop_id set_append)
    ultimately show ?thesis using pop(3,5) by (auto simp: vs'_def set_slots_double_from)
  next
    case (root v0 rest landed)
    have "lv_slot landed \<noteq> lv_slot v" using above root(6) by (simp add: lockout_new_def new_with_confirmation_count_def)
    moreover have "set rest \<subseteq> set (votes vs)" using root(1) by auto
    ultimately have "\<forall>v' \<in> set (votes vs'). lv_slot v' = lv_slot v \<longrightarrow> latency v' = latency v \<and>
             lv_confirmation_count v \<le> lv_confirmation_count v' \<and> lv_confirmation_count v' \<le> lv_confirmation_count v + 1"
      using doubled_vote [OF wf v] root(3) by (simp add: vs'_def)
    moreover have "v = v0 \<or> v \<in> set rest" using v root(1) by simp
    ultimately show ?thesis using root(3,4) by (auto simp: vs'_def set_slots_double_from)
  qed
qed

theorem process_next_vote_slot_lockout_witness:
  "let vs = process_next_vote_slot vote_state_default 1 0 2 True; v = hd (votes vs);
       vs' = process_next_vote_slot vs 9 0 10 True
   in (\<forall>v' \<in> set (votes vs'). lv_slot v' = lv_slot v \<longrightarrow> latency v' = latency v \<and>
          lv_confirmation_count v \<le> lv_confirmation_count v' \<and>
          lv_confirmation_count v' \<le> lv_confirmation_count v + 1) \<and>
      (lv_slot v \<in> lv_slot ` set (votes vs') \<or> root_slot vs' = Some (lv_slot v) \<or> last_locked_out_slot (lv_lockout v) < 9)"
proof -
  let ?vs = "process_next_vote_slot vote_state_default 1 0 2 True"
  have "votes ?vs = [\<lparr>latency = 1, lv_lockout = \<lparr>lockout_slot = 1, confirmation_count = 1\<rparr>\<rparr>]"
    by code_simp
  then have "tower_wf (votes ?vs)" and "hd (votes ?vs) \<in> set (votes ?vs)"
    by (simp_all add: tower_wf_def vote_consts)
  then show ?thesis
    unfolding Let_def by (rule process_next_vote_slot_lockout) (rule refl)
qed

section \<open>Consecutive votes\<close>

lemma ts_new_from_slots_nth:
  assumes "j < length ss"
  shows "ts_lockouts (ts_new_from_slots ss h r) ! j = new_with_confirmation_count (ss ! j) (length ss - j)"
  using assms
  by (simp add: ts_new_from_slots_def rev_nth nth_enumerate_eq Suc_diff_Suc)


lemma ts_new_from_slot_consecutive:
  assumes "n < u64_max"
  shows "ts_lockouts (ts_new_from_slot n h) = consecutive n"
    and "ts_root (ts_new_from_slot n h) = consecutive_root n"
proof -
  from assms have sat: "sat_add_u64 n 1 = Suc n" by (simp add: arith_defs)
  show "ts_lockouts (ts_new_from_slot n h) = consecutive n"
  proof (rule nth_equalityI)
    show "length (ts_lockouts (ts_new_from_slot n h)) = length (consecutive n)"
      by (simp add: ts_new_from_slot_def sat [unfolded One_nat_def] consecutive_def ts_new_from_slots_def
          Let_def del: upt_Suc)
    fix i assume "i < length (ts_lockouts (ts_new_from_slot n h))"
    then have "i < length [Suc n - MAX_LOCKOUT_HISTORY ..< Suc n]"
      by (simp add: ts_new_from_slot_def sat [unfolded One_nat_def] ts_new_from_slots_def Let_def del: upt_Suc)
    then show "ts_lockouts (ts_new_from_slot n h) ! i = consecutive n ! i"
      unfolding ts_new_from_slot_def sat Let_def
      by (subst ts_new_from_slots_nth) (auto simp: consecutive_def simp del: upt_Suc)
  qed
  show "ts_root (ts_new_from_slot n h) = consecutive_root n"
    by (auto simp: ts_new_from_slot_def sat [unfolded One_nat_def] consecutive_root_def Let_def ts_new_from_slots_def vote_consts)
qed

lemma double_from_lockouts:
  assumes "j < length vs"
  shows "lv_lockout (double_from d i vs ! j) =
    (if i + j + confirmation_count (map lv_lockout vs ! j) < d
     then increase_confirmation_count (map lv_lockout vs ! j) 1 else map lv_lockout vs ! j)"
  using assms by (simp add: nth_double_from)

lemma length_consecutive: "length (consecutive n) = min (Suc n) MAX_LOCKOUT_HISTORY"
  by (simp add: consecutive_def del: upt_Suc)

lemma nth_consecutive:
  assumes "j < length (consecutive n)"
  shows "consecutive n ! j =
    new_with_confirmation_count (Suc n - MAX_LOCKOUT_HISTORY + j) (length (consecutive n) - j)"
  using assms by (auto simp: consecutive_def nth_append simp del: upt_Suc)

lemma nwcc_simps [simp]:
  "lockout_slot (new_with_confirmation_count s c) = s"
  "confirmation_count (new_with_confirmation_count s c) = c"
  by (simp_all add: new_with_confirmation_count_def)

lemma increase_nwcc:
  "c < u32_max \<Longrightarrow>
     increase_confirmation_count (new_with_confirmation_count s c) 1 = new_with_confirmation_count s (Suc c)"
  by (simp add: increase_confirmation_count_def new_with_confirmation_count_def arith_defs)

text \<open>Pushing onto consecutive lockouts, of which possibly the first has been dropped.\<close>

lemma push_consecutive:
  assumes us: "map lv_lockout us = drop (length (consecutive n) - m) (consecutive n)"
    and m: "m \<le> length (consecutive n)" "Suc m = length (consecutive (Suc n))"
    and w: "lv_lockout w = lockout_new (Suc n)"
  shows "map lv_lockout (double_from (Suc m) 0 (us @ [w])) = consecutive (Suc n)"
proof (rule nth_equalityI)
  have len: "length us = m" using arg_cong [OF us, of length] m by simp
  then show "length (map lv_lockout (double_from (Suc m) 0 (us @ [w]))) = length (consecutive (Suc n))"
    using m by simp
  fix j assume "j < length (map lv_lockout (double_from (Suc m) 0 (us @ [w])))"
  then have j: "j < Suc m" by (simp add: len)
  let ?l = "length (consecutive n)"
  have rhs: "consecutive (Suc n) ! j =
    new_with_confirmation_count (Suc (Suc n) - MAX_LOCKOUT_HISTORY + j) (Suc m - j)"
    using j m(2) by (subst nth_consecutive) auto
  show "map lv_lockout (double_from (Suc m) 0 (us @ [w])) ! j = consecutive (Suc n) ! j"
  proof (cases "j < m")
    case True
    then have "map lv_lockout us ! j = consecutive n ! (?l - m + j)"
      using us m by simp
    also have "\<dots> = new_with_confirmation_count (Suc n - MAX_LOCKOUT_HISTORY + (?l - m + j)) (m - j)"
      using True m by (subst nth_consecutive) auto
    also have "Suc n - MAX_LOCKOUT_HISTORY + (?l - m + j) = Suc (Suc n) - MAX_LOCKOUT_HISTORY + j"
      using m by (auto simp: length_consecutive min_def vote_consts split: if_splits)
    finally have "lv_lockout (us ! j) =
        new_with_confirmation_count (Suc (Suc n) - MAX_LOCKOUT_HISTORY + j) (m - j)"
      using True len by simp
    moreover have "m - j < u32_max"
      using m by (auto simp: length_consecutive vote_consts)
    ultimately show ?thesis
      using True len rhs by (simp add: double_from_lockouts nth_append Suc_diff_le increase_nwcc [unfolded One_nat_def])
  next
    case False
    with j have "j = m" by simp
    moreover have "Suc (Suc n) - MAX_LOCKOUT_HISTORY + m = Suc n"
      using m by (auto simp: length_consecutive min_def vote_consts split: if_splits)
    ultimately show ?thesis
      using len rhs w by (simp add: double_from_lockouts nth_append lockout_new_def)
  qed
qed

lemma consecutive_step:
  assumes v: "map lv_lockout (votes vs) = consecutive n" and r: "root_slot vs = consecutive_root n"
    and n: "Suc n \<le> u64_max" and vs': "vs' = process_next_vote_slot vs (Suc n) e cs t"
  shows "map lv_lockout (votes vs') = consecutive (Suc n) \<and> root_slot vs' = consecutive_root (Suc n)"
proof -
  have len: "length (votes vs) = min (Suc n) MAX_LOCKOUT_HISTORY"
    using arg_cong [OF v, of length] by (simp add: length_consecutive)
  then have ne: "votes vs \<noteq> []" by (auto simp: vote_consts)
  have lst: "lv_lockout (last (votes vs)) = new_with_confirmation_count n 1"
  proof -
    have "lv_lockout (last (votes vs)) = last (map lv_lockout (votes vs))"
      using ne by (simp add: last_map)
    also have "\<dots> = new_with_confirmation_count n 1"
      unfolding v consecutive_def by (simp add: vote_consts)
    finally show ?thesis .
  qed
  then have newer: "\<not> (case last_voted_slot vs of None \<Rightarrow> False | Some l \<Rightarrow> Suc n \<le> l)"
    using ne by (simp add: last_voted_slot_def last_lockout_def list_last_def)
  have locked: "\<not> last_locked_out_slot (lv_lockout (last (votes vs))) < Suc n"
    using n by (simp add: lst last_locked_out_slot_def lockout_period_def vote_consts arith_defs)
  have "length (votes vs) \<le> MAX_LOCKOUT_HISTORY" using len by simp
  with newer show ?thesis
  proof (cases rule: process_next_vote_slot_cases [where e = e and cs = cs and t = t])
    case (pop k landed)
    have "k = length (votes vs)"
    proof (rule ccontr)
      assume "k \<noteq> length (votes vs)"
      with pop(1) have "last (votes vs) \<in> set (drop k (votes vs))"
        by (metis drop_eq_Nil2 last_drop last_in_set le_neq_implies_less linorder_not_le)
      with pop(5) locked show False by blast
    qed
    with pop(2) len have k: "k = Suc n" "take k (votes vs) = votes vs" by auto
    have "map lv_lockout (votes vs') = consecutive (Suc n)"
      unfolding vs' pop(3) k(2)
      by (rule push_consecutive) (use k pop(2,7) v in \<open>auto simp: length_consecutive\<close>)
    moreover have "root_slot vs' = consecutive_root (Suc n)"
      using pop(2,4) k r by (simp add: vs' consecutive_root_def)
    ultimately show ?thesis by blast
  next
    case (root v0 rest landed)
    have full: "MAX_LOCKOUT_HISTORY \<le> Suc n" using root(2) len by simp
    have v0: "lv_slot v0 = Suc n - MAX_LOCKOUT_HISTORY"
    proof -
      have "lv_lockout v0 = consecutive n ! 0" using arg_cong [OF v, of "\<lambda>xs. xs ! 0"] root(1) by simp
      then show ?thesis by (simp add: nth_consecutive length_consecutive vote_consts)
    qed
    have m: "MAX_LOCKOUT_HISTORY = Suc (length rest)" using root(1,2) by simp
    have "map lv_lockout (votes vs') = consecutive (Suc n)"
      unfolding vs' root(3) m
    proof (rule push_consecutive)
      have "length (consecutive n) - length rest = 1" using m full by (simp add: length_consecutive)
      then show "map lv_lockout rest = drop (length (consecutive n) - length rest) (consecutive n)"
        using v root(1) by (metis One_nat_def drop0 drop_Suc_Cons list.simps(9))
    qed (use m full root(6) in \<open>auto simp: length_consecutive\<close>)
    moreover have "root_slot vs' = consecutive_root (Suc n)"
      using full root(4) v0 by (simp add: vs' consecutive_root_def)
    ultimately show ?thesis by blast
  qed
qed

lemma vote_all_consecutive:
  assumes "n \<le> u64_max"
  shows "map lv_lockout (votes (vote_all vote_state_default [0 ..< Suc n] e cs t)) = consecutive n \<and>
    root_slot (vote_all vote_state_default [0 ..< Suc n] e cs t) = consecutive_root n"
  using assms
proof (induction n)
  case 0
  show ?case
    by (simp add: vote_all_def process_next_vote_slot_def vote_state_default_def last_voted_slot_def
        last_lockout_def list_last_def pop_expired_votes_def pop_expired.simps Let_def
        double_lockouts_def consecutive_def consecutive_root_def vote_consts lockout_new_def)
next
  case (Suc n)
  have eq: "vote_all vote_state_default [0 ..< Suc (Suc n)] e cs t =
      process_next_vote_slot (vote_all vote_state_default [0 ..< Suc n] e cs t) (Suc n) e cs t"
    by (simp add: vote_all_def)
  show ?case
    unfolding eq
    by (rule consecutive_step [OF conjunct1 conjunct2]) (use Suc in auto)
qed

text \<open>
  C33: voting on the slots \<open>0 \<dots> n\<close> one after another leaves exactly the lockouts and the root that
  \<open>TowerSync::new_from_slot\<close> constructs for \<open>n\<close>.
\<close>

theorem tower_sync_new_from_slot_is_consecutive_vote:
  assumes "n < u64_max"
  shows "map lv_lockout (votes (vote_all vote_state_default [0 ..< Suc n] e cs t)) =
      ts_lockouts (ts_new_from_slot n h) \<and>
    root_slot (vote_all vote_state_default [0 ..< Suc n] e cs t) = ts_root (ts_new_from_slot n h)"
  using ts_new_from_slot_consecutive [OF assms] vote_all_consecutive [of n] assms by simp

theorem tower_sync_new_from_slot_is_consecutive_vote_witness:
  "map lv_lockout (votes (vote_all vote_state_default [0 ..< Suc 40] 0 41 True)) =
      ts_lockouts (ts_new_from_slot 40 0) \<and>
   root_slot (vote_all vote_state_default [0 ..< Suc 40] 0 41 True) = Some 9"
  using tower_sync_new_from_slot_is_consecutive_vote [of 40 0 41 True 0]
  by (simp add: ts_new_from_slot_consecutive(2) consecutive_root_def vote_consts)

end
