(* ===== verification/Vote_Accounting.thy ===== *)
theory Vote_Accounting
  imports Vote_Tower
begin

text \<open>
  The bookkeeping of a vote account beside its tower: the queue of authorized voters as the vote
  state uses it, the ledger of credits per epoch, the split of rewards by commission, and the
  search for a slot in the tower.
\<close>

section \<open>Definitions\<close>

text \<open>
  What can happen to the queue up to an epoch: lookups and further changes of the voter in epochs that are
  not later, and everything that leaves the queue alone.
\<close>

inductive voter_history :: "epoch \<Rightarrow> vote_state \<Rightarrow> vote_state \<Rightarrow> bool" for target where
  history_same: "authorized_voters vs' = authorized_voters vs \<Longrightarrow> voter_history target vs vs'"
| history_lookup: "voter_history target vs vs1 \<Longrightarrow> e \<le> target \<Longrightarrow> get_and_update_authorized_voter vs1 e = Ok (k, vs2) \<Longrightarrow>
    authorized_voters vs' = authorized_voters vs2 \<Longrightarrow> voter_history target vs vs'"
| history_set: "voter_history target vs vs1 \<Longrightarrow> e \<le> target \<Longrightarrow> set_new_authorized_voter vs1 pk e t verify = Ok vs2 \<Longrightarrow>
    authorized_voters vs' = authorized_voters vs2 \<Longrightarrow> voter_history target vs vs'"

section \<open>The ledger of credits\<close>

text \<open>Entries are \<open>(epoch, credits, previous credits)\<close>.\<close>

definition credits_wf :: "(epoch \<times> nat \<times> nat) list \<Rightarrow> bool" where
  "credits_wf ec \<longleftrightarrow>
     length ec \<le> MAX_EPOCH_CREDITS_HISTORY \<and>
     sorted_wrt (\<lambda>a b. fst a < fst b) ec \<and>
     (\<forall>(e, c, p) \<in> set ec. p \<le> c \<and> c \<le> u64_max) \<and>
     (\<forall>i. Suc i < length ec \<longrightarrow> snd (snd (ec ! Suc i)) = fst (snd (ec ! i)))"

section \<open>Who may vote\<close>

lemmas voter_eval = set_new_authorized_voter_def get_and_update_authorized_voter_def
  get_and_cache_authorized_voter_for_epoch_def get_or_calculate_authorized_voter_for_epoch_def
  purge_authorized_voters_def av_contains_def av_last_def av_insert_def bt_get_def bt_below_def bt_last_def
  circ_buf_append_def circ_buf_last_def vote_state_default_def circ_buf_default_def
  ok_or_def unwrap_def ensure_def assert_that_def arith_defs vote_consts

lemma gau_Ok:
  assumes inv: "av_invar (authorized_voters vs)"
    and ok: "get_and_update_authorized_voter vs e = Ok (k, vs')"
  shows "get_authorized_voter vs e = Some k" and "av_invar (authorized_voters vs')"
    and "bt_get (authorized_voters vs') e = Some k"
    and "e \<le> j \<Longrightarrow> get_authorized_voter vs' j = get_authorized_voter vs j"
    and "vs' = vs\<lparr>authorized_voters := authorized_voters vs'\<rparr>"
    and "j < e \<Longrightarrow> bt_get (authorized_voters vs') j = None"
    and "e < j \<Longrightarrow> bt_get (authorized_voters vs') j = bt_get (authorized_voters vs) j"
proof -
  obtain k0 av where gc: "get_and_cache_authorized_voter_for_epoch (authorized_voters vs) e = (k0, av)"
    by fastforce
  from ok gc obtain av' where k0: "k0 = Some k" and p: "(purge_authorized_voters av e :: (instruction_error, _) result) = Ok av'"
    and vs': "vs' = vs\<lparr>authorized_voters := av'\<rparr>"
    by (auto simp: get_and_update_authorized_voter_def result_simps)
  note c = get_and_cache_Some [OF inv gc [unfolded k0]]
  from c(3) have "bt_get av e \<noteq> None" by simp
  then obtain av'' where q: "(purge_authorized_voters av e :: (instruction_error, _) result) = Ok av''" "av_invar av''"
    "\<And>j. bt_get av'' j = (if j < e then None else bt_get av j)"
    "\<And>j. e \<le> j \<Longrightarrow> av_get_authorized_voter av'' j = av_get_authorized_voter av j"
    by (rule purge_present [OF c(2)]) (rule that)
  from p q(1) have "av'' = av'" by simp
  note q = q [unfolded this]
  show "get_authorized_voter vs e = Some k" using c(1) by (simp add: get_authorized_voter_def)
  show "av_invar (authorized_voters vs')" using q(2) by (simp add: vs')
  show "bt_get (authorized_voters vs') e = Some k" using q(3) c(3) by (simp add: vs')
  show "e \<le> j \<Longrightarrow> get_authorized_voter vs' j = get_authorized_voter vs j"
    using q(4) c(4) by (simp add: get_authorized_voter_def vs')
  show "vs' = vs\<lparr>authorized_voters := authorized_voters vs'\<rparr>" by (simp add: vs')
  show "j < e \<Longrightarrow> bt_get (authorized_voters vs') j = None" using q(3) by (simp add: vs')
  show "e < j \<Longrightarrow> bt_get (authorized_voters vs') j = bt_get (authorized_voters vs) j"
    using q(3) gc inv
    by (auto simp: vs' get_and_cache_authorized_voter_for_epoch_def bt.get_insert split: option.splits if_splits)
qed

lemma gau_not_Panic:
  assumes inv: "av_invar (authorized_voters vs)"
  shows "get_and_update_authorized_voter vs e \<noteq> Panic"
proof -
  obtain k0 av where gc: "get_and_cache_authorized_voter_for_epoch (authorized_voters vs) e = (k0, av)"
    by fastforce
  show ?thesis
  proof (cases k0)
    case None
    with gc show ?thesis by (simp add: get_and_update_authorized_voter_def ok_or_def)
  next
    case (Some k)
    note c = get_and_cache_Some [OF inv gc [unfolded Some]]
    from c(3) have "bt_get av e \<noteq> None" by simp
    then obtain av' where "(purge_authorized_voters av e :: (instruction_error, _) result) = Ok av'"
      by (rule purge_present [OF c(2)]) (rule that)
    then show ?thesis by (simp add: get_and_update_authorized_voter_def gc Some ok_or_def)
  qed
qed

lemma gau_Err:
  assumes "get_and_update_authorized_voter vs e = Err err"
  shows "err = InvalidAccountData \<and> get_authorized_voter vs e = None"
  using assms get_and_cache_None [of "authorized_voters vs" e]
  by (auto simp: get_and_update_authorized_voter_def result_simps purge_authorized_voters_def
      get_authorized_voter_def Let_def split: prod.splits)

lemma get_voter_None:
  assumes "av_invar (authorized_voters vs)" and "\<And>i. i \<le> j \<Longrightarrow> bt_get (authorized_voters vs) i = None"
  shows "get_authorized_voter vs j = None"
proof (rule ccontr)
  assume "get_authorized_voter vs j \<noteq> None"
  then obtain w where "is_floor (bt_get (authorized_voters vs)) j w"
    using av_get_iff_floor [OF assms(1)] by (auto simp: get_authorized_voter_def)
  then show False using assms(2) unfolding is_floor_def by fastforce
qed

text \<open>
  C34: looking up the voter of an epoch never panics (the assertion in
  \<open>purge_authorized_voters\<close> holds), answers what the queue says, keeps the voters of this and all
  later epochs, forgets the earlier ones, and fails only where the epoch has no voter.
\<close>

theorem get_and_update_authorized_voter_total:
  assumes inv: "av_invar (authorized_voters vs)"
  shows "case get_and_update_authorized_voter vs e of
      Ok (k, vs') \<Rightarrow> get_authorized_voter vs e = Some k \<and> av_invar (authorized_voters vs') \<and>
        (\<forall>j \<ge> e. get_authorized_voter vs' j = get_authorized_voter vs j) \<and>
        (\<forall>j < e. get_authorized_voter vs' j = None)
    | Err err \<Rightarrow> err = InvalidAccountData \<and> get_authorized_voter vs e = None
    | Panic \<Rightarrow> False"
proof (cases "get_and_update_authorized_voter vs e")
  case (Ok r)
  then obtain k vs' where r: "r = (k, vs')" by fastforce
  note gau = gau_Ok [OF inv Ok [unfolded r]]
  have "get_authorized_voter vs' j = None" if "j < e" for j
    by (rule get_voter_None [OF gau(2)]) (use gau(6) that in simp)
  with gau Ok r show ?thesis by simp
next
  case (Err err)
  then show ?thesis using gau_Err by simp
next
  case Panic
  with gau_not_Panic [OF inv] show ?thesis by blast
qed

theorem get_and_update_authorized_voter_total_witness:
  "case get_and_update_authorized_voter (vote_state_default\<lparr>authorized_voters := [(2, 7), (5, 8)]\<rparr>) 4 of
      Ok (k, vs') \<Rightarrow> get_authorized_voter (vote_state_default\<lparr>authorized_voters := [(2, 7), (5, 8)]\<rparr>) 4 = Some k \<and>
        av_invar (authorized_voters vs') \<and>
        (\<forall>j \<ge> 4. get_authorized_voter vs' j =
           get_authorized_voter (vote_state_default\<lparr>authorized_voters := [(2, 7), (5, 8)]\<rparr>) j) \<and>
        (\<forall>j < 4. get_authorized_voter vs' j = None)
    | Err err \<Rightarrow> err = InvalidAccountData \<and>
        get_authorized_voter (vote_state_default\<lparr>authorized_voters := [(2, 7), (5, 8)]\<rparr>) 4 = None
    | Panic \<Rightarrow> False"
  by (rule get_and_update_authorized_voter_total) (simp add: bt_invar_def)


lemma snav_Ok:
  assumes inv: "av_invar (authorized_voters vs)" and ok: "set_new_authorized_voter vs pk cur target verify = Ok vs'"
  obtains k vs1 where "get_and_update_authorized_voter vs cur = Ok (k, vs1)" "verify k = Ok ()"
    "cur \<noteq> target" "bt_get (authorized_voters vs1) target = None"
    "bt_get (authorized_voters vs') = (bt_get (authorized_voters vs1))(target \<mapsto> pk)" "av_invar (authorized_voters vs')"
proof -
  from ok obtain k vs1 where g: "get_and_update_authorized_voter vs cur = Ok (k, vs1)"
    and v: "verify k = Ok ()" and nc: "\<not> av_contains (authorized_voters vs1) target"
    by (auto simp: set_new_authorized_voter_def result_simps split: if_splits)
  have free: "bt_get (authorized_voters vs1) target = None" using nc by (simp add: av_contains_def)
  have ins: "authorized_voters vs' = av_insert (authorized_voters vs1) target pk"
    using ok g v nc by (auto simp: set_new_authorized_voter_def result_simps Let_def split: if_splits)
  note inv1 = gau_Ok(2) [OF inv g]
  show thesis
  proof (rule that [OF g v _ free])
    show "cur \<noteq> target" using free gau_Ok(3) [OF inv g] by auto
    show "bt_get (authorized_voters vs') = (bt_get (authorized_voters vs1))(target \<mapsto> pk)" "av_invar (authorized_voters vs')"
      using inv1 by (simp_all add: ins av_insert_def bt.get_insert bt.invar_insert)
  qed
qed

lemma get_voter_at:
  "av_invar (authorized_voters vs) \<Longrightarrow> bt_get (authorized_voters vs) e = Some k \<Longrightarrow> get_authorized_voter vs e = Some k"
  using is_floor_at [of "bt_get (authorized_voters vs)" e k] by (simp add: get_authorized_voter_def av_get_iff_floor)

text \<open>
  C35: for a target epoch that is not before the current one, a new authorized voter is accepted only if the
  target is a later epoch and the voter of the current epoch passes the signer check; it then is the voter
  of the target epoch, the voters of the epochs from the current one up to the target are untouched, and
  the voters of the epochs before the current one are forgotten.
\<close>

theorem set_new_authorized_voter_effect:
  assumes inv: "av_invar (authorized_voters vs)" and le: "cur \<le> target"
    and ok: "set_new_authorized_voter vs pk cur target verify = Ok vs'"
  shows "cur < target \<and> (\<exists>k. get_authorized_voter vs cur = Some k \<and> verify k = Ok ()) \<and>
    get_authorized_voter vs' target = Some pk \<and>
    (\<forall>e. cur \<le> e \<and> e < target \<longrightarrow> get_authorized_voter vs' e = get_authorized_voter vs e) \<and>
    (\<forall>e < cur. get_authorized_voter vs' e = None) \<and> av_invar (authorized_voters vs')"
proof -
  obtain k vs1 where s: "get_and_update_authorized_voter vs cur = Ok (k, vs1)" "verify k = Ok ()" "cur \<noteq> target"
    and get': "bt_get (authorized_voters vs') = (bt_get (authorized_voters vs1))(target \<mapsto> pk)" and inv': "av_invar (authorized_voters vs')"
    using inv ok by (rule snav_Ok)
  note g = gau_Ok [OF inv s(1)]
  have "get_authorized_voter vs' target = Some pk" by (rule get_voter_at [OF inv']) (simp add: get')
  moreover have "get_authorized_voter vs' e = get_authorized_voter vs e" if "cur \<le> e" "e < target" for e
  proof -
    have "get_authorized_voter vs' e = get_authorized_voter vs1 e"
      unfolding get_authorized_voter_def
    proof (rule av_get_cong [OF inv' g(2)])
      show "is_floor (bt_get (authorized_voters vs')) e w \<longleftrightarrow> is_floor (bt_get (authorized_voters vs1)) e w" for w
        unfolding get' using that by (intro is_floor_upd_other) simp
    qed
    with g(4) that show ?thesis by simp
  qed
  moreover have "get_authorized_voter vs' e = None" if "e < cur" for e
    by (rule get_voter_None [OF inv']) (use g(6) that le in \<open>simp add: get'\<close>)
  ultimately show ?thesis using g(1) s(2,3) inv' le by simp
qed

theorem set_new_authorized_voter_effect_witness:
  "\<exists>vs'. set_new_authorized_voter (vote_state_default\<lparr>authorized_voters := [(2, 7)]\<rparr>) 9 3 5 (\<lambda>k. ensure (k = 7) InvalidArgument) = Ok vs' \<and>
     get_authorized_voter vs' 5 = Some 9 \<and> get_authorized_voter vs' 4 = Some 7"
proof -
  let ?vs = "vote_state_default\<lparr>authorized_voters := [(2, 7)]\<rparr>"
  obtain vs' where ok: "set_new_authorized_voter ?vs 9 3 5 (\<lambda>k. ensure (k = 7) InvalidArgument) = Ok vs'"
    and v: "authorized_voters vs' = [(3, 7), (5, 9)]"
  proof
    show "set_new_authorized_voter ?vs 9 3 5 (\<lambda>k. ensure (k = 7) InvalidArgument) =
      Ok (?vs\<lparr>authorized_voters := [(3, 7), (5, 9)],
              prior_voters := \<lparr>buf = (replicate 32 (0, 0, 0))[0 := (7, 0, 5)], idx = 0, cb_is_empty = False\<rparr>\<rparr>)"
      by (simp add: voter_eval)
  qed simp
  have "get_authorized_voter ?vs 4 = Some 7" by code_simp
  moreover have "av_invar (authorized_voters ?vs)" by (simp add: bt_invar_def)
  ultimately show ?thesis
    using ok set_new_authorized_voter_effect [of ?vs 3 5 9 _ vs', OF _ _ ok] by auto
qed


lemma lookup_keeps_target:
  assumes "av_invar (authorized_voters vs)" and "bt_get (authorized_voters vs) target = Some pk" and "e \<le> target"
    and "get_and_update_authorized_voter vs e = Ok (k, vs')"
  shows "bt_get (authorized_voters vs') target = Some pk"
proof (cases "e = target")
  case True
  then show ?thesis using gau_Ok(1,3) [OF assms(1,4)] get_voter_at [OF assms(1,2)] by simp
next
  case False
  then show ?thesis using gau_Ok(7) [OF assms(1,4), of target] assms(2,3) by simp
qed

lemma history_keeps_target:
  assumes "voter_history target vs vs'" and "av_invar (authorized_voters vs)" and "bt_get (authorized_voters vs) target = Some pk"
  shows "av_invar (authorized_voters vs') \<and> bt_get (authorized_voters vs') target = Some pk"
  using assms
proof (induction rule: voter_history.induct)
  case (history_lookup vs vs1 e k vs2 vs')
  then show ?case using gau_Ok(2) [of vs1 e k vs2] lookup_keeps_target [of vs1 target pk e k vs2] by simp
next
  case (history_set vs vs1 e pk' t verify vs2 vs')
  then have 1: "av_invar (authorized_voters vs1)" "bt_get (authorized_voters vs1) target = Some pk" by simp_all
  obtain k vs3 where s: "get_and_update_authorized_voter vs1 e = Ok (k, vs3)" "bt_get (authorized_voters vs3) t = None"
      "bt_get (authorized_voters vs2) = (bt_get (authorized_voters vs3))(t \<mapsto> pk')" "av_invar (authorized_voters vs2)"
    by (rule snav_Ok [OF 1(1) history_set(3)])
  have "bt_get (authorized_voters vs3) target = Some pk" by (rule lookup_keeps_target [OF 1 history_set(2) s(1)])
  then show ?case using s history_set(4) by auto
qed simp

text \<open>
  C36: the voter of a future epoch is set once. After a change of voter for a target epoch has been accepted
  (asked for in an epoch not after it), and whatever lookups and changes for other targets follow in epochs
  up to the target, it stays the voter of the target epoch, and every further attempt to set the voter of
  that epoch fails: with \<open>TooSoonToReauthorize\<close> if the voter of the epoch of the attempt passes the signer
  check, with the error of the check otherwise, and with \<open>InvalidAccountData\<close> if that epoch has no voter.
\<close>

theorem set_new_authorized_voter_final:
  assumes inv: "av_invar (authorized_voters vs)" and "cur \<le> target"
    and ok: "set_new_authorized_voter vs pk cur target verify = Ok vs1"
    and later: "voter_history target vs1 vs'" and cur': "cur' \<le> target"
  shows "get_authorized_voter vs' target = Some pk \<and>
    set_new_authorized_voter vs' pk' cur' target verify' =
      (case get_authorized_voter vs' cur' of
         None \<Rightarrow> Err InvalidAccountData
       | Some k \<Rightarrow> rbind (verify' k) (\<lambda>_. Err (vote_err TooSoonToReauthorize)))"
proof -
  have s: "av_invar (authorized_voters vs1) \<and> bt_get (authorized_voters vs1) target = Some pk" by (rule snav_Ok [OF inv ok]) simp
  have inv': "av_invar (authorized_voters vs')" and t: "bt_get (authorized_voters vs') target = Some pk"
    using history_keeps_target [OF later] s by simp_all
  have "set_new_authorized_voter vs' pk' cur' target verify' =
      (case get_authorized_voter vs' cur' of
         None \<Rightarrow> Err InvalidAccountData
       | Some k \<Rightarrow> rbind (verify' k) (\<lambda>_. Err (vote_err TooSoonToReauthorize)))"
  proof (cases "get_and_update_authorized_voter vs' cur'")
    case (Ok r)
    then obtain k vs2 where g: "get_and_update_authorized_voter vs' cur' = Ok (k, vs2)" by (cases r) simp
    have "av_contains (authorized_voters vs2) target" using lookup_keeps_target [OF inv' t cur' g] by (simp add: av_contains_def)
    then show ?thesis using g gau_Ok(1) [OF inv' g] by (simp add: set_new_authorized_voter_def)
  next
    case (Err err)
    then show ?thesis using gau_Err [OF Err] by (simp add: set_new_authorized_voter_def)
  qed (use gau_not_Panic [OF inv'] in blast)
  then show ?thesis using get_voter_at [OF inv' t] by blast
qed

theorem set_new_authorized_voter_final_witness:
  "\<exists>vs'. set_new_authorized_voter (vote_state_default\<lparr>authorized_voters := [(2, 7)]\<rparr>) 9 3 5 (\<lambda>_. Ok ()) = Ok vs' \<and>
     set_new_authorized_voter vs' 11 4 5 (\<lambda>_. Ok ()) = Err (vote_err TooSoonToReauthorize)"
proof -
  let ?vs = "vote_state_default\<lparr>authorized_voters := [(2, 7)]\<rparr>"
  let ?vs' = "?vs\<lparr>authorized_voters := [(3, 7), (5, 9)],
              prior_voters := \<lparr>buf = (replicate 32 (0, 0, 0))[0 := (7, 0, 5)], idx = 0, cb_is_empty = False\<rparr>\<rparr>"
  have ok: "set_new_authorized_voter ?vs 9 3 5 (\<lambda>_. Ok ()) = Ok ?vs'"
    by (simp add: voter_eval)
  have v: "get_authorized_voter ?vs' 4 = Some 7" by code_simp
  have "av_invar (authorized_voters ?vs)" by (simp add: bt_invar_def)
  from set_new_authorized_voter_final [OF this _ ok history_same [OF refl], of 4 11 "\<lambda>_. Ok ()"] v ok show ?thesis by auto
qed

section \<open>Credits and commission\<close>

lemma credits_wf_Nil [simp]: "credits_wf []"
  by (simp add: credits_wf_def)

lemma credits_wf_tl: "credits_wf ec \<Longrightarrow> credits_wf (tl ec)"
  by (cases ec) (auto simp: credits_wf_def)

lemma links_snoc:
  "(\<forall>i. Suc i < length (xs @ [y]) \<longrightarrow> R ((xs @ [y]) ! i) ((xs @ [y]) ! Suc i)) \<longleftrightarrow>
   (\<forall>i. Suc i < length xs \<longrightarrow> R (xs ! i) (xs ! Suc i)) \<and> (xs \<noteq> [] \<longrightarrow> R (last xs) y)"
proof (cases xs rule: rev_cases)
  case (snoc ys z)
  then show ?thesis
    by (auto simp: nth_append less_Suc_eq)
qed simp

lemma credits_wf_snoc:
  "credits_wf (xs @ [(e, c, p)]) \<longleftrightarrow>
     credits_wf xs \<and> length xs < MAX_EPOCH_CREDITS_HISTORY \<and> (\<forall>x \<in> set xs. fst x < e) \<and>
     p \<le> c \<and> c \<le> u64_max \<and> (xs \<noteq> [] \<longrightarrow> p = fst (snd (last xs)))"
  unfolding credits_wf_def sorted_wrt_snoc links_snoc [where R = "\<lambda>a b. snd (snd b) = fst (snd a)"]
  by auto

lemma credits_telescope:
  assumes "credits_wf ec" and "ec \<noteq> []"
  shows "snd (snd (hd ec)) + (\<Sum>(e, c, p) \<leftarrow> ec. c - p) = fst (snd (last ec))"
  using assms
proof (induction ec rule: rev_induct)
  case (snoc x xs)
  obtain e c p where x: "x = (e, c, p)" by (cases x)
  show ?case
    using snoc by (cases "xs = []") (auto simp: x credits_wf_snoc credits_wf_snoc [of "[]", simplified])
qed simp

lemma open_credits_epoch_wf:
  assumes wf: "credits_wf ec" and e: "ec \<noteq> [] \<Longrightarrow> fst (last ec) \<le> e"
  shows "credits_wf (open_credits_epoch ec e) \<and> open_credits_epoch ec e \<noteq> [] \<and>
    fst (last (open_credits_epoch ec e)) = e \<and>
    fst (snd (last (open_credits_epoch ec e))) = (if ec = [] then 0 else fst (snd (last ec)))"
proof (cases ec rule: rev_cases)
  case Nil
  then show ?thesis by (simp add: open_credits_epoch_def credits_wf_def vote_consts)
next
  case (snoc xs x)
  obtain e' c p where x: "x = (e', c, p)" by (cases x)
  have wf': "credits_wf (xs @ [(e', c, p)])" using wf by (simp add: snoc x)
  have le: "e' \<le> e" using e by (simp add: snoc x)
  show ?thesis
  proof (cases "e = e' \<or> c = p")
    case True
    with wf' le show ?thesis
      by (auto simp: open_credits_epoch_def snoc x Let_def credits_wf_snoc)
  next
    case False
    then have new: "open_credits_epoch ec e =
      (let ec' = ec @ [(e, c, c)] in if MAX_EPOCH_CREDITS_HISTORY < length ec' then tl ec' else ec')"
      by (simp add: open_credits_epoch_def snoc x)
    have push: "credits_wf (us @ [(e, c, c)])" if "us = ec \<or> us = tl ec" "length us < MAX_EPOCH_CREDITS_HISTORY" for us
    proof -
      have "credits_wf us" using that(1) wf credits_wf_tl by blast
      moreover have "set us \<subseteq> set ec" using that(1) by (cases ec) auto
      then have "\<forall>y \<in> set us. fst y < e"
        using wf' le False by (fastforce simp: snoc x credits_wf_snoc)
      moreover have "us \<noteq> [] \<longrightarrow> last us = x"
        using that(1) by (auto simp: snoc last_tl tl_append split: list.splits)
      ultimately show ?thesis
        using that(2) wf' by (auto simp: credits_wf_snoc x)
    qed
    have "length ec \<le> MAX_EPOCH_CREDITS_HISTORY" using wf by (simp add: credits_wf_def)
    then show ?thesis
      using new push [of ec] push [of "tl ec"]
      by (auto simp: Let_def snoc x tl_append split: list.splits)
  qed
qed

text \<open>
  C37: crediting votes in an epoch that is not before the last recorded one keeps the ledger of epoch credits:
  at most 64 epochs, strictly increasing, each entry starting where the one before it ended. The total grows
  by the credits earned (saturating at the width of \<open>u64\<close>), the last entry is the epoch of the credits, and
  the total is what had been earned before the first recorded epoch plus the credits of the recorded epochs.
\<close>

theorem increment_credits_ledger:
  assumes wf: "credits_wf (epoch_credits vs)" and e: "current_epoch vs \<le> e"
    and vs': "vs' = increment_credits vs e c"
  shows "credits_wf (epoch_credits vs') \<and> current_epoch vs' = e \<and>
    credits vs' = sat_add_u64 (credits vs) c \<and>
    snd (snd (hd (epoch_credits vs'))) + (\<Sum>(e, c, p) \<leftarrow> epoch_credits vs'. c - p) = credits vs'"
proof -
  let ?o = "open_credits_epoch (epoch_credits vs) e"
  have "fst (last (epoch_credits vs)) \<le> e" if "epoch_credits vs \<noteq> []"
    using e that by (simp add: current_epoch_def)
  then have o: "credits_wf ?o" "?o \<noteq> []" "fst (last ?o) = e" "fst (snd (last ?o)) = credits vs"
    using open_credits_epoch_wf [OF wf, of e] by (simp_all add: credits_def)
  obtain xs p where xs: "?o = xs @ [(e, credits vs, p)]"
    using o(2-4) by (metis append_butlast_last_id prod.collapse)
  have ec: "epoch_credits vs' = xs @ [(e, sat_add_u64 (credits vs) c, p)]"
    by (simp add: vs' increment_credits_def xs)
  have "credits_wf (epoch_credits vs')"
    using o(1) by (auto simp: ec xs credits_wf_snoc intro: order_trans [OF _ sat_add_u64_ge])
  moreover have "current_epoch vs' = e" "credits vs' = sat_add_u64 (credits vs) c"
    by (simp_all add: current_epoch_def credits_def ec)
  ultimately show ?thesis
    using credits_telescope [of "epoch_credits vs'"] by (simp add: credits_def ec)
qed

theorem increment_credits_ledger_witness:
  "credits_wf [(3, 10, 4), (5, 12, 10)] \<and>
   credits (increment_credits (vote_state_default\<lparr>epoch_credits := [(3, 10, 4), (5, 12, 10)]\<rparr>) 6 16) = 28"
proof
  show wf: "credits_wf [(3, 10, 4), (5, 12, 10)]"
    by (simp add: credits_wf_def vote_consts)
  show "credits (increment_credits (vote_state_default\<lparr>epoch_credits := [(3, 10, 4), (5, 12, 10)]\<rparr>) 6 16) = 28"
    using increment_credits_ledger
      [of "vote_state_default\<lparr>epoch_credits := [(3, 10, 4), (5, 12, 10)]\<rparr>" 6 _ 16, OF _ _ refl] wf
    by (simp add: current_epoch_def credits_def arith_defs)
qed


lemma commission_split_share:
  assumes "on \<le> u64_max" and "k \<le> 100"
  shows "on * k div 100 mod 2 ^ 64 = on * k div 100"
proof -
  have "on * k div 100 \<le> on * 100 div 100" using assms(2) by (intro div_le_mono mult_le_mono2)
  with assms(1) have "on * k div 100 < 2 ^ 64" by simp
  then show ?thesis by simp
qed

lemma share_sum: "a + b = on * 100 \<Longrightarrow> a div 100 + b div 100 \<le> on \<and> on \<le> a div 100 + b div 100 + (1::nat)"
  by linarith

text \<open>
  The commission and the stakers' share are the two percentages of the reward rounded down; they
  never add up to more than the reward and together lose at most one lamport; the reward counts as split
  exactly when the commission is strictly between 0 and 100 percent.
\<close>

lemma commission_split_shares:
  assumes on: "on \<le> u64_max"
  shows "case commission_split vs on of (mine, theirs, was_split) \<Rightarrow>
    mine = on * min (commission vs) 100 div 100 \<and>
    theirs = on * (100 - min (commission vs) 100) div 100 \<and>
    mine + theirs \<le> on \<and> on \<le> mine + theirs + 1 \<and>
    (was_split \<longleftrightarrow> 0 < commission vs \<and> commission vs < 100)"
proof -
  let ?k = "min (commission vs) 100"
  have "on * ?k + on * (100 - ?k) = on * 100"
    by (metis add_mult_distrib2 le_add_diff_inverse min.cobounded2)
  from share_sum [OF this]
  show ?thesis
    using commission_split_share [OF on, of ?k] commission_split_share [OF on, of "100 - ?k"]
    by (auto simp: commission_split_def Let_def min_def split: if_splits)
qed

lemma partitioned_by_cmp_slot:
  assumes "sorted_wrt (\<lambda>a b. lv_slot a < lv_slot b) vs"
  shows "partitioned_by (\<lambda>v. cmp (lv_slot v) s) vs"
  using assms by (induction vs) (auto simp: partitioned_by_def cmp_def)

lemma contains_slot_iff:
  assumes "tower_wf (votes vs)"
  shows "contains_slot vs s \<longleftrightarrow> s \<in> set (tower vs)"
proof -
  have "contains_slot vs s \<longleftrightarrow> (\<exists>i. binary_search_by (\<lambda>v. cmp (lv_slot v) s) (votes vs) = Inr i)"
    by (auto simp: contains_slot_def split: sum.splits)
  also have "\<dots> \<longleftrightarrow> (\<exists>v \<in> set (votes vs). cmp (lv_slot v) s = Equal)"
    using assms by (intro slice_bs.found_iff_member partitioned_by_cmp_slot) (simp add: tower_wf_def)
  also have "\<dots> \<longleftrightarrow> s \<in> set (tower vs)"
    by (auto simp: tower_def cmp_def)
  finally show ?thesis .
qed

end
