(* ===== verification/Vote_Check.thy ===== *)
theory Vote_Check
  imports Vote_Accounting
begin

text \<open>
  The checks of \<^verbatim>\<open>programs/vote/src/vote_state/mod.rs\<close> that tie a vote to the fork it is cast on:
  \<open>check_slots_are_valid\<close> for plain votes and \<open>check_and_filter_proposed_vote_state\<close> for proposed
  towers. Both walk the vote's slots upwards and the slot hashes (newest first) downwards at the
  same time; the two loops keep the indices of the source. A slot too old for the history is kept
  if the account has voted on it before, and dropped otherwise.
\<close>

section \<open>Slot hashes\<close>

type_synonym slot_hash = "slot \<times> hash"

section \<open>A vote's slots against the slot hashes\<close>

definition newer_than_last :: "vote_state \<Rightarrow> slot \<Rightarrow> bool" where
  "newer_than_last vs s \<longleftrightarrow> \<not> (case last_voted_slot vs of None \<Rightarrow> False | Some l \<Rightarrow> s \<le> l)"

function check_slots_loop :: "vote_state \<Rightarrow> slot list \<Rightarrow> slot_hash list \<Rightarrow> nat \<Rightarrow> nat \<Rightarrow> nat \<times> nat" where
  "check_slots_loop vs vote_slots slot_hashes i j =
     (if i < length vote_slots \<and> 0 < j then
        if \<not> newer_than_last vs (vote_slots ! i) then check_slots_loop vs vote_slots slot_hashes (i + 1) j
        else if vote_slots ! i \<noteq> fst (slot_hashes ! (j - 1)) then
          check_slots_loop vs vote_slots slot_hashes i (j - 1)
        else check_slots_loop vs vote_slots slot_hashes (i + 1) (j - 1)
      else (i, j))"
  by pat_completeness auto
termination
  by (relation "measure (\<lambda>(vs, vote_slots, slot_hashes, i, j). (length vote_slots - i) + j)") auto

declare check_slots_loop.simps [simp del]

definition check_slots_are_valid ::
  "vote_state \<Rightarrow> slot list \<Rightarrow> hash \<Rightarrow> slot_hash list \<Rightarrow> (vote_error, unit) result" where
  "check_slots_are_valid vs vote_slots vote_hash slot_hashes =
     (case check_slots_loop vs vote_slots slot_hashes 0 (length slot_hashes) of (i, j) \<Rightarrow>
        if j = length slot_hashes then Err VoteTooOld
        else if i \<noteq> length vote_slots then Err SlotsMismatch
        else if snd (slot_hashes ! j) \<noteq> vote_hash then Err SlotHashMismatch
        else Ok ())"

section \<open>A proposed tower against the slot hashes\<close>

function check_filter_loop ::
  "vote_state \<Rightarrow> lockout list \<Rightarrow> slot_hash list \<Rightarrow> slot \<Rightarrow> slot option \<Rightarrow> nat \<Rightarrow> nat \<Rightarrow> nat list \<Rightarrow>
     (vote_error, nat \<times> nat \<times> nat list) result" where
  "check_filter_loop vs pl sh earliest root_to_check i j flt =
     (if i < length pl \<and> 0 < j then
        let proposed_vote_slot = (case root_to_check of Some r \<Rightarrow> r | None \<Rightarrow> lockout_slot (pl ! i));
            ancestor_slot = fst (sh ! (j - 1))
        in if root_to_check = None \<and> 0 < i \<and> proposed_vote_slot \<le> lockout_slot (pl ! (i - 1))
           then Err SlotsNotOrdered
           else (case cmp proposed_vote_slot ancestor_slot of
               Less \<Rightarrow>
                 if j = length sh then
                   if earliest \<le> proposed_vote_slot then Err AssertionFailed
                   else
                     let flt' = (if \<not> contains_slot vs proposed_vote_slot \<and> root_to_check = None
                                 then flt @ [i] else flt)
                     in (case root_to_check of
                           Some r \<Rightarrow>
                             if r \<noteq> proposed_vote_slot then Panic
                             else if earliest \<le> r then Err AssertionFailed
                             else check_filter_loop vs pl sh earliest None i j flt'
                         | None \<Rightarrow> check_filter_loop vs pl sh earliest None (i + 1) j flt')
                 else if root_to_check \<noteq> None then Err RootOnDifferentFork
                 else Err SlotsMismatch
             | Greater \<Rightarrow> check_filter_loop vs pl sh earliest root_to_check i (j - 1) flt
             | Equal \<Rightarrow>
                 if root_to_check \<noteq> None then check_filter_loop vs pl sh earliest None i j flt
                 else check_filter_loop vs pl sh earliest None (i + 1) (j - 1) flt)
      else Ok (i, j, flt))"
  by pat_completeness auto
termination
  by (relation "measure (\<lambda>(vs, pl, sh, earliest, root_to_check, i, j, flt).
        (length pl - i) + j + (if root_to_check = None then 0 else 1))") auto

declare check_filter_loop.simps [simp del]

text \<open>\<open>VecDeque::retain\<close> with the closure of the source: the indices to filter are passed in step.\<close>

fun retain_unfiltered :: "nat list \<Rightarrow> nat \<Rightarrow> 'a list \<Rightarrow> 'a list" where
  "retain_unfiltered flt i [] = []"
| "retain_unfiltered [] i (x # xs) = x # retain_unfiltered [] (i + 1) xs"
| "retain_unfiltered (f # flt) i (x # xs) =
     (if i = f then retain_unfiltered flt (i + 1) xs else x # retain_unfiltered (f # flt) (i + 1) xs)"

text \<open>The proposed root, replaced when it is older than the slot hashes reach.\<close>

definition overwrite_root :: "vote_state \<Rightarrow> slot option \<Rightarrow> slot \<Rightarrow> slot option" where
  "overwrite_root vs proposed_root earliest =
     (case proposed_root of
        None \<Rightarrow> None
      | Some root \<Rightarrow>
          if root < earliest then
            (case find (\<lambda>v. lv_slot v \<le> root) (rev (votes vs)) of
               None \<Rightarrow> root_slot vs
             | Some v \<Rightarrow> Some (lv_slot v))
          else Some root)"

definition check_and_filter_proposed_vote_state ::
  "vote_state \<Rightarrow> lockout list \<Rightarrow> slot option \<Rightarrow> hash \<Rightarrow> slot_hash list \<Rightarrow>
     (vote_error, lockout list \<times> slot option) result" where
  "check_and_filter_proposed_vote_state vs pl proposed_root proposed_hash sh =
     (if pl = [] then Err EmptySlots
      else
        let last_proposed_slot = lockout_slot (last pl) in
        if \<not> newer_than_last vs last_proposed_slot then Err VoteTooOld
        else if sh = [] then Err SlotsMismatch
        else
          let earliest = fst (last sh) in
          if last_proposed_slot < earliest then Err VoteTooOld
          else
            let root = overwrite_root vs proposed_root earliest in
            rbind (check_filter_loop vs pl sh earliest root 0 (length sh) []) (\<lambda>(i, j, flt).
              if i \<noteq> length pl then Err SlotsMismatch
              else if j < length sh \<and> last_proposed_slot = fst (sh ! j) then
                if snd (sh ! j) \<noteq> proposed_hash then Err SlotHashMismatch
                else Ok (retain_unfiltered flt 0 pl, root)
              else Panic))"

section \<open>Invariants of the two walks\<close>

definition known_slot :: "slot_hash list \<Rightarrow> slot \<Rightarrow> bool" where
  "known_slot sh s \<longleftrightarrow> s \<in> fst ` set sh"

definition root_checked :: "slot_hash list \<Rightarrow> slot option \<Rightarrow> bool" where
  "root_checked sh r \<longleftrightarrow> (case r of None \<Rightarrow> True | Some r' \<Rightarrow> r' < fst (last sh) \<or> known_slot sh r')"

definition cf_inv ::
  "vote_state \<Rightarrow> lockout list \<Rightarrow> slot_hash list \<Rightarrow> slot option \<Rightarrow> slot option \<Rightarrow> nat \<Rightarrow> nat \<Rightarrow> nat list \<Rightarrow> bool" where
  "cf_inv vs pl sh root rtc i j flt \<longleftrightarrow>
     i \<le> length pl \<and> j \<le> length sh \<and>
     (case rtc of None \<Rightarrow> root_checked sh root | Some r \<Rightarrow> root = rtc \<and> i = 0) \<and>
     (\<forall>k. Suc k < i \<longrightarrow> lockout_slot (pl ! k) < lockout_slot (pl ! Suc k)) \<and>
     sorted_wrt (<) flt \<and>
     (\<forall>k \<in> set flt. k < i \<and> lockout_slot (pl ! k) < fst (last sh) \<and> \<not> contains_slot vs (lockout_slot (pl ! k))) \<and>
     (\<forall>k < i. k \<notin> set flt \<longrightarrow> known_slot sh (lockout_slot (pl ! k)) \<or> contains_slot vs (lockout_slot (pl ! k))) \<and>
     (i = length pl \<longrightarrow> fst (last sh) \<le> lockout_slot (last pl) \<longrightarrow>
        j < length sh \<and> fst (sh ! j) = lockout_slot (last pl))"

text \<open>A step of the loop ends in an error other than \<open>AssertionFailed\<close>, or goes on with the
  invariant and a smaller measure.\<close>

definition cf_measure :: "lockout list \<Rightarrow> slot option \<Rightarrow> nat \<Rightarrow> nat \<Rightarrow> nat" where
  "cf_measure pl rtc i j = (length pl - i) + j + (if rtc = None then 0 else 1)"

definition cf_goes_on ::
  "vote_state \<Rightarrow> lockout list \<Rightarrow> slot_hash list \<Rightarrow> slot option \<Rightarrow> slot option \<Rightarrow> nat \<Rightarrow> nat \<Rightarrow> nat list \<Rightarrow> bool" where
  "cf_goes_on vs pl sh root rtc i j flt \<longleftrightarrow>
     (\<exists>e. check_filter_loop vs pl sh (fst (last sh)) rtc i j flt = Err e \<and> e \<noteq> AssertionFailed) \<or>
     (\<exists>rtc' i' j' flt'.
        check_filter_loop vs pl sh (fst (last sh)) rtc i j flt =
          check_filter_loop vs pl sh (fst (last sh)) rtc' i' j' flt' \<and>
        cf_inv vs pl sh root rtc' i' j' flt' \<and> cf_measure pl rtc' i' j' < cf_measure pl rtc i j)"

definition cs_inv :: "vote_state \<Rightarrow> slot list \<Rightarrow> slot_hash list \<Rightarrow> nat \<Rightarrow> nat \<Rightarrow> bool" where
  "cs_inv vs ss sh i j \<longleftrightarrow> i \<le> length ss \<and> j \<le> length sh \<and>
     (\<forall>k < i. newer_than_last vs (ss ! k) \<longrightarrow> known_slot sh (ss ! k)) \<and>
     (ss \<noteq> [] \<longrightarrow> i = length ss \<longrightarrow> newer_than_last vs (last ss) \<longrightarrow> j < length sh \<and> fst (sh ! j) = last ss)"

section \<open>Soundness of the checks\<close>

lemma known_slot_nth: "j < length sh \<Longrightarrow> known_slot sh (fst (sh ! j))"
  by (auto simp: known_slot_def)

lemma cf_inv_less_root:
  "cf_inv vs pl sh root (Some r) i j flt \<Longrightarrow> r < fst (last sh) \<Longrightarrow> cf_inv vs pl sh root None i j flt"
  by (auto simp: cf_inv_def root_checked_def)

lemma cf_inv_equal_root:
  "cf_inv vs pl sh root (Some r) i j flt \<Longrightarrow> known_slot sh r \<Longrightarrow> cf_inv vs pl sh root None i j flt"
  by (auto simp: cf_inv_def root_checked_def)

lemma cf_inv_greater:
  "cf_inv vs pl sh root rtc i j flt \<Longrightarrow> i < length pl \<Longrightarrow> cf_inv vs pl sh root rtc i (j - 1) flt"
  by (auto simp: cf_inv_def)

lemma last_conv_nth': "Suc i = length pl \<Longrightarrow> last pl = pl ! i"
  by (metis Suc_pred' last_conv_nth length_greater_0_conv nat.inject zero_less_Suc)

lemma cf_inv_less:
  assumes "cf_inv vs pl sh root None i j flt" and "i < length pl"
    and "0 < i \<Longrightarrow> lockout_slot (pl ! (i - 1)) < lockout_slot (pl ! i)"
    and "lockout_slot (pl ! i) < fst (last sh)"
  shows "cf_inv vs pl sh root None (Suc i) j
    (if \<not> contains_slot vs (lockout_slot (pl ! i)) then flt @ [i] else flt)"
proof -
  have "lockout_slot (pl ! k) < lockout_slot (pl ! Suc k)" if "Suc k < Suc i" for k
    using that assms(1,3) by (cases "Suc k = i") (auto simp: cf_inv_def)
  then show ?thesis
    using assms(1,2,4) by (auto simp: cf_inv_def sorted_wrt_snoc less_Suc_eq last_conv_nth')
qed

lemma cf_inv_equal:
  assumes "cf_inv vs pl sh root None i j flt" and "i < length pl" and "0 < j"
    and "0 < i \<Longrightarrow> lockout_slot (pl ! (i - 1)) < lockout_slot (pl ! i)"
    and "lockout_slot (pl ! i) = fst (sh ! (j - 1))"
  shows "cf_inv vs pl sh root None (Suc i) (j - 1) flt"
proof -
  have "lockout_slot (pl ! k) < lockout_slot (pl ! Suc k)" if "Suc k < Suc i" for k
    using that assms(1,4) by (cases "Suc k = i") (auto simp: cf_inv_def)
  moreover have "j - 1 < length sh" using assms(1,3) by (auto simp: cf_inv_def)
  ultimately show ?thesis
    using assms(1,2,5) known_slot_nth [of "j - 1" sh]
    by (auto simp: cf_inv_def less_Suc_eq last_conv_nth')
qed

lemma cmp_iff:
  "cmp a b = Less \<longleftrightarrow> a < b" "cmp a b = Equal \<longleftrightarrow> a = b" "cmp a b = Greater \<longleftrightarrow> b < a"
  by (auto simp: cmp_def)

text \<open>The loop's step while the root is still to be checked, and after.\<close>

lemma check_filter_loop_root:
  "i < length pl \<Longrightarrow> 0 < j \<Longrightarrow> check_filter_loop vs pl sh earliest (Some r) i j flt =
     (case cmp r (fst (sh ! (j - 1))) of
        Less \<Rightarrow> if j = length sh then
                  if earliest \<le> r then Err AssertionFailed else check_filter_loop vs pl sh earliest None i j flt
                else Err RootOnDifferentFork
      | Greater \<Rightarrow> check_filter_loop vs pl sh earliest (Some r) i (j - 1) flt
      | Equal \<Rightarrow> check_filter_loop vs pl sh earliest None i j flt)"
  by (subst check_filter_loop.simps) (simp split: ordering.split)

lemma check_filter_loop_unordered:
  "i < length pl \<Longrightarrow> 0 < j \<Longrightarrow> 0 < i \<Longrightarrow> lockout_slot (pl ! i) \<le> lockout_slot (pl ! (i - 1)) \<Longrightarrow>
     check_filter_loop vs pl sh earliest None i j flt = Err SlotsNotOrdered"
  by (subst check_filter_loop.simps) simp

lemma check_filter_loop_vote:
  "i < length pl \<Longrightarrow> 0 < j \<Longrightarrow> i = 0 \<or> lockout_slot (pl ! (i - 1)) < lockout_slot (pl ! i) \<Longrightarrow>
   check_filter_loop vs pl sh earliest None i j flt =
     (case cmp (lockout_slot (pl ! i)) (fst (sh ! (j - 1))) of
        Less \<Rightarrow> if j = length sh then
                  if earliest \<le> lockout_slot (pl ! i) then Err AssertionFailed
                  else check_filter_loop vs pl sh earliest None (Suc i) j
                    (if \<not> contains_slot vs (lockout_slot (pl ! i)) then flt @ [i] else flt)
                else Err SlotsMismatch
      | Greater \<Rightarrow> check_filter_loop vs pl sh earliest None i (j - 1) flt
      | Equal \<Rightarrow> check_filter_loop vs pl sh earliest None (Suc i) (j - 1) flt)"
  by (subst check_filter_loop.simps) (auto split: ordering.split)

lemma cf_goes_onI:
  assumes "check_filter_loop vs pl sh (fst (last sh)) rtc i j flt =
      check_filter_loop vs pl sh (fst (last sh)) rtc' i' j' flt'"
    and "cf_inv vs pl sh root rtc' i' j' flt'" and "cf_measure pl rtc' i' j' < cf_measure pl rtc i j"
  shows "cf_goes_on vs pl sh root rtc i j flt"
  using assms unfolding cf_goes_on_def by blast

lemma cf_step_vote:
  assumes inv: "cf_inv vs pl sh root None i j flt" and run: "i < length pl" "0 < j" and ne: "sh \<noteq> []"
  shows "cf_goes_on vs pl sh root None i j flt"
proof (cases "i = 0 \<or> lockout_slot (pl ! (i - 1)) < lockout_slot (pl ! i)")
  case False
  with run show ?thesis by (simp add: check_filter_loop_unordered cf_goes_on_def)
next
  case ordered: True
  let ?s = "lockout_slot (pl ! i)"
  have last: "j = length sh \<Longrightarrow> fst (sh ! (j - 1)) = fst (last sh)"
    using ne by (simp add: last_conv_nth)
  note step = check_filter_loop_vote [OF run ordered, of vs sh "fst (last sh)" flt]
  show ?thesis
  proof (cases "cmp ?s (fst (sh ! (j - 1)))")
    case Less
    then have lt: "?s < fst (sh ! (j - 1))" by (simp add: cmp_iff)
    show ?thesis
    proof (cases "j = length sh")
      case True
      with lt last have old: "?s < fst (last sh)" by simp
      have "check_filter_loop vs pl sh (fst (last sh)) None i j flt =
          check_filter_loop vs pl sh (fst (last sh)) None (Suc i) j
            (if \<not> contains_slot vs ?s then flt @ [i] else flt)"
        unfolding step using True Less old by simp
      then show ?thesis
        by (rule cf_goes_onI [OF _ cf_inv_less [OF inv]]) (use old run ordered in \<open>auto simp: cf_measure_def\<close>)
    qed (use Less in \<open>simp add: step cf_goes_on_def\<close>)
  next
    case Equal
    then have "?s = fst (sh ! (j - 1))" by (simp add: cmp_iff)
    then show ?thesis
      by (intro cf_goes_onI [OF _ cf_inv_equal [OF inv]])
        (use Equal run ordered in \<open>auto simp: step cf_measure_def\<close>)
  next
    case Greater
    then show ?thesis
      by (intro cf_goes_onI [OF _ cf_inv_greater [OF inv run(1)]]) (use run in \<open>auto simp: step cf_measure_def\<close>)
  qed
qed

lemma cf_step_root:
  assumes inv: "cf_inv vs pl sh root (Some r) i j flt" and run: "i < length pl" "0 < j" and ne: "sh \<noteq> []"
  shows "cf_goes_on vs pl sh root (Some r) i j flt"
proof -
  have last: "j = length sh \<Longrightarrow> fst (sh ! (j - 1)) = fst (last sh)"
    using ne by (simp add: last_conv_nth)
  have j: "j - 1 < length sh" using run inv by (auto simp: cf_inv_def)
  note step = check_filter_loop_root [OF run, of vs sh "fst (last sh)" r flt]
  show ?thesis
  proof (cases "cmp r (fst (sh ! (j - 1)))")
    case Less
    then have lt: "r < fst (sh ! (j - 1))" by (simp add: cmp_iff)
    show ?thesis
    proof (cases "j = length sh")
      case True
      with lt last have old: "r < fst (last sh)" by simp
      have "check_filter_loop vs pl sh (fst (last sh)) (Some r) i j flt =
          check_filter_loop vs pl sh (fst (last sh)) None i j flt"
        unfolding step using True Less old by simp
      then show ?thesis
        by (rule cf_goes_onI [OF _ cf_inv_less_root [OF inv old]]) (simp add: cf_measure_def)
    qed (use Less in \<open>simp add: step cf_goes_on_def\<close>)
  next
    case Equal
    then have "known_slot sh r" using known_slot_nth [OF j] by (simp add: cmp_iff)
    then show ?thesis
      by (intro cf_goes_onI [OF _ cf_inv_equal_root [OF inv]]) (use Equal in \<open>auto simp: step cf_measure_def\<close>)
  next
    case Greater
    then show ?thesis
      by (intro cf_goes_onI [OF _ cf_inv_greater [OF inv run(1)]]) (use run in \<open>auto simp: step cf_measure_def\<close>)
  qed
qed

lemma check_filter_loop_inv:
  assumes "cf_inv vs pl sh root rtc i j flt" and ne: "sh \<noteq> []"
  shows "case check_filter_loop vs pl sh (fst (last sh)) rtc i j flt of
      Ok (i', j', flt') \<Rightarrow> (\<exists>rtc'. cf_inv vs pl sh root rtc' i' j' flt') \<and> (i' = length pl \<or> j' = 0)
    | Err e \<Rightarrow> e \<noteq> AssertionFailed
    | Panic \<Rightarrow> False"
  using assms(1)
proof (induction "cf_measure pl rtc i j" arbitrary: rtc i j flt rule: less_induct)
  case less
  show ?case
  proof (cases "i < length pl \<and> 0 < j")
    case False
    then show ?thesis using less.prems by (subst check_filter_loop.simps) (auto simp: cf_inv_def)
  next
    case True
    then have "cf_goes_on vs pl sh root rtc i j flt"
      using less.prems cf_step_vote cf_step_root ne by (cases rtc) blast+
    then show ?thesis
      using less.hyps by (auto simp: cf_goes_on_def)
  qed
qed

text \<open>What is left after filtering: the elements whose index is not listed.\<close>

lemma retain_unfiltered_nths:
  "sorted_wrt (<) flt \<Longrightarrow> (\<forall>k \<in> set flt. i \<le> k) \<Longrightarrow>
     retain_unfiltered flt i xs = nths xs {k. i + k \<notin> set flt}"
proof (induction flt i xs rule: retain_unfiltered.induct)
  case (2 i x xs)
  then show ?case by (simp add: nths_Cons)
next
  case (3 f flt i x xs)
  then have "\<forall>k \<in> set flt. Suc i \<le> k" by auto
  with 3 show ?case by (auto simp: nths_Cons Suc_le_eq)
qed simp

lemma check_and_filter_cases:
  assumes run: "pl \<noteq> []" "newer_than_last vs (lockout_slot (last pl))" "sh \<noteq> []"
    "fst (last sh) \<le> lockout_slot (last pl)"
  obtains (err) e where "check_and_filter_proposed_vote_state vs pl root h sh = Err e" "e \<noteq> AssertionFailed"
  | (ok) j flt where
      "check_and_filter_proposed_vote_state vs pl root h sh =
         Ok (retain_unfiltered flt 0 pl, overwrite_root vs root (fst (last sh)))"
      "cf_inv vs pl sh (overwrite_root vs root (fst (last sh))) None (length pl) j flt"
      "j < length sh" "sh ! j = (lockout_slot (last pl), h)"
proof -
  let ?root = "overwrite_root vs root (fst (last sh))"
  let ?loop = "check_filter_loop vs pl sh (fst (last sh)) ?root 0 (length sh) []"
  have unfold: "check_and_filter_proposed_vote_state vs pl root h sh =
    rbind ?loop (\<lambda>(i, j, flt).
      if i \<noteq> length pl then Err SlotsMismatch
      else if j < length sh \<and> lockout_slot (last pl) = fst (sh ! j) then
        if snd (sh ! j) \<noteq> h then Err SlotHashMismatch else Ok (retain_unfiltered flt 0 pl, ?root)
      else Panic)"
    using run by (simp add: check_and_filter_proposed_vote_state_def Let_def)
  have "cf_inv vs pl sh ?root ?root 0 (length sh) []"
    using run(1) by (auto simp: cf_inv_def root_checked_def split: option.splits)
  from check_filter_loop_inv [OF this run(3)] show thesis
  proof (cases ?loop)
    case (Ok r)
    then obtain i j flt where r: "?loop = Ok (i, j, flt)" by (cases r) auto
    with check_filter_loop_inv [OF \<open>cf_inv vs pl sh ?root ?root 0 (length sh) []\<close> run(3)]
    obtain rtc where inv: "cf_inv vs pl sh ?root rtc i j flt" by auto
    show thesis
    proof (cases "i = length pl")
      case True
      with inv run(1) have "rtc = None" by (auto simp: cf_inv_def split: option.splits)
      note inv = inv [unfolded this True]
      have j: "j < length sh" "fst (sh ! j) = lockout_slot (last pl)"
        using inv run(4) by (auto simp: cf_inv_def)
      show thesis
      proof (cases "snd (sh ! j) = h")
        case True
        with j r \<open>i = length pl\<close> show thesis
          by (intro ok [OF _ inv]) (auto simp: unfold prod_eq_iff)
      qed (use j r \<open>i = length pl\<close> in \<open>auto intro: err simp: unfold\<close>)
    qed (use r in \<open>auto intro: err simp: unfold\<close>)
  qed (auto intro: err simp: unfold)
qed

lemma sorted_wrt_consecutive:
  assumes "\<And>k. Suc k < length xs \<Longrightarrow> f (xs ! k) < (f (xs ! Suc k) :: nat)"
  shows "sorted_wrt (\<lambda>a b. f a < f b) xs"
  using assms by (subst sorted_wrt_iff_nth_Suc_transp) (auto simp: transp_def)

lemma nths_last:
  assumes "xs \<noteq> []" and "length xs - 1 \<in> A"
  shows "nths xs A \<noteq> [] \<and> last (nths xs A) = last xs"
proof -
  from assms(1) obtain ys y where xs: "xs = ys @ [y]" by (cases xs rule: rev_cases) auto
  show ?thesis using assms(2) by (simp add: xs nths_append)
qed

lemma sorted_wrt_nths: "sorted_wrt P xs \<Longrightarrow> sorted_wrt P (nths xs A)"
proof (induction xs arbitrary: A)
  case (Cons x xs)
  then show ?case using set_nths_subset [of xs] by (fastforce simp: nths_Cons)
qed simp

text \<open>Everything the two walks over the proposed tower have established.\<close>

lemma cf_inv_retained:
  assumes inv: "cf_inv vs pl sh root None (length pl) j flt" and ne: "pl \<noteq> []"
    and last: "fst (last sh) \<le> lockout_slot (last pl)"
  shows "sorted_wrt (\<lambda>a b. lockout_slot a < lockout_slot b) pl"
    and "retain_unfiltered flt 0 pl \<noteq> [] \<and> last (retain_unfiltered flt 0 pl) = last pl"
    and "l \<in> set (retain_unfiltered flt 0 pl) \<Longrightarrow>
       l \<in> set pl \<and> (known_slot sh (lockout_slot l) \<or> contains_slot vs (lockout_slot l))"
    and "l \<in> set pl \<Longrightarrow> l \<notin> set (retain_unfiltered flt 0 pl) \<Longrightarrow>
       lockout_slot l < fst (last sh) \<and> \<not> contains_slot vs (lockout_slot l)"
    and "sorted_wrt (\<lambda>a b. lockout_slot a < lockout_slot b) (retain_unfiltered flt 0 pl)"
proof -
  have r: "retain_unfiltered flt 0 pl = nths pl {k. k \<notin> set flt}"
    using retain_unfiltered_nths [of flt 0 pl] inv by (simp add: cf_inv_def)
  show s: "sorted_wrt (\<lambda>a b. lockout_slot a < lockout_slot b) pl"
    using inv by (intro sorted_wrt_consecutive) (simp add: cf_inv_def)
  have "length pl - 1 \<notin> set flt"
    using inv last ne by (auto simp: cf_inv_def last_conv_nth)
  with ne show "retain_unfiltered flt 0 pl \<noteq> [] \<and> last (retain_unfiltered flt 0 pl) = last pl"
    unfolding r by (intro nths_last) auto
  show "l \<in> set pl \<and> (known_slot sh (lockout_slot l) \<or> contains_slot vs (lockout_slot l))"
    if "l \<in> set (retain_unfiltered flt 0 pl)"
    using that inv unfolding r set_nths by (auto simp: cf_inv_def)
  show "lockout_slot l < fst (last sh) \<and> \<not> contains_slot vs (lockout_slot l)"
    if "l \<in> set pl" "l \<notin> set (retain_unfiltered flt 0 pl)"
    using that inv unfolding r set_nths by (auto simp: cf_inv_def in_set_conv_nth)
  show "sorted_wrt (\<lambda>a b. lockout_slot a < lockout_slot b) (retain_unfiltered flt 0 pl)"
    unfolding r using s sorted_wrt_nths by blast
qed

lemma check_and_filter_Ok:
  assumes ok: "check_and_filter_proposed_vote_state vs pl root h sh = Ok (pl', root')"
  shows "(lockout_slot (last pl), h) \<in> set sh" and "newer_than_last vs (lockout_slot (last pl))"
    and "pl' \<noteq> [] \<and> last pl' = last pl"
    and "sorted_wrt (\<lambda>a b. lockout_slot a < lockout_slot b) pl"
    and "sorted_wrt (\<lambda>a b. lockout_slot a < lockout_slot b) pl'"
    and "l \<in> set pl' \<Longrightarrow> l \<in> set pl \<and> (known_slot sh (lockout_slot l) \<or> contains_slot vs (lockout_slot l))"
    and "l \<in> set pl \<Longrightarrow> l \<notin> set pl' \<Longrightarrow>
       lockout_slot l < fst (last sh) \<and> \<not> contains_slot vs (lockout_slot l)"
    and "root_checked sh root'" and "root' = overwrite_root vs root (fst (last sh))"
proof -
  from ok have run: "pl \<noteq> []" "newer_than_last vs (lockout_slot (last pl))" "sh \<noteq> []"
    "fst (last sh) \<le> lockout_slot (last pl)"
    by (auto simp: check_and_filter_proposed_vote_state_def Let_def split: if_splits)
  from check_and_filter_cases [OF run, of root h] obtain j flt where
    j: "pl' = retain_unfiltered flt 0 pl" "root' = overwrite_root vs root (fst (last sh))"
      "cf_inv vs pl sh root' None (length pl) j flt" "j < length sh" "sh ! j = (lockout_slot (last pl), h)"
    by (cases; use ok in auto)
  note kept = cf_inv_retained [OF j(3) run(1,4)]
  show "(lockout_slot (last pl), h) \<in> set sh" using j(4,5) by (metis nth_mem)
  show "newer_than_last vs (lockout_slot (last pl))" by (rule run(2))
  show "pl' \<noteq> [] \<and> last pl' = last pl" using kept(2) by (simp add: j(1))
  show "sorted_wrt (\<lambda>a b. lockout_slot a < lockout_slot b) pl" by (rule kept(1))
  show "sorted_wrt (\<lambda>a b. lockout_slot a < lockout_slot b) pl'" unfolding j(1) by (rule kept(5))
  show "l \<in> set pl' \<Longrightarrow> l \<in> set pl \<and> (known_slot sh (lockout_slot l) \<or> contains_slot vs (lockout_slot l))"
    unfolding j(1) by (rule kept(3))
  show "l \<in> set pl \<Longrightarrow> l \<notin> set pl' \<Longrightarrow>
       lockout_slot l < fst (last sh) \<and> \<not> contains_slot vs (lockout_slot l)"
    unfolding j(1) by (rule kept(4))
  show "root_checked sh root'" using j(3) by (simp add: cf_inv_def)
  show "root' = overwrite_root vs root (fst (last sh))" by (rule j(2))
qed

lemma check_and_filter_no_assertion:
  "check_and_filter_proposed_vote_state vs pl root h sh \<noteq> Panic"
  "check_and_filter_proposed_vote_state vs pl root h sh \<noteq> Err AssertionFailed"
proof -
  have *: "check_and_filter_proposed_vote_state vs pl root h sh \<notin> {Panic, Err AssertionFailed}"
  proof (cases "pl \<noteq> [] \<and> newer_than_last vs (lockout_slot (last pl)) \<and> sh \<noteq> [] \<and>
      fst (last sh) \<le> lockout_slot (last pl)")
    case True
    then have run: "pl \<noteq> []" "newer_than_last vs (lockout_slot (last pl))" "sh \<noteq> []"
      "fst (last sh) \<le> lockout_slot (last pl)" by auto
    show ?thesis by (rule check_and_filter_cases [OF run, of root h]) auto
  next
    case False
    then show ?thesis by (auto simp: check_and_filter_proposed_vote_state_def Let_def)
  qed
  then show "check_and_filter_proposed_vote_state vs pl root h sh \<noteq> Panic"
    "check_and_filter_proposed_vote_state vs pl root h sh \<noteq> Err AssertionFailed" by auto
qed

text \<open>
  C15: checking a proposed tower never panics and never reports a failed assertion. If it is accepted,
  its last slot is in the slot hashes with the proposed hash and survives the filter, its slots are
  strictly increasing, every slot that is kept is in the slot hashes or already in the account's
  tower, every slot that is dropped is older than the history and not in the tower, and the root is
  older than the history or in it.
\<close>

theorem check_and_filter_sound:
  "case check_and_filter_proposed_vote_state vs pl root h sh of
     Ok (pl', root') \<Rightarrow>
       (lockout_slot (last pl), h) \<in> set sh \<and> pl' \<noteq> [] \<and> last pl' = last pl \<and>
       sorted_wrt (\<lambda>a b. lockout_slot a < lockout_slot b) pl \<and> set pl' \<subseteq> set pl \<and>
       (\<forall>l \<in> set pl'. known_slot sh (lockout_slot l) \<or> contains_slot vs (lockout_slot l)) \<and>
       (\<forall>l \<in> set pl - set pl'. lockout_slot l < fst (last sh) \<and> \<not> contains_slot vs (lockout_slot l)) \<and>
       root_checked sh root'
   | Err e \<Rightarrow> e \<noteq> AssertionFailed
   | Panic \<Rightarrow> False"
proof (cases "check_and_filter_proposed_vote_state vs pl root h sh")
  case (Ok r)
  obtain pl' root' where r: "r = (pl', root')" by (cases r)
  note ok = check_and_filter_Ok [OF Ok [unfolded r]]
  from ok(1,3,4,8) ok(6,7) show ?thesis by (auto simp: Ok r)
next
  case (Err e)
  then show ?thesis using check_and_filter_no_assertion(2) [of vs pl root h sh] by auto
qed (use check_and_filter_no_assertion(1) [of vs pl root h sh] in simp)


theorem check_and_filter_sound_witness:
  "\<exists>l. check_and_filter_proposed_vote_state vote_state_default
      [new_with_confirmation_count 3 2, new_with_confirmation_count 5 1] None 9 [(6, 8), (5, 9), (4, 7)] =
        Ok ([l], None) \<and> lockout_slot l = 5 \<and> known_slot [(6, 8), (5, 9), (4, 7)] 5"
proof -
  have eq: "check_and_filter_proposed_vote_state vote_state_default
      [new_with_confirmation_count 3 2, new_with_confirmation_count 5 1] None 9 [(6, 8), (5, 9), (4, 7)] =
        Ok ([new_with_confirmation_count 5 1], None)"
    by code_simp
  from check_and_filter_sound [where vs = vote_state_default and root = None and h = 9
      and pl = "[new_with_confirmation_count 3 2, new_with_confirmation_count 5 1]"
      and sh = "[(6, 8), (5, 9), (4, 7)]"]
  show ?thesis
    unfolding eq by (auto simp: known_slot_def)
qed

section \<open>The slots of a plain vote\<close>

lemma check_slots_loop_inv:
  assumes "cs_inv vs ss sh i j" and "check_slots_loop vs ss sh i j = (i', j')"
  shows "cs_inv vs ss sh i' j'"
  using assms
proof (induction vs ss sh i j rule: check_slots_loop.induct)
  case (1 vs ss sh i j)
  show ?case
  proof (cases "i < length ss \<and> 0 < j")
    case False
    with "1.prems" show ?thesis by (subst (asm) check_slots_loop.simps) auto
  next
    case run: True
    have j: "j - 1 < length sh" using run "1.prems"(1) by (auto simp: cs_inv_def)
    have last: "Suc i = length ss \<Longrightarrow> last ss = ss ! i" using run by (metis last_conv_nth')
    consider (old) "\<not> newer_than_last vs (ss ! i)"
      | (miss) "newer_than_last vs (ss ! i)" "ss ! i \<noteq> fst (sh ! (j - 1))"
      | (hit) "newer_than_last vs (ss ! i)" "ss ! i = fst (sh ! (j - 1))" by blast
    then show ?thesis
    proof cases
      case old
      have "cs_inv vs ss sh (i + 1) j"
        using "1.prems"(1) run old last by (auto simp: cs_inv_def less_Suc_eq)
      moreover have "check_slots_loop vs ss sh (i + 1) j = (i', j')"
        using "1.prems"(2) run old by (subst (asm) check_slots_loop.simps) simp
      ultimately show ?thesis by (rule "1.IH"(1) [OF run old])
    next
      case miss
      have "cs_inv vs ss sh i (j - 1)" using "1.prems"(1) run by (auto simp: cs_inv_def)
      moreover have "check_slots_loop vs ss sh i (j - 1) = (i', j')"
        using "1.prems"(2) run miss by (subst (asm) check_slots_loop.simps) simp
      ultimately show ?thesis using "1.IH"(2) [OF run] miss by blast
    next
      case hit
      have "cs_inv vs ss sh (i + 1) (j - 1)"
        using "1.prems"(1) run hit last known_slot_nth [OF j] j by (auto simp: cs_inv_def less_Suc_eq)
      moreover have "check_slots_loop vs ss sh (i + 1) (j - 1) = (i', j')"
        using "1.prems"(2) run hit by (subst (asm) check_slots_loop.simps) simp
      ultimately show ?thesis using "1.IH"(3) [OF run] hit by blast
    qed
  qed
qed

text \<open>Without a newer slot no slot hash is consumed, and the vote is too old.\<close>

lemma check_slots_loop_old:
  "\<forall>s \<in> set ss. \<not> newer_than_last vs s \<Longrightarrow> snd (check_slots_loop vs ss sh i j) = j"
proof (induction vs ss sh i j rule: check_slots_loop.induct)
  case (1 vs ss sh i j)
  show ?case
  proof (cases "i < length ss \<and> 0 < j")
    case True
    then have "\<not> newer_than_last vs (ss ! i)" using "1.prems" by simp
    then show ?thesis using "1.IH"(1) "1.prems" True by (subst check_slots_loop.simps) simp
  qed (subst check_slots_loop.simps, auto)
qed

lemma check_slots_are_valid_newer:
  assumes ok: "check_slots_are_valid vs ss h sh = Ok u"
  shows "\<exists>s \<in> set ss. newer_than_last vs s"
proof (rule ccontr)
  assume "\<not> (\<exists>s \<in> set ss. newer_than_last vs s)"
  then have "snd (check_slots_loop vs ss sh 0 (length sh)) = length sh" by (intro check_slots_loop_old) blast
  with ok show False by (auto simp: check_slots_are_valid_def split: prod.splits if_splits)
qed

lemma check_slots_are_valid_Ok:
  assumes ok: "check_slots_are_valid vs ss h sh = Ok u" and ne: "ss \<noteq> []"
  shows "\<forall>s \<in> set ss. newer_than_last vs s \<longrightarrow> known_slot sh s"
    and "newer_than_last vs (last ss) \<Longrightarrow> (last ss, h) \<in> set sh"
proof -
  obtain i j where l: "check_slots_loop vs ss sh 0 (length sh) = (i, j)" by fastforce
  have "cs_inv vs ss sh i j"
    by (rule check_slots_loop_inv [OF _ l]) (use ne in \<open>auto simp: cs_inv_def\<close>)
  moreover have "i = length ss" "snd (sh ! j) = h"
    using ok l by (auto simp: check_slots_are_valid_def split: if_splits)
  ultimately show "\<forall>s \<in> set ss. newer_than_last vs s \<longrightarrow> known_slot sh s"
    "newer_than_last vs (last ss) \<Longrightarrow> (last ss, h) \<in> set sh"
    using ne by (auto simp: cs_inv_def in_set_conv_nth) (metis prod.collapse)
qed

end
