(* ===== verification/Feature_Set.thy ===== *)
theory Feature_Set
  imports Prelude
begin

text \<open>
  \<^verbatim>\<open>sdk/feature-set/src/lib.rs\<close>: the set of activated features. A feature is named by its
  account's key in the source; the model names the features the modelled programs ask for.
\<close>

datatype feature =
    Timely_Vote_Credits
  | Allow_Commission_Decrease_At_Any_Time
  | Commission_Updates_Only_Allowed_In_First_Half_Of_Epoch
  | Deprecate_Legacy_Vote_Ixs
  | Enable_Tower_Sync_Ix

record feature_set =
  fs_active :: "(feature \<times> slot) list"
  fs_inactive :: "feature list"

definition is_active :: "feature_set \<Rightarrow> feature \<Rightarrow> bool" where
  "is_active fs f \<longleftrightarrow> f \<in> fst ` set (fs_active fs)"

end
