(* ===== verification/Vote_New_State.thy ===== *)
theory Vote_New_State
  imports Vote_Check Feature_Set
begin

text \<open>
  \<open>process_new_vote_state\<close> and the operations above it in \<^verbatim>\<open>programs/vote/src/vote_state/mod.rs\<close>:
  replacing an account's tower by a proposed one (\<open>do_process_vote_state_update\<close>,
  \<open>do_process_tower_sync\<close>) and applying a plain vote (\<open>process_vote\<close>). The source changes the
  vote state in place; its callers hold a copy and write it back only on success, so the model
  returns the new state with \<open>Ok\<close>.

  The guarantees in the comment above \<open>process_new_vote_state\<close> are \<open>tower_wf\<close> for the new tower and,
  for every current vote, that it is covered by the new root, kept with at least as many
  confirmations and a stated latency (\<open>kept_vote\<close>), or expired before the first new vote above it (\<open>expired_vote\<close>).
\<close>

section \<open>Replacing the tower and applying votes\<close>

definition check_new_root :: "slot option \<Rightarrow> slot option \<Rightarrow> (vote_error, unit) result" where
  "check_new_root new_root current_root =
     (case (new_root, current_root) of
        (Some new, Some current) \<Rightarrow> if new < current then Err RootRollBack else Ok ()
      | (None, Some _) \<Rightarrow> Err RootRollBack
      | _ \<Rightarrow> Ok ())"

fun check_new_votes :: "slot option \<Rightarrow> landed_vote option \<Rightarrow> landed_vote list \<Rightarrow> (vote_error, unit) result" where
  "check_new_votes new_root previous_vote [] = Ok ()"
| "check_new_votes new_root previous_vote (vote # rest) =
     (if lv_confirmation_count vote = 0 then Err ZeroConfirmations
      else if MAX_LOCKOUT_HISTORY < lv_confirmation_count vote then Err ConfirmationTooLarge
      else if (case new_root of None \<Rightarrow> False | Some r \<Rightarrow> lv_slot vote \<le> r \<and> r \<noteq> 0) then Err SlotSmallerThanRoot
      else rbind
        (case previous_vote of
           None \<Rightarrow> Ok ()
         | Some prev \<Rightarrow>
             if lv_slot vote \<le> lv_slot prev then Err SlotsNotOrdered
             else if lv_confirmation_count prev \<le> lv_confirmation_count vote then Err ConfirmationsNotOrdered
             else if last_locked_out_slot (lv_lockout prev) < lv_slot vote then Err NewVoteStateLockoutMismatch
             else Ok ())
        (\<lambda>_. check_new_votes new_root (Some vote) rest))"

text \<open>The walk over the votes that the new root covers: how many there are, and what they earn.\<close>

fun rooted_votes_loop ::
  "vote_state \<Rightarrow> bool \<Rightarrow> slot \<Rightarrow> landed_vote list \<Rightarrow> nat \<Rightarrow> nat \<Rightarrow> (vote_error, nat \<times> nat) result" where
  "rooted_votes_loop vs timely_vote_credits new_root [] index earned_credits = Ok (index, earned_credits)"
| "rooted_votes_loop vs timely_vote_credits new_root (current_vote # rest) index earned_credits =
     (if lv_slot current_vote \<le> new_root then
        rbind (if timely_vote_credits \<or> lv_slot current_vote \<noteq> new_root
               then unwrap (checked_add_u64 earned_credits (credits_for_vote_at_index vs index timely_vote_credits))
               else Ok earned_credits)
          (\<lambda>earned. rooted_votes_loop vs timely_vote_credits new_root rest (index + 1) earned)
      else Ok (index, earned_credits))"

text \<open>
  The walk over the remaining current votes and the new votes. The indices of the source only move
  forward, so the model passes the suffixes they point to; the latencies it writes are in the list
  it returns.
\<close>

fun reconcile_votes :: "landed_vote list \<Rightarrow> landed_vote list \<Rightarrow> (vote_error, landed_vote list) result" where
  "reconcile_votes (current_vote # cs) (new_vote # ns) =
     (case cmp (lv_slot current_vote) (lv_slot new_vote) of
        Less \<Rightarrow>
          if lv_slot new_vote \<le> last_locked_out_slot (lv_lockout current_vote) then Err LockoutConflict
          else reconcile_votes cs (new_vote # ns)
      | Equal \<Rightarrow>
          if lv_confirmation_count new_vote < lv_confirmation_count current_vote then Err ConfirmationRollBack
          else rbind (reconcile_votes cs ns) (\<lambda>ns'. Ok (new_vote\<lparr>latency := latency current_vote\<rparr> # ns'))
      | Greater \<Rightarrow> rbind (reconcile_votes (current_vote # cs) ns) (\<lambda>ns'. Ok (new_vote # ns')))"
| "reconcile_votes cs ns = Ok ns"

definition set_latency :: "slot \<Rightarrow> landed_vote \<Rightarrow> landed_vote" where
  "set_latency current_slot v =
     (if latency v = 0 then v\<lparr>latency := compute_vote_latency (lv_slot v) current_slot\<rparr> else v)"

definition timely_active :: "feature_set option \<Rightarrow> bool" where
  "timely_active features \<longleftrightarrow> (case features of None \<Rightarrow> False | Some f \<Rightarrow> is_active f Timely_Vote_Credits)"

definition process_new_vote_state ::
  "vote_state \<Rightarrow> landed_vote list \<Rightarrow> slot option \<Rightarrow> unix_timestamp option \<Rightarrow> epoch \<Rightarrow> slot \<Rightarrow>
     feature_set option \<Rightarrow> (vote_error, vote_state) result" where
  "process_new_vote_state vs new_state new_root timestamp e current_slot features =
     rbind (assert_that (new_state \<noteq> [])) (\<lambda>_.
     if MAX_LOCKOUT_HISTORY < length new_state then Err TooManyVotes
     else
     rbind (check_new_root new_root (root_slot vs)) (\<lambda>_.
     rbind (check_new_votes new_root None new_state) (\<lambda>_.
     let timely_vote_credits = timely_active features;
         earned = (if timely_vote_credits then 0 else 1)
     in
     rbind (case new_root of
              None \<Rightarrow> Ok (0, earned)
            | Some r \<Rightarrow> rooted_votes_loop vs timely_vote_credits r (votes vs) 0 earned) (\<lambda>(index, earned_credits).
     rbind (reconcile_votes (drop index (votes vs)) new_state) (\<lambda>new_state1.
     let new_state2 = (if timely_vote_credits then map (set_latency current_slot) new_state1 else new_state1);
         vs1 = (if root_slot vs \<noteq> new_root then increment_credits vs e earned_credits else vs)
     in
     rbind (case timestamp of
              None \<Rightarrow> Ok vs1
            | Some ts \<Rightarrow> process_timestamp vs1 (lv_slot (last new_state2)) ts) (\<lambda>vs2.
     Ok (vs2\<lparr>root_slot := new_root, votes := new_state2\<rparr>)))))))"

definition follows :: "landed_vote \<Rightarrow> landed_vote \<Rightarrow> bool" where
  "follows p v \<longleftrightarrow> lv_slot p < lv_slot v \<and> lv_confirmation_count v < lv_confirmation_count p \<and>
     lv_slot v \<le> last_locked_out_slot (lv_lockout p)"

definition rooted_credits :: "vote_state \<Rightarrow> bool \<Rightarrow> slot \<Rightarrow> nat" where
  "rooted_credits vs timely r =
     (\<Sum>i \<leftarrow> [0 ..< length (takeWhile (\<lambda>v. lv_slot v \<le> r) (votes vs))].
        if timely \<or> lv_slot (votes vs ! i) \<noteq> r then credits_for_vote_at_index vs i timely else 0)"

text \<open>What becomes of a current vote above the new root.\<close>

definition kept_vote :: "landed_vote \<Rightarrow> nat \<Rightarrow> landed_vote list \<Rightarrow> bool" where
  "kept_vote c l new \<longleftrightarrow> (\<exists>n \<in> set new. lv_slot n = lv_slot c \<and>
     lv_confirmation_count c \<le> lv_confirmation_count n \<and> latency n = l)"

text \<open>
  The latency a kept vote ends up with. It is the current one, except that with timely vote credits a
  latency of 0 counts as missing and is computed from the current slot.
\<close>

definition kept_latency :: "feature_set option \<Rightarrow> slot \<Rightarrow> landed_vote \<Rightarrow> nat" where
  "kept_latency features current_slot c =
     (if timely_active features \<and> latency c = 0 then compute_vote_latency (lv_slot c) current_slot else latency c)"

definition expired_vote :: "landed_vote \<Rightarrow> landed_vote list \<Rightarrow> bool" where
  "expired_vote c new \<longleftrightarrow> (\<exists>t \<in> set new. lv_slot c < lv_slot t \<and>
     last_locked_out_slot (lv_lockout c) < lv_slot t \<and>
     (\<forall>n \<in> set new. lv_slot n < lv_slot t \<longrightarrow> lv_slot n < lv_slot c))"

abbreviation slots_sorted :: "landed_vote list \<Rightarrow> bool" where
  "slots_sorted \<equiv> sorted_wrt (\<lambda>a b. lv_slot a < lv_slot b)"

definition covered_votes :: "slot option \<Rightarrow> landed_vote list \<Rightarrow> landed_vote list" where
  "covered_votes r vs = (case r of None \<Rightarrow> [] | Some r' \<Rightarrow> takeWhile (\<lambda>v. lv_slot v \<le> r') vs)"

definition earned_credits :: "vote_state \<Rightarrow> bool \<Rightarrow> slot option \<Rightarrow> nat" where
  "earned_credits vs t r =
     (if t then 0 else 1) + (case r of None \<Rightarrow> 0 | Some r' \<Rightarrow> rooted_credits vs t r')"

definition process_vote_unfiltered ::
  "vote_state \<Rightarrow> slot list \<Rightarrow> vote \<Rightarrow> slot_hash list \<Rightarrow> epoch \<Rightarrow> slot \<Rightarrow> bool \<Rightarrow> (vote_error, vote_state) result" where
  "process_vote_unfiltered vs vote_slots v slot_hashes e current_slot timely_vote_credits =
     rbind (check_slots_are_valid vs vote_slots (v_hash v) slot_hashes) (\<lambda>_.
     Ok (fold (\<lambda>s vs. process_next_vote_slot vs s e current_slot timely_vote_credits) vote_slots vs))"

definition process_vote ::
  "vote_state \<Rightarrow> vote \<Rightarrow> slot_hash list \<Rightarrow> epoch \<Rightarrow> slot \<Rightarrow> bool \<Rightarrow> (vote_error, vote_state) result" where
  "process_vote vs v slot_hashes e current_slot timely_vote_credits =
     (if v_slots v = [] then Err EmptySlots
      else
        let earliest_slot_in_history = (if slot_hashes = [] then 0 else fst (last slot_hashes));
            vote_slots = filter (\<lambda>s. earliest_slot_in_history \<le> s) (v_slots v)
        in if vote_slots = [] then Err VotesTooOldAllFiltered
           else process_vote_unfiltered vs vote_slots v slot_hashes e current_slot timely_vote_credits)"

definition process_vote_unchecked :: "vote_state \<Rightarrow> vote \<Rightarrow> (vote_error, vote_state) result" where
  "process_vote_unchecked vs v =
     (if v_slots v = [] then Err EmptySlots
      else process_vote_unfiltered vs (v_slots v) v (map (\<lambda>s. (s, v_hash v)) (rev (v_slots v)))
             (current_epoch vs) 0 True)"

text \<open>The result is discarded; the state changes only if the vote was accepted.\<close>

definition process_slot_vote_unchecked :: "vote_state \<Rightarrow> slot \<Rightarrow> vote_state" where
  "process_slot_vote_unchecked vs s =
     (case process_vote_unchecked vs (vote_new [s] 0) of Ok vs' \<Rightarrow> vs' | _ \<Rightarrow> vs)"

definition do_process_vote_state_update ::
  "vote_state \<Rightarrow> slot_hash list \<Rightarrow> epoch \<Rightarrow> slot \<Rightarrow> vote_state_update \<Rightarrow> feature_set option \<Rightarrow>
     (vote_error, vote_state) result" where
  "do_process_vote_state_update vs slot_hashes e s u features =
     rbind (check_and_filter_proposed_vote_state vs (vsu_lockouts u) (vsu_root u) (vsu_hash u) slot_hashes)
       (\<lambda>(lockouts, root).
     process_new_vote_state vs (map landed_vote_from lockouts) root (vsu_timestamp u) e s features)"

definition do_process_tower_sync ::
  "vote_state \<Rightarrow> slot_hash list \<Rightarrow> epoch \<Rightarrow> slot \<Rightarrow> tower_sync \<Rightarrow> feature_set option \<Rightarrow>
     (vote_error, vote_state) result" where
  "do_process_tower_sync vs slot_hashes e s t features =
     rbind (check_and_filter_proposed_vote_state vs (ts_lockouts t) (ts_root t) (ts_hash t) slot_hashes)
       (\<lambda>(lockouts, root).
     process_new_vote_state vs (map landed_vote_from lockouts) root (ts_timestamp t) e s features)"


section \<open>The checks on a new tower\<close>

section \<open>Replacing the tower\<close>

lemma tower_wf_lockouts:
  assumes "map lv_lockout vs = map lv_lockout ws"
  shows "tower_wf vs \<longleftrightarrow> tower_wf ws"
proof -
  have eq: "tower_wf us \<longleftrightarrow> (let ls = map lv_lockout us in
     length ls \<le> MAX_LOCKOUT_HISTORY \<and>
     sorted_wrt (\<lambda>a b. lockout_slot a < lockout_slot b) ls \<and>
     sorted_wrt (\<lambda>a b. confirmation_count b < confirmation_count a) ls \<and>
     (\<forall>l \<in> set ls. 1 \<le> confirmation_count l \<and> confirmation_count l \<le> MAX_LOCKOUT_HISTORY) \<and>
     (\<forall>i. Suc i < length ls \<longrightarrow> is_locked_out_at_slot (ls ! i) (lockout_slot (ls ! Suc i))))" for us
    unfolding tower_wf_def Let_def sorted_wrt_map by (simp add: nth_map)
  show ?thesis unfolding eq assms ..
qed

lemma check_new_votes_Ok:
  assumes "check_new_votes r p vs = Ok u"
  shows "(\<forall>i. Suc i < length vs \<longrightarrow> follows (vs ! i) (vs ! Suc i)) \<and>
    (\<forall>v \<in> set vs. 1 \<le> lv_confirmation_count v \<and> lv_confirmation_count v \<le> MAX_LOCKOUT_HISTORY) \<and>
    (\<forall>v \<in> set vs. case r of None \<Rightarrow> True | Some r' \<Rightarrow> r' = 0 \<or> r' < lv_slot v) \<and>
    (vs \<noteq> [] \<longrightarrow> (case p of None \<Rightarrow> True | Some p' \<Rightarrow> follows p' (hd vs)))"
  using assms
proof (induction r p vs rule: check_new_votes.induct)
  case (2 r p v vs)
  from "2.prems" have ok: "check_new_votes r (Some v) vs = Ok u"
    and v: "1 \<le> lv_confirmation_count v" "lv_confirmation_count v \<le> MAX_LOCKOUT_HISTORY"
      "case r of None \<Rightarrow> True | Some r' \<Rightarrow> r' = 0 \<or> r' < lv_slot v"
      "case p of None \<Rightarrow> True | Some p' \<Rightarrow> follows p' v"
    by (auto simp: result_simps follows_def split: if_splits option.splits)
  from "2.IH" ok "2.prems" have IH: "(\<forall>i. Suc i < length vs \<longrightarrow> follows (vs ! i) (vs ! Suc i)) \<and>
    (\<forall>v \<in> set vs. 1 \<le> lv_confirmation_count v \<and> lv_confirmation_count v \<le> MAX_LOCKOUT_HISTORY) \<and>
    (\<forall>v \<in> set vs. case r of None \<Rightarrow> True | Some r' \<Rightarrow> r' = 0 \<or> r' < lv_slot v) \<and>
    (vs \<noteq> [] \<longrightarrow> follows v (hd vs))"
    by (auto split: if_splits simp: result_simps)
  have "follows ((v # vs) ! i) ((v # vs) ! Suc i)" if "Suc i < length (v # vs)" for i
    using that IH by (cases i) (auto simp: hd_conv_nth)
  with IH v show ?case by (auto split: option.splits)
qed simp

lemma check_new_votes_wf:
  assumes "check_new_votes r None vs = Ok u" and "length vs \<le> MAX_LOCKOUT_HISTORY"
  shows "tower_wf vs" and "r = Some r' \<Longrightarrow> r' \<noteq> 0 \<Longrightarrow> v \<in> set vs \<Longrightarrow> r' < lv_slot v"
proof -
  note ok = check_new_votes_Ok [OF assms(1)]
  have "sorted_wrt (\<lambda>a b. lv_slot a < lv_slot b) vs"
    using ok by (intro sorted_wrt_consecutive) (simp add: follows_def)
  moreover have "sorted_wrt (\<lambda>a b. lv_confirmation_count b < lv_confirmation_count a) vs"
    using ok by (subst sorted_wrt_iff_nth_Suc_transp) (auto simp: follows_def transp_def)
  ultimately show "tower_wf vs"
    using ok assms(2) unfolding tower_wf_def is_locked_out_at_slot_def follows_def by blast
  show "r = Some r' \<Longrightarrow> r' \<noteq> 0 \<Longrightarrow> v \<in> set vs \<Longrightarrow> r' < lv_slot v"
    using ok by auto
qed

section \<open>The votes the root covers\<close>

lemma credits_for_vote_le: "credits_for_vote_at_index vs i t \<le> 16"
  by (auto simp: credits_for_vote_at_index_def Let_def vote_consts arith_defs)

lemma rooted_votes_loop_Ok:
  assumes "earned + 16 * length rest \<le> u64_max"
  shows "rooted_votes_loop vs timely r rest index earned =
    Ok (index + length (takeWhile (\<lambda>v. lv_slot v \<le> r) rest),
        earned + (\<Sum>i \<leftarrow> [0 ..< length (takeWhile (\<lambda>v. lv_slot v \<le> r) rest)].
          if timely \<or> lv_slot (rest ! i) \<noteq> r then credits_for_vote_at_index vs (index + i) timely else 0))"
  using assms
proof (induction rest arbitrary: index earned)
  case (Cons v rest)
  let ?c = "if timely \<or> lv_slot v \<noteq> r then credits_for_vote_at_index vs index timely else 0"
  show ?case
  proof (cases "lv_slot v \<le> r")
    case True
    have c: "?c \<le> 16" using credits_for_vote_le by simp
    then have fits: "earned + ?c \<le> u64_max" "earned + ?c + 16 * length rest \<le> u64_max"
      using Cons.prems by auto
    have "rooted_votes_loop vs timely r (v # rest) index earned =
        rooted_votes_loop vs timely r rest (Suc index) (earned + ?c)"
      using True fits(1) by (auto simp: arith_defs unwrap_def)
    also have "\<dots> = Ok (index + length (takeWhile (\<lambda>v. lv_slot v \<le> r) (v # rest)),
        earned + (?c + (\<Sum>i \<leftarrow> [0 ..< length (takeWhile (\<lambda>v. lv_slot v \<le> r) rest)].
          if timely \<or> lv_slot (rest ! i) \<noteq> r then credits_for_vote_at_index vs (index + Suc i) timely else 0)))"
      using Cons.IH [OF fits(2), of "Suc index"] True by simp
    also have "?c + (\<Sum>i \<leftarrow> [0 ..< length (takeWhile (\<lambda>v. lv_slot v \<le> r) rest)].
          if timely \<or> lv_slot (rest ! i) \<noteq> r then credits_for_vote_at_index vs (index + Suc i) timely else 0) =
        (\<Sum>i \<leftarrow> [0 ..< length (takeWhile (\<lambda>v. lv_slot v \<le> r) (v # rest))].
          if timely \<or> lv_slot ((v # rest) ! i) \<noteq> r then credits_for_vote_at_index vs (index + i) timely else 0)"
      using True by (simp add: upt_conv_Cons map_Suc_upt [symmetric] comp_def del: upt_Suc map_Suc_upt)
    finally show ?thesis .
  qed simp
qed simp

lemma rooted_votes_loop_votes:
  assumes "earned \<le> 1" and "length (votes vs) \<le> MAX_LOCKOUT_HISTORY"
  shows "rooted_votes_loop vs timely r (votes vs) 0 earned =
    Ok (length (takeWhile (\<lambda>v. lv_slot v \<le> r) (votes vs)), earned + rooted_credits vs timely r)"
  unfolding rooted_credits_def
  by (subst rooted_votes_loop_Ok) (use assms in \<open>auto simp: vote_consts simp del: if_image_distrib cong: if_cong\<close>)

section \<open>Old votes against new votes\<close>

lemma reconcile_not_Panic: "reconcile_votes cs ns \<noteq> Panic"
  by (induction cs ns rule: reconcile_votes.induct) (auto simp: result_simps split: ordering.splits)

lemma kept_vote_Cons: "kept_vote c l ns \<Longrightarrow> kept_vote c l (n # ns)"
  by (auto simp: kept_vote_def)

lemma expired_vote_Cons: "expired_vote c ns \<Longrightarrow> lv_slot n < lv_slot c \<Longrightarrow> expired_vote c (n # ns)"
  by (auto simp: expired_vote_def)

lemma expired_vote_hd:
  assumes "lv_slot c < lv_slot n" and "last_locked_out_slot (lv_lockout c) < lv_slot n"
    and "\<forall>m \<in> set ns. lv_slot n < lv_slot m"
  shows "expired_vote c (n # ns)"
  using assms by (auto simp: expired_vote_def)

lemma reconcile_lockouts: "reconcile_votes cs ns = Ok ns' \<Longrightarrow> map lv_lockout ns' = map lv_lockout ns"
  by (induction cs ns arbitrary: ns' rule: reconcile_votes.induct)
    (auto simp: result_simps split: ordering.splits if_splits)

lemma slots_sorted_lockouts:
  assumes "map lv_lockout vs = map lv_lockout ws"
  shows "slots_sorted vs \<longleftrightarrow> slots_sorted ws"
proof -
  have "slots_sorted us \<longleftrightarrow> sorted_wrt (\<lambda>a b. lockout_slot a < lockout_slot b) (map lv_lockout us)" for us
    by (simp add: sorted_wrt_map)
  then show ?thesis by (simp add: assms)
qed

lemma reconcile_popped:
  assumes "reconcile_votes cs (n # ns) = Ok ns'" and "\<forall>m \<in> set ns. lv_slot n < lv_slot m"
    and "lv_slot d < lv_slot n" and "last_locked_out_slot (lv_lockout d) < lv_slot n"
  shows "expired_vote d ns'"
proof -
  obtain n' ns'' where ns': "ns' = n' # ns''" "lv_lockout n' = lv_lockout n" "map lv_lockout ns'' = map lv_lockout ns"
    using reconcile_lockouts [OF assms(1)] by (cases ns') auto
  have "\<forall>m \<in> set ns''. lv_slot n < lv_slot m"
    using assms(2) ns'(3) by (metis (mono_tags, lifting) image_iff list.set_map)
  with assms(3,4) show ?thesis using expired_vote_hd [of d n' ns''] by (simp add: ns')
qed

lemma last_not_head:
  assumes "slots_sorted (d # cs)" and "lv_slot (last (d # cs)) < lv_slot (last (n # ns))"
    and "lv_slot n \<le> lv_slot d" and "lv_slot n < lv_slot d \<or> cs \<noteq> []"
  shows "ns \<noteq> [] \<and> lv_slot (last (d # cs)) < lv_slot (last ns)"
proof -
  have "lv_slot d \<le> lv_slot (last (d # cs))" using sorted_wrt_last [OF assms(1), of d] by auto
  moreover have "cs \<noteq> [] \<Longrightarrow> lv_slot d < lv_slot (last (d # cs))" using assms(1) by auto
  ultimately show ?thesis using assms(2-4) by (cases "ns = []") auto
qed

lemma reconcile_votes_Ok:
  assumes "reconcile_votes cs ns = Ok ns'" and "slots_sorted cs" and "slots_sorted ns"
    and "cs \<noteq> [] \<Longrightarrow> ns \<noteq> [] \<and> lv_slot (last cs) < lv_slot (last ns)" and "c \<in> set cs"
  shows "kept_vote c (latency c) ns' \<or> expired_vote c ns'"
  using assms
proof (induction cs ns arbitrary: ns' rule: reconcile_votes.induct)
  case (1 d cs n ns)
  note prems = "1.prems"
  have last: "lv_slot (last (d # cs)) < lv_slot (last (n # ns))" using prems(4) by simp
  have c: "c = d \<or> c \<in> set cs" "lv_slot d \<le> lv_slot c" using prems(2,5) by auto
  have ns: "slots_sorted ns" "\<forall>m \<in> set ns. lv_slot n < lv_slot m" and cs: "slots_sorted cs"
    using prems(2,3) by auto
  show ?case
  proof (cases "cmp (lv_slot d) (lv_slot n)")
    case Less
    with prems(1) have ok: "reconcile_votes cs (n # ns) = Ok ns'"
      and x: "last_locked_out_slot (lv_lockout d) < lv_slot n" and lt: "lv_slot d < lv_slot n"
      by (auto simp: cmp_iff split: if_splits)
    show ?thesis
      using "1.IH"(1) [OF Less _ ok cs prems(3)] x last c(1) reconcile_popped [OF ok ns(2) lt x]
      by (auto split: if_splits)
  next
    case Equal
    then have eq: "lv_slot d = lv_slot n" by (simp add: cmp_iff)
    from Equal prems(1) obtain ns'' where ok: "reconcile_votes cs ns = Ok ns''"
      and ns': "ns' = n\<lparr>latency := latency d\<rparr> # ns''" and le: "lv_confirmation_count d \<le> lv_confirmation_count n"
      by (auto simp: result_simps split: if_splits)
    show ?thesis
    proof (cases "c \<in> set cs")
      case True
      then have lt: "lv_slot d < lv_slot c" using prems(2) by auto
      have "kept_vote c (latency c) ns'' \<or> expired_vote c ns''"
        using "1.IH"(2) [OF Equal _ ok cs ns(1) _ True] le last_not_head [OF prems(2) last] eq by auto
      then show ?thesis
        using lt eq by (auto simp: ns' intro: kept_vote_Cons expired_vote_Cons)
    next
      case False
      with c have "c = d" by blast
      then show ?thesis using eq le by (auto simp: ns' kept_vote_def)
    qed
  next
    case Greater
    then have gt: "lv_slot n < lv_slot d" by (simp add: cmp_iff)
    from Greater prems(1) obtain ns'' where ok: "reconcile_votes (d # cs) ns = Ok ns''" and ns': "ns' = n # ns''"
      by (auto simp: result_simps)
    have "kept_vote c (latency c) ns'' \<or> expired_vote c ns''"
      using "1.IH"(3) [OF Greater ok prems(2) ns(1) _ prems(5)] last_not_head [OF prems(2) last] gt by simp
    then show ?thesis
      using gt c(2) by (auto simp: ns' intro: kept_vote_Cons expired_vote_Cons)
  qed
next
  case "2_2"
  then show ?case by fastforce
qed auto


section \<open>A new tower never rolls back\<close>

lemma process_timestamp_frame:
  "process_timestamp vs s ts = Ok vs' \<Longrightarrow> vs' = vs\<lparr>last_timestamp := \<lparr>bt_slot = s, bt_timestamp = ts\<rparr>\<rparr>"
  by (auto simp: process_timestamp_def split: if_splits)

lemma set_latency_lockout [simp]: "lv_lockout (set_latency cs v) = lv_lockout v"
  by (simp add: set_latency_def)

lemma map_set_latency_lockouts [simp]: "map (lv_lockout \<circ> set_latency cs) vs = map lv_lockout vs"
  by (simp add: comp_def)

lemma kept_vote_set_latency:
  assumes "kept_vote c (latency c) ns"
  shows "kept_vote c (kept_latency features cs c) (if timely_active features then map (set_latency cs) ns else ns)"
proof -
  from assms obtain n where n: "n \<in> set ns" "lv_slot n = lv_slot c"
    "lv_confirmation_count c \<le> lv_confirmation_count n" "latency n = latency c" by (auto simp: kept_vote_def)
  show ?thesis
  proof (cases "timely_active features")
    case True
    with n have "latency (set_latency cs n) = kept_latency features cs c"
      by (simp add: set_latency_def kept_latency_def)
    with n True show ?thesis unfolding kept_vote_def by (intro bexI [of _ "set_latency cs n"]) auto
  next
    case False
    with n show ?thesis by (auto simp: kept_vote_def kept_latency_def)
  qed
qed

lemma expired_vote_set_latency: "expired_vote c ns \<Longrightarrow> expired_vote c (map (set_latency cs) ns)"
  by (auto simp: expired_vote_def)

lemma process_new_vote_state_unfold:
  assumes "new \<noteq> []" and "length new \<le> MAX_LOCKOUT_HISTORY" and len: "length (votes vs) \<le> MAX_LOCKOUT_HISTORY"
  shows "process_new_vote_state vs new r ts e cs features =
    rbind (check_new_root r (root_slot vs)) (\<lambda>_.
    rbind (check_new_votes r None new) (\<lambda>_.
    rbind (reconcile_votes (drop (length (covered_votes r (votes vs))) (votes vs)) new) (\<lambda>new1.
    let new2 = (if timely_active features then map (set_latency cs) new1 else new1);
        vs1 = (if root_slot vs \<noteq> r then increment_credits vs e (earned_credits vs (timely_active features) r) else vs)
    in rbind (case ts of None \<Rightarrow> Ok vs1 | Some ts \<Rightarrow> process_timestamp vs1 (lv_slot (last new2)) ts)
         (\<lambda>vs2. Ok (vs2\<lparr>root_slot := r, votes := new2\<rparr>)))))"
proof -
  have "(if timely_active features then 0 else 1) \<le> (1::nat)" by simp
  note l = rooted_votes_loop_votes [OF this len]
  have root: "(case r of
        None \<Rightarrow> Ok (0, if timely_active features then 0 else 1)
      | Some r \<Rightarrow> rooted_votes_loop vs (timely_active features) r (votes vs) 0 (if timely_active features then 0 else 1)) =
    Ok (length (covered_votes r (votes vs)), earned_credits vs (timely_active features) r)"
    by (cases r) (simp_all only: option.case l covered_votes_def earned_credits_def list.size add_0_right)
  show ?thesis
    unfolding process_new_vote_state_def Let_def root using assms(1,2) by (simp add: assert_that_def)
qed

lemma process_new_vote_state_Ok:
  assumes ok: "process_new_vote_state vs new r ts e cs features = Ok vs'"
    and len: "length (votes vs) \<le> MAX_LOCKOUT_HISTORY"
  obtains new1 where
    "new \<noteq> []" "length new \<le> MAX_LOCKOUT_HISTORY" "check_new_root r (root_slot vs) = Ok ()"
    "check_new_votes r None new = Ok ()"
    "reconcile_votes (drop (length (covered_votes r (votes vs))) (votes vs)) new = Ok new1"
    "votes vs' = (if timely_active features then map (set_latency cs) new1 else new1)"
    "root_slot vs' = r" "authorized_voters vs' = authorized_voters vs"
    "epoch_credits vs' =
       epoch_credits (if root_slot vs \<noteq> r then increment_credits vs e (earned_credits vs (timely_active features) r) else vs)"
    "case ts of None \<Rightarrow> last_timestamp vs' = last_timestamp vs
       | Some t \<Rightarrow> last_timestamp vs' = \<lparr>bt_slot = lv_slot (last new), bt_timestamp = t\<rparr>"
proof -
  from ok have new: "new \<noteq> []" "length new \<le> MAX_LOCKOUT_HISTORY"
    by (auto simp: process_new_vote_state_def result_simps split: if_splits)
  note unf = process_new_vote_state_unfold [OF new len]
  define vs1 where "vs1 = (if root_slot vs \<noteq> r then increment_credits vs e (earned_credits vs (timely_active features) r) else vs)"
  from ok [unfolded unf] obtain new1 vs2 where
    c: "check_new_root r (root_slot vs) = Ok ()" "check_new_votes r None new = Ok ()"
    and rc: "reconcile_votes (drop (length (covered_votes r (votes vs))) (votes vs)) new = Ok new1"
    and t: "(case ts of None \<Rightarrow> Ok vs1 | Some ts \<Rightarrow>
        process_timestamp vs1 (lv_slot (last (if timely_active features then map (set_latency cs) new1 else new1))) ts) = Ok vs2"
    and vs': "vs' = vs2\<lparr>root_slot := r, votes := (if timely_active features then map (set_latency cs) new1 else new1)\<rparr>"
    unfolding vs1_def by (auto simp: result_simps Let_def)
  have ne: "new1 \<noteq> []" and last: "lv_slot (last new1) = lv_slot (last new)"
    using reconcile_lockouts [OF rc] new(1) by (auto, metis Nil_is_map_conv last_map)
  have v: "authorized_voters vs1 = authorized_voters vs" "last_timestamp vs1 = last_timestamp vs"
    by (simp_all add: vs1_def)
  have last2: "lv_slot (last (if timely_active features then map (set_latency cs) new1 else new1)) = lv_slot (last new)"
    using ne last by (simp add: last_map)
  show thesis
  proof (rule that [OF new c rc])
    show "votes vs' = (if timely_active features then map (set_latency cs) new1 else new1)" "root_slot vs' = r"
      by (simp_all add: vs')
    show "authorized_voters vs' = authorized_voters vs"
      using t v by (auto simp: vs' dest!: process_timestamp_frame split: option.splits)
    show "epoch_credits vs' =
       epoch_credits (if root_slot vs \<noteq> r then increment_credits vs e (earned_credits vs (timely_active features) r) else vs)"
      unfolding vs1_def [symmetric] using t by (auto simp: vs' dest!: process_timestamp_frame split: option.splits)
    show "case ts of None \<Rightarrow> last_timestamp vs' = last_timestamp vs
       | Some t \<Rightarrow> last_timestamp vs' = \<lparr>bt_slot = lv_slot (last new), bt_timestamp = t\<rparr>"
      using t v unfolding last2 by (auto simp: vs' dest!: process_timestamp_frame split: option.splits)
  qed
qed

lemma process_new_vote_state_no_rollback:
  assumes wf: "tower_wf (votes vs)" and newer: "newer_than_last vs (lv_slot (last new))"
    and ok: "process_new_vote_state vs new r ts e cs features = Ok vs'"
  shows "tower_wf (votes vs') \<and> map lv_lockout (votes vs') = map lv_lockout new \<and>
    root_slot vs' = r \<and> (case root_slot vs of None \<Rightarrow> True | Some old \<Rightarrow> \<exists>r'. r = Some r' \<and> old \<le> r') \<and>
    (\<forall>c \<in> set (votes vs). (\<exists>r'. r = Some r' \<and> lv_slot c \<le> r') \<or>
       kept_vote c (kept_latency features cs c) (votes vs') \<or> expired_vote c (votes vs'))"
proof -
  have len: "length (votes vs) \<le> MAX_LOCKOUT_HISTORY" and sorted: "slots_sorted (votes vs)"
    using wf by (auto simp: tower_wf_def)
  from ok len obtain new1 where
    new: "new \<noteq> []" "length new \<le> MAX_LOCKOUT_HISTORY" "check_new_root r (root_slot vs) = Ok ()"
    "check_new_votes r None new = Ok ()"
    "reconcile_votes (drop (length (covered_votes r (votes vs))) (votes vs)) new = Ok new1"
    "votes vs' = (if timely_active features then map (set_latency cs) new1 else new1)" "root_slot vs' = r"
    by (rule process_new_vote_state_Ok)
  note wfn = check_new_votes_wf [OF new(4,2)]
  have lk: "map lv_lockout (votes vs') = map lv_lockout new"
    using reconcile_lockouts [OF new(5)] by (simp add: new(6))
  have "(\<exists>r'. r = Some r' \<and> lv_slot c \<le> r') \<or> kept_vote c (kept_latency features cs c) (votes vs') \<or> expired_vote c (votes vs')"
    if c: "c \<in> set (votes vs)" for c
  proof (cases "c \<in> set (covered_votes r (votes vs))")
    case True
    then show ?thesis by (auto simp: covered_votes_def dest: set_takeWhileD split: option.splits)
  next
    case False
    let ?cs = "drop (length (covered_votes r (votes vs))) (votes vs)"
    have "take (length (covered_votes r (votes vs))) (votes vs) = covered_votes r (votes vs)"
      by (cases r) (simp_all add: covered_votes_def takeWhile_eq_take [symmetric])
    with c False have cs: "c \<in> set ?cs"
      by (metis Un_iff append_take_drop_id set_append)
    have "lv_slot (last ?cs) < lv_slot (last new)"
    proof (rule newer_than_all [OF wf newer [unfolded newer_than_last_def]])
      have "last ?cs \<in> set ?cs" using cs by (intro last_in_set) auto
      then show "last ?cs \<in> set (votes vs)" by (rule in_set_dropD)
    qed
    then have "kept_vote c (latency c) new1 \<or> expired_vote c new1"
      using wfn(1) new(1) sorted sorted_wrt_drop cs
      by (intro reconcile_votes_Ok [OF new(5)]) (auto simp: tower_wf_def)
    then show ?thesis
      unfolding new(6) using kept_vote_set_latency [of c new1 features cs] expired_vote_set_latency [of c new1 cs]
      by presburger
  qed
  moreover have "tower_wf (votes vs')" using tower_wf_lockouts [OF lk] wfn(1) by simp
  moreover have "case root_slot vs of None \<Rightarrow> True | Some old \<Rightarrow> \<exists>r'. r = Some r' \<and> old \<le> r'"
    using new(3) by (auto simp: check_new_root_def split: option.splits if_splits)
  ultimately show ?thesis using lk new(7) by blast
qed

section \<open>Votes\<close>












lemma check_new_votes_not_Panic: "check_new_votes r p vs \<noteq> Panic"
  by (induction r p vs rule: check_new_votes.induct) (auto simp: result_simps split: option.splits)

lemma process_new_vote_state_not_Panic:
  assumes "new \<noteq> []" and "length (votes vs) \<le> MAX_LOCKOUT_HISTORY"
  shows "process_new_vote_state vs new r ts e cs features \<noteq> Panic"
proof (cases "length new \<le> MAX_LOCKOUT_HISTORY")
  case True
  show ?thesis
    unfolding process_new_vote_state_unfold [OF assms(1) True assms(2)]
    using check_new_votes_not_Panic reconcile_not_Panic
    by (auto simp: result_simps check_new_root_def Let_def process_timestamp_def split: option.splits if_splits)
next
  case False
  then show ?thesis using assms by (simp add: process_new_vote_state_def assert_that_def)
qed

text \<open>Both kinds of tower update are the same two calls.\<close>

lemma tower_update_not_Panic:
  assumes "length (votes vs) \<le> MAX_LOCKOUT_HISTORY"
  shows "rbind (check_and_filter_proposed_vote_state vs pl r h sh) (\<lambda>(lockouts, root).
     process_new_vote_state vs (map landed_vote_from lockouts) root ts e s features) \<noteq> Panic"
proof
  assume "rbind (check_and_filter_proposed_vote_state vs pl r h sh) (\<lambda>(lockouts, root).
     process_new_vote_state vs (map landed_vote_from lockouts) root ts e s features) = Panic"
  then obtain pl' r' where "check_and_filter_proposed_vote_state vs pl r h sh = Ok (pl', r')"
    and p: "process_new_vote_state vs (map landed_vote_from pl') r' ts e s features = Panic"
    using check_and_filter_no_assertion(1) [of vs pl r h sh] by (auto simp: result_simps)
  from check_and_filter_Ok(3) [OF this(1)] have "map landed_vote_from pl' \<noteq> []" by simp
  with p show False using process_new_vote_state_not_Panic assms by blast
qed

text \<open>
  C16: processing a tower sync or a vote state update on a well-formed tower never panics: none of the
  assertions, \<open>expect\<close>s and index accesses on the way can fail, whatever is proposed.
\<close>

theorem do_process_tower_sync_not_Panic:
  assumes "tower_wf (votes vs)"
  shows "do_process_tower_sync vs sh e s t features \<noteq> Panic \<and>
    do_process_vote_state_update vs sh e s u features \<noteq> Panic"
  using assms unfolding do_process_tower_sync_def do_process_vote_state_update_def
  by (intro conjI tower_update_not_Panic) (simp_all add: tower_wf_def)

theorem do_process_tower_sync_not_Panic_witness:
  "do_process_tower_sync vote_state_default [(5, 9)] 0 6 (ts_new_from_slot 40 9) None \<noteq> Panic \<and>
   do_process_vote_state_update vote_state_default [(5, 9)] 0 6
     \<lparr>vsu_lockouts = [], vsu_root = None, vsu_hash = 9, vsu_timestamp = None\<rparr> None \<noteq> Panic"
  by (rule do_process_tower_sync_not_Panic) (simp add: tower_wf_def vote_state_default_def)


lemma landed_vote_from_lockout [simp]: "lv_lockout (landed_vote_from l) = l"
  by (simp add: landed_vote_from_def)

text \<open>
  C3: an accepted tower sync leaves a well-formed tower whose last slot is newer than every slot voted
  on before and is in the slot hashes with the voted hash; every slot of the new tower was proposed and is
  in the slot hashes or was in the old tower; the root never moves back; and every old vote is covered by
  the new root, kept with at least its confirmations, or expired before the first new vote above it. A
  kept vote has its latency unchanged, except that under timely vote credits a latency of 0 is replaced by
  the distance from its slot to the current one, as for a new vote.
\<close>

theorem do_process_tower_sync_accepted:
  assumes wf: "tower_wf (votes vs)" and ok: "do_process_tower_sync vs sh e s t features = Ok vs'"
  shows "tower_wf (votes vs') \<and>
    (\<exists>l. last_voted_slot vs' = Some l \<and> (l, ts_hash t) \<in> set sh \<and> (\<forall>x \<in> set (tower vs). x < l)) \<and>
    (\<forall>x \<in> set (tower vs'). x \<in> set (ts_slots t) \<and> (known_slot sh x \<or> x \<in> set (tower vs))) \<and>
    (case root_slot vs of None \<Rightarrow> True | Some old \<Rightarrow> \<exists>r. root_slot vs' = Some r \<and> old \<le> r) \<and>
    (\<forall>c \<in> set (votes vs). (\<exists>r. root_slot vs' = Some r \<and> lv_slot c \<le> r) \<or>
       kept_vote c (kept_latency features s c) (votes vs') \<or> expired_vote c (votes vs'))"
proof -
  from ok obtain pl r where c: "check_and_filter_proposed_vote_state vs (ts_lockouts t) (ts_root t) (ts_hash t) sh = Ok (pl, r)"
    and p: "process_new_vote_state vs (map landed_vote_from pl) r (ts_timestamp t) e s features = Ok vs'"
    by (auto simp: do_process_tower_sync_def result_simps)
  note cf = check_and_filter_Ok [OF c]
  from cf(2,3) have newer: "newer_than_last vs (lv_slot (last (map landed_vote_from pl)))"
    by (simp add: last_map)
  note nr = process_new_vote_state_no_rollback [OF wf newer p]
  have lk: "map lv_lockout (votes vs') = pl" using nr by (simp add: comp_def)
  then have ne: "votes vs' \<noteq> []" using cf(3) by auto
  have "last_voted_slot vs' = Some (lockout_slot (last (ts_lockouts t)))"
  proof -
    have "last pl = lv_lockout (last (votes vs'))" unfolding lk [symmetric] using ne by (rule last_map)
    then show ?thesis using ne cf(3) by (simp add: last_voted_slot_def last_lockout_def list_last_def)
  qed
  moreover have "\<forall>x \<in> set (tower vs). x < lockout_slot (last (ts_lockouts t))"
    using newer_than_all [OF wf cf(2) [unfolded newer_than_last_def]] by (auto simp: tower_def)
  moreover have "x \<in> set (ts_slots t) \<and> (known_slot sh x \<or> x \<in> set (tower vs))" if "x \<in> set (tower vs')" for x
  proof -
    have "set (tower vs') = lockout_slot ` set pl" unfolding lk [symmetric] by (auto simp: tower_def)
    then show ?thesis using that cf(6) contains_slot_iff [OF wf] by (auto simp: ts_slots_def)
  qed
  ultimately show ?thesis using nr cf(1) by blast
qed

theorem do_process_tower_sync_accepted_witness:
  "\<exists>vs'. do_process_tower_sync vote_state_default [(6, 8), (5, 9)] 0 6
       \<lparr>ts_lockouts = [lockout_new 5], ts_root = None, ts_hash = 9, ts_timestamp = None, ts_block_id = 0\<rparr> None = Ok vs' \<and>
     tower_wf (votes vs') \<and> last_voted_slot vs' = Some 5"
proof -
  let ?vs' = "vote_state_default\<lparr>votes := [landed_vote_from (lockout_new 5)]\<rparr>"
  have ok: "do_process_tower_sync vote_state_default [(6, 8), (5, 9)] 0 6
      \<lparr>ts_lockouts = [lockout_new 5], ts_root = None, ts_hash = 9, ts_timestamp = None, ts_block_id = 0\<rparr> None = Ok ?vs'"
    by code_simp
  have "tower_wf (votes vote_state_default)" by (simp add: tower_wf_def vote_state_default_def)
  from do_process_tower_sync_accepted [OF this ok] ok show ?thesis
    by (intro exI [of _ ?vs']) (simp add: last_voted_slot_def last_lockout_def list_last_def lockout_new_def)
qed


lemma last_voted_process_next:
  assumes "length (votes vs) \<le> MAX_LOCKOUT_HISTORY" and "newer_than_last vs s"
  shows "last_voted_slot (process_next_vote_slot vs s e cs t) = Some s"
proof -
  have last: "lv_slot (last (double_from d 0 (us @ [w]))) = lv_slot w" for d us w
  proof -
    have "map lv_slot (double_from d 0 (us @ [w])) = map lv_slot (us @ [w])" by (rule map_slot_double_from)
    moreover have "double_from d 0 (us @ [w]) \<noteq> []" by (metis length_double_from length_0_conv snoc_eq_iff_butlast)
    ultimately show ?thesis by (metis last_map last_snoc map_append list.map(2) list.map(1))
  qed
  have ne: "double_from d 0 (us @ [w]) \<noteq> []" for d us w
    by (metis length_double_from length_0_conv snoc_eq_iff_butlast)
  from assms(2) [unfolded newer_than_last_def] assms(1) show ?thesis
    by (rule process_next_vote_slot_cases [where e = e and cs = cs and t = t])
      (simp_all add: last_voted_slot_def last_lockout_def list_last_def ne last lockout_new_def)
qed

lemma newer_mono:
  assumes "length (votes vs) \<le> MAX_LOCKOUT_HISTORY"
    and "newer_than_last (process_next_vote_slot vs s' e cs t) s"
  shows "newer_than_last vs s"
proof (cases "newer_than_last vs s'")
  case True
  from last_voted_process_next [OF assms(1) True] assms(2) True show ?thesis
    by (auto simp: newer_than_last_def split: option.splits)
next
  case False
  with assms(2) show ?thesis by (simp add: newer_than_last_def process_next_vote_slot_def)
qed

lemma tower_process_next:
  assumes "length (votes vs) \<le> MAX_LOCKOUT_HISTORY"
  shows "set (tower (process_next_vote_slot vs s e cs t)) \<subseteq>
    set (tower vs) \<union> (if newer_than_last vs s then {s} else {})"
proof (cases "newer_than_last vs s")
  case True
  from True [unfolded newer_than_last_def] assms show ?thesis
  proof (cases rule: process_next_vote_slot_cases [where e = e and cs = cs and t = t])
    case (pop k landed)
    then show ?thesis using True
      by (auto simp: tower_def set_slots_double_from [unfolded image_def] lockout_new_def dest: in_set_takeD)
  next
    case (root v0 rest landed)
    then show ?thesis using True by (auto simp: tower_def lockout_new_def)
  qed
qed (simp add: newer_than_last_def process_next_vote_slot_def)


lemma tower_inv_length: "tower_inv vs \<Longrightarrow> length (votes vs) \<le> MAX_LOCKOUT_HISTORY"
  by (simp add: tower_inv_def tower_wf_def)

lemma process_slots:
  assumes "tower_inv vs"
  shows "tower_inv (fold (\<lambda>s vs. process_next_vote_slot vs s e cs t) ss vs) \<and>
    set (tower (fold (\<lambda>s vs. process_next_vote_slot vs s e cs t) ss vs)) \<subseteq>
      set (tower vs) \<union> {s \<in> set ss. newer_than_last vs s}"
  using assms
proof (induction ss arbitrary: vs)
  case (Cons s ss)
  note len = tower_inv_length [OF Cons.prems]
  note IH = Cons.IH [OF process_next_vote_slot_keeps_inv [OF Cons.prems, of s e cs t]]
  then show ?case
    using tower_process_next [OF len, of s e cs t] newer_mono [OF len, of s e cs t]
    by (auto split: if_splits)
qed simp

lemma process_slots_last:
  assumes "tower_inv vs" and "sorted_wrt (<) ss" and "ss \<noteq> []" and "newer_than_last vs (last ss)"
  shows "last_voted_slot (fold (\<lambda>s vs. process_next_vote_slot vs s e cs t) ss vs) = Some (last ss)"
  using assms
proof (induction ss arbitrary: vs)
  case (Cons s ss)
  let ?vs = "process_next_vote_slot vs s e cs t"
  note len = tower_inv_length [OF Cons.prems(1)]
  show ?case
  proof (cases "ss = []")
    case True
    with Cons.prems(4) last_voted_process_next [OF len] show ?thesis by simp
  next
    case False
    then have lt: "s < last ss" using Cons.prems(2) by auto
    have "newer_than_last ?vs (last ss)"
    proof (cases "newer_than_last vs s")
      case True
      then show ?thesis using last_voted_process_next [OF len True, of e cs t] lt
        by (simp add: newer_than_last_def)
    next
      case old: False
      then have "?vs = vs" by (simp add: newer_than_last_def process_next_vote_slot_def)
      then show ?thesis using Cons.prems(4) False by simp
    qed
    with Cons.IH [OF process_next_vote_slot_keeps_inv [OF Cons.prems(1)]] Cons.prems(2) False show ?thesis by simp
  qed
qed simp

lemma last_filter_ge:
  assumes "sorted_wrt (<) ss" and "filter (\<lambda>s. (n::nat) \<le> s) ss \<noteq> []"
  shows "last (filter (\<lambda>s. n \<le> s) ss) = last ss"
proof (cases ss rule: rev_cases)
  case (snoc xs x)
  have "n \<le> x"
  proof (rule ccontr)
    assume "\<not> n \<le> x"
    with assms(1) have "filter (\<lambda>s. n \<le> s) ss = []" by (auto simp: snoc sorted_wrt_append filter_empty_conv)
    with assms(2) show False by simp
  qed
  then show ?thesis by (simp add: snoc)
qed simp

text \<open>
  C18: an accepted vote keeps the tower invariant; every slot it adds was voted for, is newer than the
  last voted slot and is in the slot hashes; at least one of its slots is newer than the last voted slot;
  and if its slots are in strictly ascending order, the last of them becomes the last voted slot and is in
  the slot hashes with the voted hash.
\<close>

theorem process_vote_accepted:
  assumes inv: "tower_inv vs" and ok: "process_vote vs v sh e cs t = Ok vs'"
  shows "tower_inv vs' \<and>
    (\<forall>x \<in> set (tower vs'). x \<in> set (tower vs) \<or> x \<in> set (v_slots v) \<and> newer_than_last vs x \<and> known_slot sh x) \<and>
    (\<exists>x \<in> set (v_slots v). newer_than_last vs x) \<and>
    (sorted_wrt (<) (v_slots v) \<longrightarrow>
       last_voted_slot vs' = Some (last (v_slots v)) \<and> (last (v_slots v), v_hash v) \<in> set sh)"
proof -
  define ss where "ss = filter (\<lambda>s. (if sh = [] then 0 else fst (last sh)) \<le> s) (v_slots v)"
  from ok have ne: "ss \<noteq> []" and valid: "check_slots_are_valid vs ss (v_hash v) sh = Ok ()"
    and vs': "vs' = fold (\<lambda>s vs. process_next_vote_slot vs s e cs t) ss vs"
    by (auto simp: process_vote_def Let_def process_vote_unfiltered_def result_simps ss_def [symmetric] split: if_splits)
  note cs = check_slots_are_valid_Ok [OF valid ne] and newer = check_slots_are_valid_newer [OF valid]
  have sub: "set ss \<subseteq> set (v_slots v)" by (auto simp: ss_def)
  show ?thesis
  proof (intro conjI impI ballI)
    show "tower_inv vs'" using process_slots [OF inv] by (simp add: vs')
    show "x \<in> set (tower vs) \<or> x \<in> set (v_slots v) \<and> newer_than_last vs x \<and> known_slot sh x"
      if "x \<in> set (tower vs')" for x
      using that process_slots [OF inv, of e cs t ss] cs(1) sub by (auto simp: vs')
    show "\<exists>x \<in> set (v_slots v). newer_than_last vs x" using newer sub by blast
    assume "sorted_wrt (<) (v_slots v)"
    then have last: "last ss = last (v_slots v)" and sorted: "sorted_wrt (<) ss"
      using last_filter_ge ne sorted_wrt_filter by (auto simp: ss_def)
    from newer obtain x where x: "x \<in> set ss" "newer_than_last vs x" by blast
    have n: "newer_than_last vs (last ss)"
      using x sorted_wrt_last [OF sorted x(1)] by (auto simp: newer_than_last_def split: option.splits)
    show "last_voted_slot vs' = Some (last (v_slots v))"
      unfolding vs' last [symmetric] by (rule process_slots_last [OF inv sorted ne n])
    show "(last (v_slots v), v_hash v) \<in> set sh"
      using cs(2) n last by simp
  qed
qed

theorem process_vote_accepted_witness:
  "\<exists>vs'. process_vote vote_state_default (vote_new [1, 2] 9) [(2, 9), (1, 8)] 0 3 True = Ok vs' \<and>
     tower_inv vs' \<and> last_voted_slot vs' = Some 2"
proof -
  obtain vs' where ok: "process_vote vote_state_default (vote_new [1, 2] 9) [(2, 9), (1, 8)] 0 3 True = Ok vs'"
    by (simp add: process_vote_def vote_new_def process_vote_unfiltered_def check_slots_are_valid_def
        check_slots_loop.simps newer_than_last_def vote_state_default_def last_voted_slot_def
        last_lockout_def list_last_def)
  from process_vote_accepted [OF tower_inv_default ok] ok show ?thesis
    by (auto simp: vote_new_def newer_than_last_def vote_state_default_def last_voted_slot_def
        last_lockout_def list_last_def)
qed

end
