(* ===== verification/Transaction_Context.thy ===== *)
theory Transaction_Context
  imports Instruction_Error
begin

text \<open>
  \<^verbatim>\<open>sdk/src/transaction_context.rs\<close>: the accounts a transaction has loaded, the stack and trace of
  its instructions, and the guarded access of a program to an account (\<open>BorrowedAccount\<close>). The
  runtime relies on this file for its access control: whatever a program does, accounts change
  only through the operations below.

  The \<open>RefCell\<close> around an account is its borrow flag; a \<open>BorrowedAccount\<close> is the pair of indices it
  stands for and the instruction context it was borrowed in, and dropping it clears the flag.
  Operations return the new context. Where an operation has changed something before it fails
  (\<open>push\<close>, \<open>pop\<close>), the context is returned beside the outcome. Rent is the function from a data length
  to the minimum balance: the source computes it with a floating-point exemption threshold.
  Capacity and sharing of the byte buffers are not observable and are left out.
\<close>

type_synonym index_of_account = nat

abbreviation as_u16 :: "nat \<Rightarrow> nat" where "as_u16 n \<equiv> n mod 65536"

definition MAX_PERMITTED_DATA_LENGTH :: nat where "MAX_PERMITTED_DATA_LENGTH = 10485760"
definition MAX_PERMITTED_ACCOUNTS_DATA_ALLOCATIONS_PER_TRANSACTION :: int where
  "MAX_PERMITTED_ACCOUNTS_DATA_ALLOCATIONS_PER_TRANSACTION = int MAX_PERMITTED_DATA_LENGTH * 2"

record account =
  lamports :: nat
  data :: "byte list"
  owner :: pubkey
  executable :: bool
  rent_epoch :: epoch

record instruction_account =
  index_in_transaction :: index_of_account
  index_in_caller :: index_of_account
  index_in_callee :: index_of_account
  ia_is_signer :: bool
  ia_is_writable :: bool

record account_cell =
  cell_account :: account
  cell_borrowed :: bool

record transaction_accounts =
  cells :: "account_cell list"
  touched_flags :: "bool list"

record instruction_context =
  nesting_level :: nat
  lamport_sum :: nat
  program_accounts :: "index_of_account list"
  instruction_accounts :: "instruction_account list"
  instruction_data :: "byte list"

record rent =
  minimum_balance :: "nat \<Rightarrow> nat"

record transaction_context =
  account_keys :: "pubkey list"
  accounts :: transaction_accounts
  instruction_stack_capacity :: nat
  instruction_trace_capacity :: nat
  instruction_stack :: "nat list"
  instruction_trace :: "instruction_context list"
  return_data :: "pubkey \<times> byte list"
  resize_delta :: int
  tc_rent :: rent

record borrowed_account =
  ba_index_in_transaction :: index_of_account
  ba_index_in_instruction :: index_of_account
  ba_instruction_context :: instruction_context

definition list_get :: "'a list \<Rightarrow> nat \<Rightarrow> 'a option" where
  "list_get xs i = (if i < length xs then Some (xs ! i) else None)"

section \<open>Accounts of a transaction\<close>

definition transaction_accounts_new :: "account list \<Rightarrow> transaction_accounts" where
  "transaction_accounts_new as =
     \<lparr>cells = map (\<lambda>a. \<lparr>cell_account = a, cell_borrowed = False\<rparr>) as,
      touched_flags = replicate (length as) False\<rparr>"

definition ta_touch :: "transaction_accounts \<Rightarrow> index_of_account \<Rightarrow> (instruction_error, transaction_accounts) result" where
  "ta_touch ta i =
     (if i < length (touched_flags ta) then Ok (ta\<lparr>touched_flags := (touched_flags ta)[i := True]\<rparr>)
      else Err NotEnoughAccountKeys)"

definition touched_count :: "transaction_accounts \<Rightarrow> nat" where
  "touched_count ta = fold (\<lambda>t n. sat_add_u64 n (if t then 1 else 0)) (touched_flags ta) 0"

definition into_accounts :: "transaction_accounts \<Rightarrow> account list" where
  "into_accounts ta = map cell_account (cells ta)"

text \<open>\<open>try_borrow\<close> reads an account whose cell is not mutably borrowed.\<close>

definition ta_try_borrow :: "transaction_accounts \<Rightarrow> index_of_account \<Rightarrow> (instruction_error, account) result" where
  "ta_try_borrow ta i =
     rbind (ok_or MissingAccount (list_get (cells ta) i)) (\<lambda>c.
     if cell_borrowed c then Err AccountBorrowFailed else Ok (cell_account c))"

definition transaction_context_new ::
  "(pubkey \<times> account) list \<Rightarrow> rent \<Rightarrow> nat \<Rightarrow> nat \<Rightarrow> transaction_context" where
  "transaction_context_new tas r stack_capacity trace_capacity =
     \<lparr>account_keys = map fst tas, accounts = transaction_accounts_new (map snd tas),
      instruction_stack_capacity = stack_capacity, instruction_trace_capacity = trace_capacity,
      instruction_stack = [],
      instruction_trace = [\<lparr>nesting_level = 0, lamport_sum = 0, program_accounts = [],
                            instruction_accounts = [], instruction_data = []\<rparr>],
      return_data = (0, []), resize_delta = 0, tc_rent = r\<rparr>"

definition deconstruct_without_keys :: "transaction_context \<Rightarrow> (instruction_error, account list) result" where
  "deconstruct_without_keys tc =
     (if instruction_stack tc \<noteq> [] then Err CallDepth else Ok (into_accounts (accounts tc)))"

definition get_number_of_accounts :: "transaction_context \<Rightarrow> index_of_account" where
  "get_number_of_accounts tc = as_u16 (length (cells (accounts tc)))"

definition get_key_of_account_at_index :: "transaction_context \<Rightarrow> index_of_account \<Rightarrow> (instruction_error, pubkey) result" where
  "get_key_of_account_at_index tc i = ok_or NotEnoughAccountKeys (list_get (account_keys tc) i)"

definition get_account_at_index :: "transaction_context \<Rightarrow> index_of_account \<Rightarrow> (instruction_error, account_cell) result" where
  "get_account_at_index tc i = ok_or NotEnoughAccountKeys (list_get (cells (accounts tc)) i)"

fun position :: "('a \<Rightarrow> bool) \<Rightarrow> 'a list \<Rightarrow> nat option" where
  "position P [] = None"
| "position P (x # xs) = (if P x then Some 0 else map_option Suc (position P xs))"

definition find_index_of_account :: "transaction_context \<Rightarrow> pubkey \<Rightarrow> index_of_account option" where
  "find_index_of_account tc k = map_option as_u16 (position (\<lambda>key. key = k) (account_keys tc))"

definition tc_find_index_of_program_account :: "transaction_context \<Rightarrow> pubkey \<Rightarrow> index_of_account option" where
  "tc_find_index_of_program_account tc k =
     map_option (\<lambda>i. as_u16 (length (account_keys tc) - 1 - i))
       (position (\<lambda>key. key = k) (rev (account_keys tc)))"

section \<open>The stack and the trace of instructions\<close>

definition instruction_context_default :: instruction_context where
  "instruction_context_default =
     \<lparr>nesting_level = 0, lamport_sum = 0, program_accounts = [], instruction_accounts = [],
      instruction_data = []\<rparr>"

definition get_instruction_trace_length :: "transaction_context \<Rightarrow> nat" where
  "get_instruction_trace_length tc = sat_sub (length (instruction_trace tc)) 1"

definition get_instruction_context_at_index_in_trace ::
  "transaction_context \<Rightarrow> nat \<Rightarrow> (instruction_error, instruction_context) result" where
  "get_instruction_context_at_index_in_trace tc i = ok_or CallDepth (list_get (instruction_trace tc) i)"

definition get_instruction_context_at_nesting_level ::
  "transaction_context \<Rightarrow> nat \<Rightarrow> (instruction_error, instruction_context) result" where
  "get_instruction_context_at_nesting_level tc level =
     rbind (ok_or CallDepth (list_get (instruction_stack tc) level))
       (\<lambda>index_in_trace. get_instruction_context_at_index_in_trace tc index_in_trace)"

definition get_instruction_context_stack_height :: "transaction_context \<Rightarrow> nat" where
  "get_instruction_context_stack_height tc = length (instruction_stack tc)"

definition get_current_instruction_context :: "transaction_context \<Rightarrow> (instruction_error, instruction_context) result" where
  "get_current_instruction_context tc =
     rbind (ok_or CallDepth (checked_sub (get_instruction_context_stack_height tc) 1))
       (\<lambda>level. get_instruction_context_at_nesting_level tc level)"

definition get_number_of_program_accounts :: "instruction_context \<Rightarrow> index_of_account" where
  "get_number_of_program_accounts ic = as_u16 (length (program_accounts ic))"

definition get_number_of_instruction_accounts :: "instruction_context \<Rightarrow> index_of_account" where
  "get_number_of_instruction_accounts ic = as_u16 (length (instruction_accounts ic))"

definition get_index_of_instruction_account_in_transaction ::
  "instruction_context \<Rightarrow> index_of_account \<Rightarrow> (instruction_error, index_of_account) result" where
  "get_index_of_instruction_account_in_transaction ic i =
     rbind (ok_or NotEnoughAccountKeys (list_get (instruction_accounts ic) i))
       (\<lambda>ia. Ok (index_in_transaction ia))"

definition is_instruction_account_duplicate ::
  "instruction_context \<Rightarrow> index_of_account \<Rightarrow> (instruction_error, index_of_account option) result" where
  "is_instruction_account_duplicate ic i =
     rbind (ok_or NotEnoughAccountKeys (list_get (instruction_accounts ic) i))
       (\<lambda>ia. Ok (if index_in_callee ia = i then None else Some (index_in_callee ia)))"

text \<open>The loop of \<open>instruction_accounts_lamport_sum\<close> over the instruction accounts from index \<open>i\<close> on.\<close>

fun lamport_sum_loop ::
  "transaction_context \<Rightarrow> instruction_context \<Rightarrow> index_of_account list \<Rightarrow> nat \<Rightarrow> (instruction_error, nat) result" where
  "lamport_sum_loop tc ic [] acc = Ok acc"
| "lamport_sum_loop tc ic (i # is) acc =
     rbind (is_instruction_account_duplicate ic i) (\<lambda>dup.
     if dup \<noteq> None then lamport_sum_loop tc ic is acc
     else
       rbind (get_index_of_instruction_account_in_transaction ic i) (\<lambda>j.
       rbind (get_account_at_index tc j) (\<lambda>c.
       if cell_borrowed c then Err AccountBorrowOutstanding
       else
         rbind (ok_or ArithmeticOverflow
                 (let s = lamports (cell_account c) + acc in if s < 2 ^ 128 then Some s else None))
           (\<lambda>acc'. lamport_sum_loop tc ic is acc'))))"

definition instruction_accounts_lamport_sum ::
  "transaction_context \<Rightarrow> instruction_context \<Rightarrow> (instruction_error, nat) result" where
  "instruction_accounts_lamport_sum tc ic =
     lamport_sum_loop tc ic [0 ..< get_number_of_instruction_accounts ic] 0"

text \<open>Beginning an instruction: the checks on the callee and the caller, then the trace and stack.\<close>

definition push_checks :: "transaction_context \<Rightarrow> (instruction_error, nat) result" where
  "push_checks tc =
     rbind (ok_or CallDepth (if instruction_trace tc = [] then None else Some (last (instruction_trace tc))))
       (\<lambda>callee.
     rbind (instruction_accounts_lamport_sum tc callee) (\<lambda>callee_sum.
     if instruction_stack tc \<noteq> [] then
       rbind (get_current_instruction_context tc) (\<lambda>caller.
       rbind (instruction_accounts_lamport_sum tc caller) (\<lambda>current_sum.
       if lamport_sum caller \<noteq> current_sum then Err UnbalancedInstruction else Ok callee_sum))
     else Ok callee_sum))"

definition push :: "transaction_context \<Rightarrow> transaction_context \<times> (instruction_error, unit) result" where
  "push tc =
     (let level = get_instruction_context_stack_height tc in
      case push_checks tc of
        Err e \<Rightarrow> (tc, Err e)
      | Panic \<Rightarrow> (tc, Panic)
      | Ok callee_sum \<Rightarrow>
          let callee = (last (instruction_trace tc))\<lparr>nesting_level := level, lamport_sum := callee_sum\<rparr>;
              tc1 = tc\<lparr>instruction_trace := butlast (instruction_trace tc) @ [callee]\<rparr>;
              index_in_trace = get_instruction_trace_length tc1
          in if instruction_trace_capacity tc1 \<le> index_in_trace
             then (tc1, Err MaxInstructionTraceLengthExceeded)
             else
               let tc2 = tc1\<lparr>instruction_trace := instruction_trace tc1 @ [instruction_context_default]\<rparr>
               in if instruction_stack_capacity tc2 \<le> level then (tc2, Err CallDepth)
                  else (tc2\<lparr>instruction_stack := instruction_stack tc2 @ [index_in_trace]\<rparr>, Ok ()))"

fun check_program_accounts :: "transaction_context \<Rightarrow> index_of_account list \<Rightarrow> (instruction_error, unit) result" where
  "check_program_accounts tc [] = Ok ()"
| "check_program_accounts tc (i # is) =
     rbind (get_account_at_index tc i) (\<lambda>c.
     if cell_borrowed c then Err AccountBorrowOutstanding else check_program_accounts tc is)"

definition detect_unbalanced :: "transaction_context \<Rightarrow> (instruction_error, bool) result" where
  "detect_unbalanced tc =
     rbind (get_current_instruction_context tc) (\<lambda>ic.
     rbind (check_program_accounts tc (program_accounts ic)) (\<lambda>_.
     rbind (instruction_accounts_lamport_sum tc ic) (\<lambda>s. Ok (lamport_sum ic \<noteq> s))))"

definition pop :: "transaction_context \<Rightarrow> transaction_context \<times> (instruction_error, unit) result" where
  "pop tc =
     (if instruction_stack tc = [] then (tc, Err CallDepth)
      else (tc\<lparr>instruction_stack := butlast (instruction_stack tc)\<rparr>,
            rbind (detect_unbalanced tc) (\<lambda>unbalanced.
              if unbalanced then Err UnbalancedInstruction else Ok ())))"

definition get_return_data :: "transaction_context \<Rightarrow> pubkey \<times> byte list" where
  "get_return_data tc = return_data tc"

definition set_return_data :: "transaction_context \<Rightarrow> pubkey \<Rightarrow> byte list \<Rightarrow> transaction_context" where
  "set_return_data tc k d = tc\<lparr>return_data := (k, d)\<rparr>"

section \<open>Instruction contexts\<close>

definition configure ::
  "instruction_context \<Rightarrow> index_of_account list \<Rightarrow> instruction_account list \<Rightarrow> byte list \<Rightarrow> instruction_context" where
  "configure ic ps ias d = ic\<lparr>program_accounts := ps, instruction_accounts := ias, instruction_data := d\<rparr>"

definition get_stack_height :: "instruction_context \<Rightarrow> nat" where
  "get_stack_height ic = sat_add_u64 (nesting_level ic) 1"

definition check_number_of_instruction_accounts ::
  "instruction_context \<Rightarrow> index_of_account \<Rightarrow> (instruction_error, unit) result" where
  "check_number_of_instruction_accounts ic expected_at_least =
     (if get_number_of_instruction_accounts ic < expected_at_least then Err NotEnoughAccountKeys else Ok ())"

definition find_index_of_program_account ::
  "instruction_context \<Rightarrow> transaction_context \<Rightarrow> pubkey \<Rightarrow> index_of_account option" where
  "find_index_of_program_account ic tc k =
     map_option as_u16 (position (\<lambda>i. list_get (account_keys tc) i = Some k) (program_accounts ic))"

definition find_index_of_instruction_account ::
  "instruction_context \<Rightarrow> transaction_context \<Rightarrow> pubkey \<Rightarrow> index_of_account option" where
  "find_index_of_instruction_account ic tc k =
     map_option as_u16
       (position (\<lambda>ia. list_get (account_keys tc) (index_in_transaction ia) = Some k) (instruction_accounts ic))"

definition get_index_of_program_account_in_transaction ::
  "instruction_context \<Rightarrow> index_of_account \<Rightarrow> (instruction_error, index_of_account) result" where
  "get_index_of_program_account_in_transaction ic i =
     ok_or NotEnoughAccountKeys (list_get (program_accounts ic) i)"

definition get_last_program_key ::
  "instruction_context \<Rightarrow> transaction_context \<Rightarrow> (instruction_error, pubkey) result" where
  "get_last_program_key ic tc =
     rbind (get_index_of_program_account_in_transaction ic (sat_sub (get_number_of_program_accounts ic) 1))
       (\<lambda>i. get_key_of_account_at_index tc i)"

definition set_borrowed :: "transaction_context \<Rightarrow> index_of_account \<Rightarrow> bool \<Rightarrow> transaction_context" where
  "set_borrowed tc i b =
     tc\<lparr>accounts := (accounts tc)
         \<lparr>cells := (cells (accounts tc))[i := (cells (accounts tc) ! i)\<lparr>cell_borrowed := b\<rparr>]\<rparr>\<rparr>"

definition try_borrow_account ::
  "instruction_context \<Rightarrow> transaction_context \<Rightarrow> index_of_account \<Rightarrow> index_of_account \<Rightarrow>
     (instruction_error, borrowed_account \<times> transaction_context) result" where
  "try_borrow_account ic tc i index_in_instruction =
     rbind (ok_or MissingAccount (list_get (cells (accounts tc)) i)) (\<lambda>c.
     if cell_borrowed c then Err AccountBorrowFailed
     else Ok (\<lparr>ba_index_in_transaction = i, ba_index_in_instruction = index_in_instruction,
               ba_instruction_context = ic\<rparr>, set_borrowed tc i True))"

definition drop_borrow :: "borrowed_account \<Rightarrow> transaction_context \<Rightarrow> transaction_context" where
  "drop_borrow ba tc = set_borrowed tc (ba_index_in_transaction ba) False"

definition try_borrow_program_account ::
  "instruction_context \<Rightarrow> transaction_context \<Rightarrow> index_of_account \<Rightarrow>
     (instruction_error, borrowed_account \<times> transaction_context) result" where
  "try_borrow_program_account ic tc program_account_index =
     rbind (get_index_of_program_account_in_transaction ic program_account_index) (\<lambda>i.
     try_borrow_account ic tc i program_account_index)"

definition try_borrow_last_program_account ::
  "instruction_context \<Rightarrow> transaction_context \<Rightarrow>
     (instruction_error, borrowed_account \<times> transaction_context) result" where
  "try_borrow_last_program_account ic tc =
     try_borrow_program_account ic tc (sat_sub (get_number_of_program_accounts ic) 1)"

definition try_borrow_instruction_account ::
  "instruction_context \<Rightarrow> transaction_context \<Rightarrow> index_of_account \<Rightarrow>
     (instruction_error, borrowed_account \<times> transaction_context) result" where
  "try_borrow_instruction_account ic tc instruction_account_index =
     rbind (get_index_of_instruction_account_in_transaction ic instruction_account_index) (\<lambda>i.
     try_borrow_account ic tc i (sat_add_u16 (get_number_of_program_accounts ic) instruction_account_index))"

definition is_instruction_account_signer ::
  "instruction_context \<Rightarrow> index_of_account \<Rightarrow> (instruction_error, bool) result" where
  "is_instruction_account_signer ic i =
     rbind (ok_or MissingAccount (list_get (instruction_accounts ic) i)) (\<lambda>ia. Ok (ia_is_signer ia))"

definition is_instruction_account_writable ::
  "instruction_context \<Rightarrow> index_of_account \<Rightarrow> (instruction_error, bool) result" where
  "is_instruction_account_writable ic i =
     rbind (ok_or MissingAccount (list_get (instruction_accounts ic) i)) (\<lambda>ia. Ok (ia_is_writable ia))"

fun get_signers_from ::
  "transaction_context \<Rightarrow> instruction_account list \<Rightarrow> pubkey set \<Rightarrow> (instruction_error, pubkey set) result" where
  "get_signers_from tc [] acc = Ok acc"
| "get_signers_from tc (ia # ias) acc =
     (if ia_is_signer ia then
        rbind (get_key_of_account_at_index tc (index_in_transaction ia))
          (\<lambda>k. get_signers_from tc ias (insert k acc))
      else get_signers_from tc ias acc)"

definition get_signers :: "instruction_context \<Rightarrow> transaction_context \<Rightarrow> (instruction_error, pubkey set) result" where
  "get_signers ic tc = get_signers_from tc (instruction_accounts ic) {}"

section \<open>Borrowed accounts\<close>

definition ba_account :: "borrowed_account \<Rightarrow> transaction_context \<Rightarrow> account" where
  "ba_account ba tc = cell_account (cells (accounts tc) ! ba_index_in_transaction ba)"

definition ba_put :: "borrowed_account \<Rightarrow> transaction_context \<Rightarrow> account \<Rightarrow> transaction_context" where
  "ba_put ba tc a =
     (let i = ba_index_in_transaction ba in
      tc\<lparr>accounts := (accounts tc)
          \<lparr>cells := (cells (accounts tc))[i := (cells (accounts tc) ! i)\<lparr>cell_account := a\<rparr>]\<rparr>\<rparr>)"

definition get_key :: "borrowed_account \<Rightarrow> transaction_context \<Rightarrow> (instruction_error, pubkey) result" where
  "get_key ba tc =
     (case get_key_of_account_at_index tc (ba_index_in_transaction ba) of Ok k \<Rightarrow> Ok k | _ \<Rightarrow> Panic)"

definition get_owner :: "borrowed_account \<Rightarrow> transaction_context \<Rightarrow> pubkey" where
  "get_owner ba tc = owner (ba_account ba tc)"

definition get_lamports :: "borrowed_account \<Rightarrow> transaction_context \<Rightarrow> nat" where
  "get_lamports ba tc = lamports (ba_account ba tc)"

definition get_data :: "borrowed_account \<Rightarrow> transaction_context \<Rightarrow> byte list" where
  "get_data ba tc = data (ba_account ba tc)"

definition is_executable :: "borrowed_account \<Rightarrow> transaction_context \<Rightarrow> bool" where
  "is_executable ba tc = executable (ba_account ba tc)"

definition is_signer :: "borrowed_account \<Rightarrow> bool" where
  "is_signer ba =
     (let ic = ba_instruction_context ba in
      if ba_index_in_instruction ba < get_number_of_program_accounts ic then False
      else case is_instruction_account_signer ic
                  (sat_sub (ba_index_in_instruction ba) (get_number_of_program_accounts ic)) of
          Ok b \<Rightarrow> b | _ \<Rightarrow> False)"

definition is_writable :: "borrowed_account \<Rightarrow> bool" where
  "is_writable ba =
     (let ic = ba_instruction_context ba in
      if ba_index_in_instruction ba < get_number_of_program_accounts ic then False
      else case is_instruction_account_writable ic
                  (sat_sub (ba_index_in_instruction ba) (get_number_of_program_accounts ic)) of
          Ok b \<Rightarrow> b | _ \<Rightarrow> False)"

definition is_owned_by_current_program :: "borrowed_account \<Rightarrow> transaction_context \<Rightarrow> bool" where
  "is_owned_by_current_program ba tc =
     (case get_last_program_key (ba_instruction_context ba) tc of Ok k \<Rightarrow> k = get_owner ba tc | _ \<Rightarrow> False)"

text \<open>\<open>is_zeroed\<close> compares chunks of 1024 bytes and the remainder with zeros.\<close>

function is_zeroed :: "byte list \<Rightarrow> bool" where
  "is_zeroed buf =
     (if length buf < 1024 then buf = replicate (length buf) 0
      else take 1024 buf = replicate 1024 0 \<and> is_zeroed (drop 1024 buf))"
  by pat_completeness auto
termination
  by (relation "measure length") auto

declare is_zeroed.simps [simp del]

definition touch :: "borrowed_account \<Rightarrow> transaction_context \<Rightarrow> (instruction_error, transaction_context) result" where
  "touch ba tc =
     rbind (ta_touch (accounts tc) (ba_index_in_transaction ba)) (\<lambda>ta. Ok (tc\<lparr>accounts := ta\<rparr>))"

definition set_owner :: "borrowed_account \<Rightarrow> transaction_context \<Rightarrow> pubkey \<Rightarrow> (instruction_error, transaction_context) result" where
  "set_owner ba tc k =
     (if \<not> is_owned_by_current_program ba tc then Err ModifiedProgramId
      else if \<not> is_writable ba then Err ModifiedProgramId
      else if is_executable ba tc then Err ModifiedProgramId
      else if \<not> is_zeroed (get_data ba tc) then Err ModifiedProgramId
      else if get_owner ba tc = k then Ok tc
      else rbind (touch ba tc) (\<lambda>tc'. Ok (ba_put ba tc' ((ba_account ba tc')\<lparr>owner := k\<rparr>))))"

definition set_lamports :: "borrowed_account \<Rightarrow> transaction_context \<Rightarrow> nat \<Rightarrow> (instruction_error, transaction_context) result" where
  "set_lamports ba tc l =
     (if \<not> is_owned_by_current_program ba tc \<and> l < get_lamports ba tc then Err ExternalAccountLamportSpend
      else if \<not> is_writable ba then Err ReadonlyLamportChange
      else if is_executable ba tc then Err ExecutableLamportChange
      else if get_lamports ba tc = l then Ok tc
      else rbind (touch ba tc) (\<lambda>tc'. Ok (ba_put ba tc' ((ba_account ba tc')\<lparr>lamports := l\<rparr>))))"

definition checked_add_lamports ::
  "borrowed_account \<Rightarrow> transaction_context \<Rightarrow> nat \<Rightarrow> (instruction_error, transaction_context) result" where
  "checked_add_lamports ba tc l =
     rbind (ok_or ArithmeticOverflow (checked_add_u64 (get_lamports ba tc) l)) (\<lambda>l'. set_lamports ba tc l')"

definition checked_sub_lamports ::
  "borrowed_account \<Rightarrow> transaction_context \<Rightarrow> nat \<Rightarrow> (instruction_error, transaction_context) result" where
  "checked_sub_lamports ba tc l =
     rbind (ok_or ArithmeticOverflow (checked_sub (get_lamports ba tc) l)) (\<lambda>l'. set_lamports ba tc l')"

definition can_data_be_changed :: "borrowed_account \<Rightarrow> transaction_context \<Rightarrow> (instruction_error, unit) result" where
  "can_data_be_changed ba tc =
     (if is_executable ba tc then Err ExecutableDataModified
      else if \<not> is_writable ba then Err ReadonlyDataModified
      else if \<not> is_owned_by_current_program ba tc then Err ExternalAccountDataModified
      else Ok ())"

definition can_data_be_resized ::
  "borrowed_account \<Rightarrow> transaction_context \<Rightarrow> nat \<Rightarrow> (instruction_error, unit) result" where
  "can_data_be_resized ba tc new_length =
     (let old_length = length (get_data ba tc) in
      if new_length \<noteq> old_length \<and> \<not> is_owned_by_current_program ba tc then Err AccountDataSizeChanged
      else if MAX_PERMITTED_DATA_LENGTH < new_length then Err InvalidRealloc
      else
        let length_delta = sat_i64 (as_i64 new_length - as_i64 old_length)
        in if MAX_PERMITTED_ACCOUNTS_DATA_ALLOCATIONS_PER_TRANSACTION < sat_i64 (resize_delta tc + length_delta)
           then Err MaxAccountsDataAllocationsExceeded else Ok ())"

definition update_accounts_resize_delta :: "borrowed_account \<Rightarrow> transaction_context \<Rightarrow> nat \<Rightarrow> transaction_context" where
  "update_accounts_resize_delta ba tc new_len =
     tc\<lparr>resize_delta :=
         sat_i64 (resize_delta tc + sat_i64 (as_i64 new_len - as_i64 (length (get_data ba tc))))\<rparr>"

text \<open>The bytes a caller writes through the slice that \<open>get_data_mut\<close> returns, of the same length.\<close>

definition get_data_mut ::
  "borrowed_account \<Rightarrow> transaction_context \<Rightarrow> (byte list \<Rightarrow> byte list) \<Rightarrow> (instruction_error, transaction_context) result" where
  "get_data_mut ba tc write =
     rbind (can_data_be_changed ba tc) (\<lambda>_.
     rbind (touch ba tc) (\<lambda>tc'.
     let old = get_data ba tc'; new = write old
     in Ok (ba_put ba tc' ((ba_account ba tc')\<lparr>data := take (length old) new @ drop (length new) old\<rparr>))))"

definition set_data_from_slice ::
  "borrowed_account \<Rightarrow> transaction_context \<Rightarrow> byte list \<Rightarrow> (instruction_error, transaction_context) result" where
  "set_data_from_slice ba tc d =
     rbind (can_data_be_resized ba tc (length d)) (\<lambda>_.
     rbind (can_data_be_changed ba tc) (\<lambda>_.
     rbind (touch ba tc) (\<lambda>tc'.
     let tc'' = update_accounts_resize_delta ba tc' (length d)
     in Ok (ba_put ba tc'' ((ba_account ba tc'')\<lparr>data := d\<rparr>)))))"

definition set_data_length ::
  "borrowed_account \<Rightarrow> transaction_context \<Rightarrow> nat \<Rightarrow> (instruction_error, transaction_context) result" where
  "set_data_length ba tc n =
     rbind (can_data_be_resized ba tc n) (\<lambda>_.
     rbind (can_data_be_changed ba tc) (\<lambda>_.
     if length (get_data ba tc) = n then Ok tc
     else
       rbind (touch ba tc) (\<lambda>tc'.
       let tc'' = update_accounts_resize_delta ba tc' n; d = get_data ba tc''
       in Ok (ba_put ba tc'' ((ba_account ba tc'')\<lparr>data := take n d @ replicate (n - length d) 0\<rparr>)))))"

definition extend_from_slice ::
  "borrowed_account \<Rightarrow> transaction_context \<Rightarrow> byte list \<Rightarrow> (instruction_error, transaction_context) result" where
  "extend_from_slice ba tc d =
     (let new_len = sat_add_u64 (length (get_data ba tc)) (length d) in
     rbind (can_data_be_resized ba tc new_len) (\<lambda>_.
     rbind (can_data_be_changed ba tc) (\<lambda>_.
     if d = [] then Ok tc
     else
       rbind (touch ba tc) (\<lambda>tc'.
       let tc'' = update_accounts_resize_delta ba tc' new_len
       in Ok (ba_put ba tc'' ((ba_account ba tc'')\<lparr>data := get_data ba tc'' @ d\<rparr>))))))"

definition is_exempt :: "rent \<Rightarrow> nat \<Rightarrow> nat \<Rightarrow> bool" where
  "is_exempt r balance data_len \<longleftrightarrow> minimum_balance r data_len \<le> balance"

definition is_rent_exempt_at_data_length :: "borrowed_account \<Rightarrow> transaction_context \<Rightarrow> nat \<Rightarrow> bool" where
  "is_rent_exempt_at_data_length ba tc n = is_exempt (tc_rent tc) (get_lamports ba tc) n"

definition set_executable ::
  "borrowed_account \<Rightarrow> transaction_context \<Rightarrow> bool \<Rightarrow> (instruction_error, transaction_context) result" where
  "set_executable ba tc b =
     (if \<not> is_exempt (tc_rent tc) (get_lamports ba tc) (length (get_data ba tc)) then Err ExecutableAccountNotRentExempt
      else if \<not> is_owned_by_current_program ba tc then Err ExecutableModified
      else if \<not> is_writable ba then Err ExecutableModified
      else if is_executable ba tc \<and> \<not> b then Err ExecutableModified
      else if is_executable ba tc = b then Ok tc
      else rbind (touch ba tc) (\<lambda>tc'. Ok (ba_put ba tc' ((ba_account ba tc')\<lparr>executable := b\<rparr>))))"

text \<open>
  Typed access to the data. The byte format of a state is that of the \<open>bincode\<close> crate and a
  parameter: \<open>enc\<close> gives the bytes of a state and \<open>dec\<close> reads a state off the beginning of a buffer.
\<close>

record 'a codec =
  enc :: "'a \<Rightarrow> byte list"
  dec :: "byte list \<Rightarrow> 'a option"

definition get_state :: "'a codec \<Rightarrow> borrowed_account \<Rightarrow> transaction_context \<Rightarrow> (instruction_error, 'a) result" where
  "get_state c ba tc = ok_or InvalidAccountData (dec c (get_data ba tc))"

definition set_state ::
  "'a codec \<Rightarrow> borrowed_account \<Rightarrow> transaction_context \<Rightarrow> 'a \<Rightarrow> (instruction_error, transaction_context) result" where
  "set_state c ba tc st =
     rbind (get_data_mut ba tc (\<lambda>d. if length (enc c st) \<le> length d then enc c st else [])) (\<lambda>tc'.
     if length (get_data ba tc') < length (enc c st) then Err AccountDataTooSmall else Ok tc')"

record execution_record =
  er_accounts :: "(pubkey \<times> account) list"
  er_return_data :: "pubkey \<times> byte list"
  er_touched_account_count :: nat
  er_accounts_resize_delta :: int

definition execution_record_from :: "transaction_context \<Rightarrow> execution_record" where
  "execution_record_from tc =
     \<lparr>er_accounts = zip (account_keys tc) (into_accounts (accounts tc)),
      er_return_data = return_data tc,
      er_touched_account_count = touched_count (accounts tc),
      er_accounts_resize_delta = resize_delta tc\<rparr>"

end
