(* ===== verification/Epoch_Schedule.thy ===== *)
theory Epoch_Schedule
  imports Prelude
begin

text \<open>
  \<^verbatim>\<open>sdk/epoch-schedule/src/lib.rs\<close>: the division of slots into epochs, with short epochs that double
  in length during the warmup. The lemmas show that the saturating arithmetic is exact up to slot
  \<open>2 ^ 62\<close> for epochs of at most \<open>2 ^ 40\<close> slots, and that the epochs partition the slots.
\<close>

definition MINIMUM_SLOTS_PER_EPOCH :: nat where "MINIMUM_SLOTS_PER_EPOCH = 32"
definition DEFAULT_SLOTS_PER_EPOCH :: nat where "DEFAULT_SLOTS_PER_EPOCH = 432000"
definition DEFAULT_LEADER_SCHEDULE_SLOT_OFFSET :: nat where
  "DEFAULT_LEADER_SCHEDULE_SLOT_OFFSET = DEFAULT_SLOTS_PER_EPOCH"

section \<open>Powers of two\<close>

text \<open>Number of bits, \<open>trailing_zeros\<close>, \<open>next_power_of_two\<close> (which wraps to 0) and \<open>saturating_pow\<close>.\<close>

fun bit_len :: "nat \<Rightarrow> nat" where
  "bit_len n = (if n = 0 then 0 else Suc (bit_len (n div 2)))"

declare bit_len.simps [simp del]

function trailing_zeros :: "nat \<Rightarrow> nat" where
  "trailing_zeros n = (if n = 0 then 64 else if odd n then 0 else Suc (trailing_zeros (n div 2)))"
  by pat_completeness auto
termination
  by (relation "measure id") auto

declare trailing_zeros.simps [simp del]

definition next_power_of_two :: "nat \<Rightarrow> nat" where
  "next_power_of_two n = 2 ^ bit_len (n - 1) mod 2 ^ 64"

definition sat_pow_u64 :: "nat \<Rightarrow> nat \<Rightarrow> nat" where
  "sat_pow_u64 b e = min (b ^ e) u64_max"

section \<open>The schedule\<close>

record epoch_schedule =
  slots_per_epoch :: nat
  leader_schedule_slot_offset :: nat
  warmup :: bool
  first_normal_epoch :: nat
  first_normal_slot :: nat

definition epoch_schedule_custom :: "nat \<Rightarrow> nat \<Rightarrow> bool \<Rightarrow> ('e, epoch_schedule) result" where
  "epoch_schedule_custom spe offset w =
     rbind (assert_that (MINIMUM_SLOTS_PER_EPOCH \<le> spe)) (\<lambda>_.
     let (fne, fns) =
       (if w then
          let npot = next_power_of_two spe
          in (sat_sub (trailing_zeros npot) (trailing_zeros MINIMUM_SLOTS_PER_EPOCH),
              sat_sub npot MINIMUM_SLOTS_PER_EPOCH)
        else (0, 0))
     in Ok \<lparr>slots_per_epoch = spe, leader_schedule_slot_offset = offset, warmup = w,
            first_normal_epoch = fne, first_normal_slot = fns\<rparr>)"

definition epoch_schedule_new :: "nat \<Rightarrow> ('e, epoch_schedule) result" where
  "epoch_schedule_new spe = epoch_schedule_custom spe spe True"

definition epoch_schedule_without_warmup :: "('e, epoch_schedule) result" where
  "epoch_schedule_without_warmup =
     epoch_schedule_custom DEFAULT_SLOTS_PER_EPOCH DEFAULT_LEADER_SCHEDULE_SLOT_OFFSET False"

definition get_slots_in_epoch :: "epoch_schedule \<Rightarrow> epoch \<Rightarrow> nat" where
  "get_slots_in_epoch es e =
     (if e < first_normal_epoch es
      then sat_pow_u64 2 (sat_add_u32 (e mod 2 ^ 32) (trailing_zeros MINIMUM_SLOTS_PER_EPOCH))
      else slots_per_epoch es)"

definition get_epoch_and_slot_index :: "epoch_schedule \<Rightarrow> slot \<Rightarrow> epoch \<times> nat" where
  "get_epoch_and_slot_index es s =
     (if s < first_normal_slot es then
        let e = sat_sub (sat_sub
                  (trailing_zeros (next_power_of_two (sat_add_u64 (sat_add_u64 s MINIMUM_SLOTS_PER_EPOCH) 1)))
                  (trailing_zeros MINIMUM_SLOTS_PER_EPOCH)) 1;
            epoch_len = sat_pow_u64 2 (sat_add_u32 e (trailing_zeros MINIMUM_SLOTS_PER_EPOCH))
        in (e, sat_sub s (sat_sub epoch_len MINIMUM_SLOTS_PER_EPOCH))
      else
        let normal_slot_index = sat_sub s (first_normal_slot es);
            normal_epoch_index = normal_slot_index div slots_per_epoch es
        in (sat_add_u64 (first_normal_epoch es) normal_epoch_index,
            if slots_per_epoch es = 0 then 0 else normal_slot_index mod slots_per_epoch es))"

definition get_epoch :: "epoch_schedule \<Rightarrow> slot \<Rightarrow> epoch" where
  "get_epoch es s = fst (get_epoch_and_slot_index es s)"

definition get_leader_schedule_epoch :: "epoch_schedule \<Rightarrow> slot \<Rightarrow> epoch" where
  "get_leader_schedule_epoch es s =
     (if s < first_normal_slot es then sat_add_u64 (fst (get_epoch_and_slot_index es s)) 1
      else
        let new_slots = sat_sub s (first_normal_slot es);
            new_first_normal_leader_schedule_slot = sat_add_u64 new_slots (leader_schedule_slot_offset es)
        in sat_add_u64 (first_normal_epoch es)
             (new_first_normal_leader_schedule_slot div slots_per_epoch es))"

definition get_first_slot_in_epoch :: "epoch_schedule \<Rightarrow> epoch \<Rightarrow> slot" where
  "get_first_slot_in_epoch es e =
     (if e \<le> first_normal_epoch es
      then sat_mul_u64 (sat_sub (sat_pow_u64 2 (e mod 2 ^ 32)) 1) MINIMUM_SLOTS_PER_EPOCH
      else sat_add_u64 (sat_mul_u64 (sat_sub e (first_normal_epoch es)) (slots_per_epoch es)) (first_normal_slot es))"

definition get_last_slot_in_epoch :: "epoch_schedule \<Rightarrow> epoch \<Rightarrow> slot" where
  "get_last_slot_in_epoch es e =
     sat_sub (sat_add_u64 (get_first_slot_in_epoch es e) (get_slots_in_epoch es e)) 1"

section \<open>Lemmas on powers of two\<close>

lemma bit_len_bounds: "n < 2 ^ bit_len n \<and> (0 < n \<longrightarrow> 2 ^ (bit_len n - 1) \<le> n)"
proof (induction n rule: bit_len.induct)
  case (1 n)
  show ?case
  proof (cases "n = 0")
    case False
    note IH = "1.IH" [OF False]
    have eq: "bit_len n = Suc (bit_len (n div 2))" using False by (subst bit_len.simps) simp
    show ?thesis
    proof (cases "n div 2 = 0")
      case True
      then have "n = 1" using False by auto
      then show ?thesis by (simp add: bit_len.simps)
    next
      case big: False
      then have "bit_len (n div 2) = Suc (bit_len (n div 2) - 1)" by (subst (1) bit_len.simps) (simp add: bit_len.simps [of "n div 2"])
      then obtain k where k: "bit_len (n div 2) = Suc k" by blast
      have "n < 2 * 2 ^ bit_len (n div 2)" using IH by linarith
      moreover have "2 * 2 ^ k \<le> n" using IH big k by auto
      ultimately show ?thesis by (simp add: eq k)
    qed
  qed (simp add: bit_len.simps)
qed

lemma bit_len_unique: "2 ^ k \<le> n \<Longrightarrow> n < 2 ^ Suc k \<Longrightarrow> bit_len n = Suc k"
proof -
  assume a: "2 ^ k \<le> n" "n < 2 ^ Suc k"
  have "0 < n" using a(1) by (cases n) simp_all
  with bit_len_bounds [of n] have b: "n < 2 ^ bit_len n" "2 ^ (bit_len n - 1) \<le> n" by auto
  from a(1) b(1) have "(2::nat) ^ k < 2 ^ bit_len n" by (rule le_less_trans)
  then have "k < bit_len n" by simp
  moreover from b(2) a(2) have "(2::nat) ^ (bit_len n - 1) < 2 ^ Suc k" by (rule le_less_trans)
  then have "bit_len n - 1 < Suc k" by (simp only: power_strict_increasing_iff one_less_numeral_iff semiring_norm)
  ultimately show ?thesis by simp
qed

lemma trailing_zeros_power [simp]: "trailing_zeros (2 ^ k) = k"
  by (induction k) (subst trailing_zeros.simps; simp)+

lemma trailing_zeros_32 [simp]: "trailing_zeros 32 = 5"
  using trailing_zeros_power [of 5] by simp


lemma power_of_two_u64: "k < 64 \<Longrightarrow> (2::nat) ^ k mod 2 ^ 64 = 2 ^ k"
proof -
  assume "k < 64"
  then have "(2::nat) ^ k < 2 ^ 64" by (rule power_strict_increasing) simp
  then show ?thesis by simp
qed

lemma sat_pow_u64_exact: "k < 64 \<Longrightarrow> sat_pow_u64 2 k = 2 ^ k"
proof -
  assume "k < 64"
  then have "(2::nat) ^ k < 2 ^ 64" by (rule power_strict_increasing) simp
  then show ?thesis by (simp add: sat_pow_u64_def)
qed

section \<open>Epochs partition the slots\<close>

text \<open>A schedule as \<open>custom\<close> builds it, with epochs of at most \<open>2 ^ 40\<close> slots.\<close>

definition schedule_wf :: "epoch_schedule \<Rightarrow> bool" where
  "schedule_wf es \<longleftrightarrow>
     32 \<le> slots_per_epoch es \<and> slots_per_epoch es \<le> 2 ^ 40 \<and> first_normal_epoch es \<le> 35 \<and>
     first_normal_slot es = 2 ^ (first_normal_epoch es + 5) - 32"

lemma custom_wf:
  assumes "epoch_schedule_custom spe offset w = Ok es" and "spe \<le> 2 ^ 40"
  shows "schedule_wf es"
proof -
  from assms(1) have spe: "32 \<le> spe"
    by (auto simp: epoch_schedule_custom_def result_simps MINIMUM_SLOTS_PER_EPOCH_def)
  let ?L = "bit_len (spe - 1)"
  have b: "spe - 1 < 2 ^ ?L" "2 ^ (?L - 1) \<le> spe - 1" using bit_len_bounds [of "spe - 1"] spe by auto
  have "(2::nat) ^ 4 < 2 ^ ?L" using b(1) spe by simp
  then have L5: "5 \<le> ?L" using power_less_imp_less_exp [of "2::nat" 4 ?L] by simp
  have "(2::nat) ^ (?L - 1) < 2 ^ 40" using b(2) spe assms(2) by linarith
  then have L40: "?L \<le> 40" using power_less_imp_less_exp [of "2::nat" "?L - 1" 40] by simp
  then have npot: "next_power_of_two spe = 2 ^ ?L" unfolding next_power_of_two_def by (intro power_of_two_u64) simp
  show ?thesis
    using assms spe L5 L40
    by (auto simp: epoch_schedule_custom_def result_simps schedule_wf_def npot MINIMUM_SLOTS_PER_EPOCH_def
        Let_def assert_that_def split: if_splits)
qed

text \<open>The lengths and starts of the epochs, with the arithmetic exact.\<close>

lemma slots_in_epoch_eq:
  assumes "schedule_wf es"
  shows "get_slots_in_epoch es e = (if e < first_normal_epoch es then 2 ^ (e + 5) else slots_per_epoch es)"
proof (cases "e < first_normal_epoch es")
  case True
  then have "e < 35" using assms by (simp add: schedule_wf_def)
  then show ?thesis
    using True by (simp add: get_slots_in_epoch_def MINIMUM_SLOTS_PER_EPOCH_def sat_add_u32_def sat_pow_u64_exact)
qed (simp add: get_slots_in_epoch_def)

lemma first_slot_eq:
  assumes wf: "schedule_wf es" and e: "(e - first_normal_epoch es) * slots_per_epoch es \<le> 2 ^ 62"
  shows "get_first_slot_in_epoch es e =
    (if e \<le> first_normal_epoch es then 2 ^ (e + 5) - 32
     else first_normal_slot es + (e - first_normal_epoch es) * slots_per_epoch es)"
proof (cases "e \<le> first_normal_epoch es")
  case True
  then have e: "e \<le> 35" using wf by (simp add: schedule_wf_def)
  then have "(2::nat) ^ e \<le> 2 ^ 35" by (intro power_increasing) auto
  then show ?thesis
    using True e by (simp add: get_first_slot_in_epoch_def MINIMUM_SLOTS_PER_EPOCH_def sat_pow_u64_exact
        sat_mul_u64_def diff_mult_distrib power_add)
next
  case False
  have "(2::nat) ^ (first_normal_epoch es + 5) \<le> 2 ^ 40"
    using wf by (intro power_increasing) (auto simp: schedule_wf_def)
  then show ?thesis
    using False wf e by (simp add: get_first_slot_in_epoch_def sat_mul_u64_def sat_add_u64_def schedule_wf_def)
qed

lemma get_epoch_warmup:
  assumes wf: "schedule_wf es" and s: "s < first_normal_slot es"
  obtains m where "get_epoch_and_slot_index es s = (m, s + 32 - 2 ^ (m + 5))" "m < first_normal_epoch es"
    "2 ^ (m + 5) \<le> s + 32" "s + 32 < 2 ^ (m + 6)"
proof -
  have fns: "s + 32 < 2 ^ (first_normal_epoch es + 5)" using wf s by (simp add: schedule_wf_def)
  have le: "(2::nat) ^ (first_normal_epoch es + 5) \<le> 2 ^ 40"
    using wf by (intro power_increasing) (auto simp: schedule_wf_def)
  let ?L = "bit_len (s + 32)"
  have b: "s + 32 < 2 ^ ?L" "2 ^ (?L - 1) \<le> s + 32" using bit_len_bounds [of "s + 32"] by auto
  have "(2::nat) ^ 5 < 2 ^ ?L" using b(1) by simp
  then have "6 \<le> ?L" using power_less_imp_less_exp [of "2::nat" 5 ?L] by simp
  then obtain m where m: "?L = m + 6" by (metis add.commute le_Suc_ex)
  have lo: "2 ^ (m + 5) \<le> s + 32" using b(2) by (simp add: m add.commute)
  then have "(2::nat) ^ (m + 5) < 2 ^ (first_normal_epoch es + 5)" using fns by (rule le_less_trans)
  then have "m + 5 < first_normal_epoch es + 5" by (simp only: power_strict_increasing_iff one_less_numeral_iff semiring_norm)
  then have mf: "m < first_normal_epoch es" by simp
  then have m35: "m < 35" using wf by (simp add: schedule_wf_def)
  have "sat_add_u64 (sat_add_u64 s MINIMUM_SLOTS_PER_EPOCH) 1 - 1 = s + 32"
    using fns le by (simp add: sat_add_u64_def MINIMUM_SLOTS_PER_EPOCH_def)
  then have npot: "next_power_of_two (sat_add_u64 (sat_add_u64 s MINIMUM_SLOTS_PER_EPOCH) 1) = 2 ^ (m + 6)"
    unfolding next_power_of_two_def m [symmetric] by (simp only:) (rule power_of_two_u64, use m m35 in simp)
  have len: "sat_pow_u64 2 (sat_add_u32 m 5) = 2 ^ (m + 5)"
    using m35 by (simp add: sat_add_u32_def sat_pow_u64_exact)
  have "get_epoch_and_slot_index es s = (m, s - (2 ^ (m + 5) - 32))"
    using s unfolding get_epoch_and_slot_index_def npot by (simp add: Let_def MINIMUM_SLOTS_PER_EPOCH_def len)
  moreover have "(32::nat) \<le> 2 ^ (m + 5)" by (simp add: power_add)
  ultimately have "get_epoch_and_slot_index es s = (m, s + 32 - 2 ^ (m + 5))" by simp
  with mf b lo m show ?thesis by (intro that [of m]) auto
qed


lemma first_slot_large:
  assumes "(e - first_normal_epoch es) * slots_per_epoch es > 2 ^ 62"
  shows "2 ^ 62 < get_first_slot_in_epoch es e"
proof -
  have "\<not> e \<le> first_normal_epoch es" using assms by auto
  then show ?thesis using assms by (simp add: get_first_slot_in_epoch_def sat_add_u64_def sat_mul_u64_def min_def)
qed

lemma epochs_ordered:
  assumes wf: "schedule_wf es" and lt: "e < e'" and b: "(e' - first_normal_epoch es) * slots_per_epoch es \<le> 2 ^ 62"
  shows "get_first_slot_in_epoch es e + get_slots_in_epoch es e \<le> get_first_slot_in_epoch es e'"
proof -
  let ?f = "first_normal_epoch es" and ?n = "slots_per_epoch es"
  have "(e - ?f) * ?n \<le> (e' - ?f) * ?n" using lt by (intro mult_le_mono1) simp
  then have be: "(e - ?f) * ?n \<le> 2 ^ 62" using b by (rule order_trans)
  have pow: "2 ^ (e + 5) - 32 + 2 ^ (e + 5) \<le> (2::nat) ^ (k + 5) - 32" if "e < k" for k
  proof -
    have "(2::nat) ^ (e + 6) \<le> 2 ^ (k + 5)" using that by (intro power_increasing) auto
    moreover have "(2::nat) ^ (e + 6) = 2 * 2 ^ (e + 5)" by (simp add: power_add)
    moreover have "(32::nat) \<le> 2 ^ (e + 5)" by (simp add: power_add)
    ultimately show ?thesis by simp
  qed
  have fns: "first_normal_slot es = 2 ^ (?f + 5) - 32" using wf by (simp add: schedule_wf_def)
  consider (warm) "e < ?f" "e' \<le> ?f" | (cross) "e < ?f" "?f < e'" | (first) "e = ?f" | (normal) "?f < e" by linarith
  then show ?thesis
  proof cases
    case warm
    then show ?thesis using pow [OF lt] by (simp add: first_slot_eq [OF wf be] first_slot_eq [OF wf b] slots_in_epoch_eq [OF wf])
  next
    case cross
    then show ?thesis using pow [of ?f] fns
      by (simp add: first_slot_eq [OF wf be] first_slot_eq [OF wf b] slots_in_epoch_eq [OF wf])
  next
    case first
    then obtain k where k: "e' = ?f + Suc k" using lt by (metis less_iff_Suc_add add_Suc_right)
    show ?thesis
      unfolding first_slot_eq [OF wf be] first_slot_eq [OF wf b] slots_in_epoch_eq [OF wf] using first fns k by simp
  next
    case normal
    have "(e - ?f) * ?n + ?n = Suc (e - ?f) * ?n" by simp
    also have "\<dots> \<le> (e' - ?f) * ?n" using lt normal by (intro mult_le_mono1) simp
    finally show ?thesis using normal lt
      by (simp add: first_slot_eq [OF wf be] first_slot_eq [OF wf b] slots_in_epoch_eq [OF wf])
  qed
qed

lemma get_epoch_sound:
  assumes wf: "schedule_wf es" and s: "s \<le> 2 ^ 62" and g: "get_epoch_and_slot_index es s = (e, i)"
  shows "get_first_slot_in_epoch es e + i = s \<and> i < get_slots_in_epoch es e \<and>
    (e - first_normal_epoch es) * slots_per_epoch es \<le> 2 ^ 62"
proof (cases "s < first_normal_slot es")
  case True
  from wf True obtain m where m: "get_epoch_and_slot_index es s = (m, s + 32 - 2 ^ (m + 5))"
    "m < first_normal_epoch es" "2 ^ (m + 5) \<le> s + 32" "s + 32 < 2 ^ (m + 6)" by (rule get_epoch_warmup)
  have "(32::nat) \<le> 2 ^ (m + 5)" by (simp add: power_add)
  moreover have "(2::nat) ^ (m + 6) = 2 * 2 ^ (m + 5)" by (simp add: power_add)
  moreover have e: "e = m" and i: "i = s + 32 - 2 ^ (m + 5)" using g m(1) by auto
  ultimately show ?thesis
    using m first_slot_eq [OF wf, of m] slots_in_epoch_eq [OF wf, of m] unfolding e i by simp
next
  case False
  let ?n = "slots_per_epoch es" and ?k = "s - first_normal_slot es"
  have n: "32 \<le> ?n" "first_normal_epoch es \<le> 35" using wf by (auto simp: schedule_wf_def)
  have "?k div ?n \<le> ?k" by (rule div_le_dividend)
  then have "first_normal_epoch es + ?k div ?n \<le> 35 + 2 ^ 62" using s n by linarith
  then have e: "e = first_normal_epoch es + ?k div ?n" "i = ?k mod ?n"
    using g False n by (auto simp: get_epoch_and_slot_index_def Let_def sat_add_u64_def)
  have le: "?k div ?n * ?n \<le> 2 ^ 62" using s by (metis diff_le_self div_times_less_eq_dividend order_trans)
  have "first_normal_slot es + ?k div ?n * ?n + ?k mod ?n = s" using False by simp
  moreover have "get_first_slot_in_epoch es e = first_normal_slot es + ?k div ?n * ?n"
    using first_slot_eq [OF wf, of e] le wf by (auto simp: e(1) schedule_wf_def)
  moreover have "i < get_slots_in_epoch es e" using n by (simp add: slots_in_epoch_eq [OF wf] e)
  ultimately show ?thesis using le by (simp add: e)
qed

text \<open>
  C39: in a schedule built by \<open>custom\<close> every slot lies in exactly one epoch: \<open>get_epoch_and_slot_index\<close>
  answers \<open>(e, i)\<close> exactly when the slot is the \<open>i\<close>th after the first slot of epoch \<open>e\<close> and \<open>i\<close> is
  smaller than the length of \<open>e\<close>, through the warmup and after it.
\<close>

theorem epochs_partition_slots:
  assumes c: "epoch_schedule_custom spe offset w = Ok es" "spe \<le> 2 ^ 40" and s: "s \<le> 2 ^ 62"
  shows "get_epoch_and_slot_index es s = (e, i) \<longleftrightarrow>
    get_first_slot_in_epoch es e + i = s \<and> i < get_slots_in_epoch es e"
proof
  note wf = custom_wf [OF c]
  assume "get_epoch_and_slot_index es s = (e, i)"
  then show "get_first_slot_in_epoch es e + i = s \<and> i < get_slots_in_epoch es e"
    using get_epoch_sound [OF wf s] by blast
next
  note wf = custom_wf [OF c]
  assume a: "get_first_slot_in_epoch es e + i = s \<and> i < get_slots_in_epoch es e"
  have be: "(e - first_normal_epoch es) * slots_per_epoch es \<le> 2 ^ 62"
    using first_slot_large [of e es] a s by (metis le_add1 linorder_not_le order_trans)
  obtain e' i' where g: "get_epoch_and_slot_index es s = (e', i')" by fastforce
  note b = get_epoch_sound [OF wf s g]
  have "e = e'"
  proof (rule ccontr)
    assume "e \<noteq> e'"
    then consider "e < e'" | "e' < e" by linarith
    then show False using epochs_ordered [OF wf, of e e'] epochs_ordered [OF wf, of e' e] a b be by cases auto
  qed
  with a b g show "get_epoch_and_slot_index es s = (e, i)" by auto
qed

theorem epochs_partition_slots_witness:
  "\<exists>es. (epoch_schedule_custom 100 100 False :: (unit, _) result) = Ok es \<and>
     get_epoch_and_slot_index es 250 = (2, 50)"
proof -
  let ?es = "\<lparr>slots_per_epoch = 100, leader_schedule_slot_offset = 100, warmup = False,
              first_normal_epoch = 0, first_normal_slot = 0\<rparr>"
  have c: "(epoch_schedule_custom 100 100 False :: (unit, _) result) = Ok ?es"
    by (simp add: epoch_schedule_custom_def MINIMUM_SLOTS_PER_EPOCH_def assert_that_def)
  have "get_first_slot_in_epoch ?es 2 + 50 = 250 \<and> 50 < get_slots_in_epoch ?es 2"
    by (simp add: get_first_slot_in_epoch_def get_slots_in_epoch_def arith_defs)
  then have "get_epoch_and_slot_index ?es 250 = (2, 50)"
    using epochs_partition_slots [OF c, of 250 2 50] by simp
  with c show ?thesis by blast
qed


end
