(* ===== verification/Pubkey.thy ===== *)
theory Pubkey
  imports Instruction_Error
begin

text \<open>
  \<^verbatim>\<open>sdk/pubkey/src/lib.rs\<close>: addresses derived from seeds. The hash (the \<open>sha2\<close> crate) and the test
  whether 32 bytes are a point of the curve (the \<open>curve25519_dalek\<close> crate) are parameters; the hasher
  of \<^verbatim>\<open>sdk/sha256-hasher\<close> feeds its arguments to the hash one after the other, so that hashing several
  slices is hashing their concatenation.
\<close>

definition MAX_SEED_LEN :: nat where "MAX_SEED_LEN = 32"
definition MAX_SEEDS :: nat where "MAX_SEEDS = 16"
definition PDA_MARKER :: "byte list" where
  "PDA_MARKER =
     [80, 114, 111, 103, 114, 97, 109, 68, 101, 114, 105, 118, 101, 100, 65, 100, 100, 114, 101, 115, 115]"

type_synonym hash_function = "byte list \<Rightarrow> hash"

text \<open>The 32 bytes of a key, most significant first.\<close>

definition pubkey_bytes :: "pubkey \<Rightarrow> byte list" where
  "pubkey_bytes k = map (\<lambda>i. word_of_nat (k div 256 ^ (31 - i))) [0 ..< 32]"

datatype pubkey_error = PE_MaxSeedLengthExceeded | PE_InvalidSeeds | PE_IllegalOwner

fun pubkey_error_code :: "pubkey_error \<Rightarrow> nat" where
  "pubkey_error_code PE_MaxSeedLengthExceeded = 0"
| "pubkey_error_code PE_InvalidSeeds = 1"
| "pubkey_error_code PE_IllegalOwner = 2"

definition pubkey_err :: "pubkey_error \<Rightarrow> instruction_error" where
  "pubkey_err e = Custom (pubkey_error_code e)"

definition hashv :: "hash_function \<Rightarrow> byte list list \<Rightarrow> hash" where
  "hashv sha256 vals = sha256 (concat vals)"

definition create_with_seed ::
  "hash_function \<Rightarrow> pubkey \<Rightarrow> byte list \<Rightarrow> pubkey \<Rightarrow> (pubkey_error, pubkey) result" where
  "create_with_seed sha256 base seed ow =
     (if MAX_SEED_LEN < length seed then Err PE_MaxSeedLengthExceeded
      else
        let ob = pubkey_bytes ow
        in if length PDA_MARKER \<le> length ob \<and> drop (length ob - length PDA_MARKER) ob = PDA_MARKER
           then Err PE_IllegalOwner
           else Ok (hashv sha256 [pubkey_bytes base, seed, ob]))"

definition create_program_address ::
  "hash_function \<Rightarrow> (hash \<Rightarrow> bool) \<Rightarrow> byte list list \<Rightarrow> pubkey \<Rightarrow> (pubkey_error, pubkey) result" where
  "create_program_address sha256 is_curve_point seeds program_id =
     (if MAX_SEEDS < length seeds then Err PE_MaxSeedLengthExceeded
      else if \<exists>seed \<in> set seeds. MAX_SEED_LEN < length seed then Err PE_MaxSeedLengthExceeded
      else
        let h = hashv sha256 (seeds @ [pubkey_bytes program_id, PDA_MARKER])
        in if is_curve_point h then Err PE_InvalidSeeds else Ok h)"

text \<open>The loop runs 255 times, with the bumps 255, 254 and so on down to 1.\<close>

fun find_bump ::
  "hash_function \<Rightarrow> (hash \<Rightarrow> bool) \<Rightarrow> byte list list \<Rightarrow> pubkey \<Rightarrow> nat \<Rightarrow> nat \<Rightarrow> (pubkey \<times> nat) option" where
  "find_bump sha256 is_curve_point seeds program_id 0 bump_seed = None"
| "find_bump sha256 is_curve_point seeds program_id (Suc n) bump_seed =
     (case create_program_address sha256 is_curve_point (seeds @ [[word_of_nat bump_seed]]) program_id of
        Ok address \<Rightarrow> Some (address, bump_seed)
      | Err PE_InvalidSeeds \<Rightarrow> find_bump sha256 is_curve_point seeds program_id n (bump_seed - 1)
      | _ \<Rightarrow> None)"

definition try_find_program_address ::
  "hash_function \<Rightarrow> (hash \<Rightarrow> bool) \<Rightarrow> byte list list \<Rightarrow> pubkey \<Rightarrow> (pubkey \<times> nat) option" where
  "try_find_program_address sha256 is_curve_point seeds program_id =
     find_bump sha256 is_curve_point seeds program_id u8_max u8_max"

definition find_program_address ::
  "hash_function \<Rightarrow> (hash \<Rightarrow> bool) \<Rightarrow> byte list list \<Rightarrow> pubkey \<Rightarrow> (pubkey_error, pubkey \<times> nat) result" where
  "find_program_address sha256 is_curve_point seeds program_id =
     unwrap (try_find_program_address sha256 is_curve_point seeds program_id)"

section \<open>The bump of a program address\<close>

text \<open>The seeds of an address, without the bump, respect the limits.\<close>

definition seeds_fit :: "byte list list \<Rightarrow> bool" where
  "seeds_fit seeds \<longleftrightarrow> length seeds < 16 \<and> (\<forall>seed \<in> set seeds. length seed \<le> 32)"

text \<open>The address for a bump.\<close>

definition bump_address :: "hash_function \<Rightarrow> byte list list \<Rightarrow> pubkey \<Rightarrow> nat \<Rightarrow> pubkey" where
  "bump_address sha256 seeds program_id b =
     sha256 (concat seeds @ [word_of_nat b] @ pubkey_bytes program_id @ PDA_MARKER)"

lemma create_program_address_bump:
  "create_program_address sha256 oc (seeds @ [[word_of_nat b]]) pid =
     (if seeds_fit seeds then
        if oc (bump_address sha256 seeds pid b) then Err PE_InvalidSeeds
        else Ok (bump_address sha256 seeds pid b)
      else Err PE_MaxSeedLengthExceeded)"
  by (auto simp: create_program_address_def seeds_fit_def bump_address_def hashv_def Let_def
      MAX_SEED_LEN_def MAX_SEEDS_def not_less not_le)

text \<open>Among the bumps in range that are off the curve there is a greatest one.\<close>

lemma greatest_bump:
  fixes P :: "nat \<Rightarrow> bool"
  assumes "P b" "1 \<le> b" "b \<le> n"
  obtains c where "P c" "1 \<le> c" "c \<le> n" "\<And>d. c < d \<Longrightarrow> d \<le> n \<Longrightarrow> \<not> P d"
proof -
  let ?c = "GREATEST c. P c \<and> c \<le> n"
  have g: "P ?c \<and> ?c \<le> n" by (rule GreatestI_nat [of "\<lambda>c. P c \<and> c \<le> n" b n]) (use assms in auto)
  have up: "d \<le> ?c" if "P d" "d \<le> n" for d
    by (rule Greatest_le_nat [of "\<lambda>c. P c \<and> c \<le> n" d n]) (use that in auto)
  show ?thesis
  proof (rule that [of ?c])
    show "1 \<le> ?c" using up [of b] assms by linarith
    show "\<not> P d" if "?c < d" "d \<le> n" for d using up [of d] that by (meson not_le)
  qed (use g in simp_all)
qed

lemma find_bump_eq_Some:
  assumes "n \<le> b"
  shows "find_bump sha256 oc seeds pid n b = Some (a, b') \<longleftrightarrow>
    seeds_fit seeds \<and> b - n < b' \<and> b' \<le> b \<and> a = bump_address sha256 seeds pid b' \<and> \<not> oc a \<and>
    (\<forall>c. b' < c \<and> c \<le> b \<longrightarrow> oc (bump_address sha256 seeds pid c))"
  using assms
proof (induction n arbitrary: b)
  case (Suc n)
  then have le: "c \<le> b \<longleftrightarrow> c = b \<or> c \<le> b - 1" for c by arith
  have upto: "(\<forall>c. b' < c \<and> c \<le> b \<longrightarrow> Q c) \<longleftrightarrow> (b' < b \<longrightarrow> Q b) \<and> (\<forall>c. b' < c \<and> c \<le> b - 1 \<longrightarrow> Q c)" for Q
    by (subst le) blast
  show ?case
  proof (cases "seeds_fit seeds \<and> oc (bump_address sha256 seeds pid b)")
    case True
    then have "find_bump sha256 oc seeds pid (Suc n) b = find_bump sha256 oc seeds pid n (b - 1)"
      by (simp add: create_program_address_bump)
    also have "\<dots> = Some (a, b') \<longleftrightarrow> seeds_fit seeds \<and> b - 1 - n < b' \<and> b' \<le> b - 1 \<and>
        a = bump_address sha256 seeds pid b' \<and> \<not> oc a \<and>
        (\<forall>c. b' < c \<and> c \<le> b - 1 \<longrightarrow> oc (bump_address sha256 seeds pid c))"
      using Suc.prems by (intro Suc.IH) simp
    also have "\<dots> \<longleftrightarrow> seeds_fit seeds \<and> b - Suc n < b' \<and> b' \<le> b \<and>
        a = bump_address sha256 seeds pid b' \<and> \<not> oc a \<and>
        (\<forall>c. b' < c \<and> c \<le> b \<longrightarrow> oc (bump_address sha256 seeds pid c))"
      unfolding upto using True by (cases "b' = b") auto
    finally show ?thesis .
  next
    case False
    then have "find_bump sha256 oc seeds pid (Suc n) b =
        (if seeds_fit seeds then Some (bump_address sha256 seeds pid b, b) else None)"
      by (simp add: create_program_address_bump)
    moreover have "b' = b" if "\<forall>c. b' < c \<and> c \<le> b \<longrightarrow> oc (bump_address sha256 seeds pid c)" "b' \<le> b" "seeds_fit seeds"
      using that False by (metis le_neq_implies_less order_refl)
    ultimately show ?thesis
      using Suc.prems False by auto
  qed
qed simp

text \<open>
  C40: \<open>find_program_address\<close> answers an address and a bump exactly when the seeds respect the limits and
  the bump, between 1 and 255, is the greatest one whose address is not a point of the curve; the answer
  is then the address that \<open>create_program_address\<close> computes for that bump. It panics exactly when the
  seeds do not fit or all 255 addresses are on the curve.
\<close>

theorem find_program_address_greatest_bump:
  "(find_program_address sha256 oc seeds pid = Ok (a, b) \<longleftrightarrow>
      1 \<le> b \<and> b \<le> 255 \<and> create_program_address sha256 oc (seeds @ [[word_of_nat b]]) pid = Ok a \<and>
      (\<forall>c. b < c \<and> c \<le> 255 \<longrightarrow>
         create_program_address sha256 oc (seeds @ [[word_of_nat c]]) pid = Err PE_InvalidSeeds)) \<and>
   (find_program_address sha256 oc seeds pid = Panic \<longleftrightarrow>
      (\<forall>b. 1 \<le> b \<and> b \<le> 255 \<longrightarrow> (\<forall>a. create_program_address sha256 oc (seeds @ [[word_of_nat b]]) pid \<noteq> Ok a)))"
proof -
  let ?f = "find_program_address sha256 oc seeds pid" and ?A = "bump_address sha256 seeds pid"
  have ok: "?f = Ok (a, b) \<longleftrightarrow>
      seeds_fit seeds \<and> 1 \<le> b \<and> b \<le> 255 \<and> a = ?A b \<and> \<not> oc a \<and> (\<forall>c. b < c \<and> c \<le> 255 \<longrightarrow> oc (?A c))" for a b
    by (simp add: find_program_address_def try_find_program_address_def unwrap_eq_Ok find_bump_eq_Some Suc_le_eq)
  have panic: "?f = Panic \<longleftrightarrow> (\<forall>x. ?f \<noteq> Ok x)"
    by (simp add: find_program_address_def unwrap_def split: option.split)
  have some: "\<exists>x. ?f = Ok x" if "seeds_fit seeds" "1 \<le> b" "b \<le> 255" "\<not> oc (?A b)" for b
    using greatest_bump [of "\<lambda>b. \<not> oc (?A b)", OF that(4,2,3)] that(1) ok by metis
  show ?thesis
  proof (cases "seeds_fit seeds")
    case True
    have "?f = Panic \<longleftrightarrow> (\<forall>b. 1 \<le> b \<and> b \<le> 255 \<longrightarrow> oc (?A b))"
      unfolding panic
    proof
      show "\<forall>x. ?f \<noteq> Ok x" if oc: "\<forall>b. 1 \<le> b \<and> b \<le> 255 \<longrightarrow> oc (?A b)"
      proof
        show "?f \<noteq> Ok x" for x using oc by (cases x) (simp add: ok)
      qed
    qed (use some [OF True] in blast)
    then show ?thesis
      using True by (simp add: ok create_program_address_bump) blast
  next
    case False
    then show ?thesis
      by (simp add: ok panic create_program_address_bump)
  qed
qed

theorem find_program_address_greatest_bump_witness:
  "find_program_address (\<lambda>_. 7) (\<lambda>_. False) [[1, 2]] 1 = Ok (7, 255)"
  using find_program_address_greatest_bump [of "\<lambda>_. 7" "\<lambda>_. False" "[[1, 2]]" 1 7 255]
  by (simp add: create_program_address_def hashv_def MAX_SEEDS_def MAX_SEED_LEN_def)

end
