(* ===== verification/Invoke_Context.thy ===== *)
theory Invoke_Context
  imports Vote_New_State Transaction_Context Epoch_Schedule Pubkey
begin

text \<open>
  What a built-in program sees besides the accounts: the environment of an invocation
  (\<open>EnvironmentConfig\<close> in \<^verbatim>\<open>program-runtime/src/invoke_context.rs\<close>) with the sysvar cache
  (\<^verbatim>\<open>program-runtime/src/sysvar_cache.rs\<close>). The cache holds each sysvar as the value its bytes decode
  to; a sysvar that is absent or does not decode is \<^const>\<open>None\<close>. The ids are the numbers of their
  base-58 names.
\<close>

definition system_program_id :: pubkey where "system_program_id = 0"
definition vote_program_id :: pubkey where
  "vote_program_id = 3338071818571248938818993247932504658966148473698877128351861063997718528000"
definition clock_id :: pubkey where
  "clock_id = 3010411245977774767103551433779408434046391008353408711474217313814305570816"
definition rent_id :: pubkey where
  "rent_id = 3010411246019284437244212147455409835011261068170932596721577831542904848384"
definition slot_hashes_id :: pubkey where
  "slot_hashes_id = 3010411246020387390845657635421930170267332101929006271628180992244983005184"
definition recent_blockhashes_id :: pubkey where
  "recent_blockhashes_id = 3010411246019275183202241475159751154561037627022909547359528646525818241024"

record sysvar_cache =
  sc_clock :: "clock option"
  sc_epoch_schedule :: "epoch_schedule option"
  sc_rent :: "rent option"
  sc_slot_hashes :: "slot_hash list option"
  sc_recent_blockhashes :: "hash list option"

record environment_config =
  ec_blockhash :: hash
  ec_feature_set :: feature_set
  ec_lamports_per_signature :: nat
  ec_sysvar_cache :: sysvar_cache

definition get_clock :: "environment_config \<Rightarrow> (instruction_error, clock) result" where
  "get_clock env = ok_or UnsupportedSysvar (sc_clock (ec_sysvar_cache env))"

definition get_epoch_schedule :: "environment_config \<Rightarrow> (instruction_error, epoch_schedule) result" where
  "get_epoch_schedule env = ok_or UnsupportedSysvar (sc_epoch_schedule (ec_sysvar_cache env))"

definition get_rent :: "environment_config \<Rightarrow> (instruction_error, rent) result" where
  "get_rent env = ok_or UnsupportedSysvar (sc_rent (ec_sysvar_cache env))"

definition get_slot_hashes :: "environment_config \<Rightarrow> (instruction_error, slot_hash list) result" where
  "get_slot_hashes env = ok_or UnsupportedSysvar (sc_slot_hashes (ec_sysvar_cache env))"

definition get_recent_blockhashes :: "environment_config \<Rightarrow> (instruction_error, hash list) result" where
  "get_recent_blockhashes env = ok_or UnsupportedSysvar (sc_recent_blockhashes (ec_sysvar_cache env))"

text \<open>The key of an account of the instruction.\<close>

definition key_of_instruction_account ::
  "instruction_context \<Rightarrow> transaction_context \<Rightarrow> index_of_account \<Rightarrow> (instruction_error, pubkey) result" where
  "key_of_instruction_account ic tc i =
     rbind (get_index_of_instruction_account_in_transaction ic i) (\<lambda>j. get_key_of_account_at_index tc j)"

definition check_sysvar_account ::
  "pubkey \<Rightarrow> transaction_context \<Rightarrow> instruction_context \<Rightarrow> index_of_account \<Rightarrow> (instruction_error, unit) result" where
  "check_sysvar_account sysvar_id tc ic i =
     rbind (key_of_instruction_account ic tc i) (\<lambda>k. ensure (k = sysvar_id) InvalidArgument)"

definition clock_with_account_check ::
  "environment_config \<Rightarrow> transaction_context \<Rightarrow> instruction_context \<Rightarrow> index_of_account \<Rightarrow>
     (instruction_error, clock) result" where
  "clock_with_account_check env tc ic i = rbind (check_sysvar_account clock_id tc ic i) (\<lambda>_. get_clock env)"

definition rent_with_account_check ::
  "environment_config \<Rightarrow> transaction_context \<Rightarrow> instruction_context \<Rightarrow> index_of_account \<Rightarrow>
     (instruction_error, rent) result" where
  "rent_with_account_check env tc ic i = rbind (check_sysvar_account rent_id tc ic i) (\<lambda>_. get_rent env)"

definition slot_hashes_with_account_check ::
  "environment_config \<Rightarrow> transaction_context \<Rightarrow> instruction_context \<Rightarrow> index_of_account \<Rightarrow>
     (instruction_error, slot_hash list) result" where
  "slot_hashes_with_account_check env tc ic i =
     rbind (check_sysvar_account slot_hashes_id tc ic i) (\<lambda>_. get_slot_hashes env)"

definition recent_blockhashes_with_account_check ::
  "environment_config \<Rightarrow> transaction_context \<Rightarrow> instruction_context \<Rightarrow> index_of_account \<Rightarrow>
     (instruction_error, hash list) result" where
  "recent_blockhashes_with_account_check env tc ic i =
     rbind (check_sysvar_account recent_blockhashes_id tc ic i) (\<lambda>_. get_recent_blockhashes env)"

end
