(* ===== verification/Access_Control.thy ===== *)
theory Access_Control
  imports Transaction_Context
begin

text \<open>
  What \<^verbatim>\<open>sdk/src/transaction_context.rs\<close> guarantees of any program. \<open>account_op\<close> is one operation of
  a program on its accounts and \<open>program_run\<close> a run with calls of other programs nested to any depth.
  A program changes only accounts its instruction lists as writable, never an executable one,
  and of accounts it does not own only the balance, upwards. The data of all accounts together
  grows by at most 20 MiB, and an instruction that is popped successfully has neither created
  nor destroyed lamports.
\<close>

section \<open>Definitions\<close>

abbreviation cells_of :: "transaction_context \<Rightarrow> account_cell list" where
  "cells_of tc \<equiv> cells (accounts tc)"

abbreviation acct :: "transaction_context \<Rightarrow> nat \<Rightarrow> account" where
  "acct tc i \<equiv> cell_account (cells_of tc ! i)"

text \<open>The part of a context that no operation on an account changes.\<close>

definition same_frame :: "transaction_context \<Rightarrow> transaction_context \<Rightarrow> bool" where
  "same_frame tc tc' \<longleftrightarrow>
     account_keys tc' = account_keys tc \<and> tc_rent tc' = tc_rent tc \<and>
     instruction_stack tc' = instruction_stack tc \<and> instruction_trace tc' = instruction_trace tc \<and>
     instruction_stack_capacity tc' = instruction_stack_capacity tc \<and>
     instruction_trace_capacity tc' = instruction_trace_capacity tc \<and>
     length (cells_of tc') = length (cells_of tc)"

definition writes :: "borrowed_account \<Rightarrow> transaction_context \<Rightarrow> transaction_context \<Rightarrow> account \<Rightarrow> bool" where
  "writes ba tc tc' a \<longleftrightarrow> same_frame tc tc' \<and>
     (\<forall>i < length (cells_of tc). acct tc' i = (if i = ba_index_in_transaction ba then a else acct tc i))"

definition delta_after :: "borrowed_account \<Rightarrow> transaction_context \<Rightarrow> nat \<Rightarrow> int" where
  "delta_after ba tc n = sat_i64 (resize_delta tc + sat_i64 (as_i64 n - as_i64 (length (get_data ba tc))))"

text \<open>The three operations that may change the length of the data.\<close>

definition resizes :: "borrowed_account \<Rightarrow> transaction_context \<Rightarrow> transaction_context \<Rightarrow> byte list \<Rightarrow> bool" where
  "resizes ba tc tc' d \<longleftrightarrow>
     writes ba tc tc' ((ba_account ba tc)\<lparr>data := d\<rparr>) \<and> length d \<le> MAX_PERMITTED_DATA_LENGTH \<and>
     (tc' = tc \<or> resize_delta tc' = delta_after ba tc (length d)) \<and>
     delta_after ba tc (length d) \<le> MAX_PERMITTED_ACCOUNTS_DATA_ALLOCATIONS_PER_TRANSACTION \<and>
     is_writable ba \<and> is_owned_by_current_program ba tc \<and> \<not> executable (ba_account ba tc)"

text \<open>The accounts a program may hold: borrowed from its own instruction context.\<close>

definition borrowed_in :: "instruction_context \<Rightarrow> borrowed_account \<Rightarrow> bool" where
  "borrowed_in ic ba \<longleftrightarrow> ba_instruction_context ba = ic \<and>
     ((\<exists>i. get_index_of_instruction_account_in_transaction ic i = Ok (ba_index_in_transaction ba) \<and>
           ba_index_in_instruction ba = sat_add_u16 (get_number_of_program_accounts ic) i) \<or>
      (\<exists>i. get_index_of_program_account_in_transaction ic i = Ok (ba_index_in_transaction ba) \<and>
           ba_index_in_instruction ba = i))"

text \<open>A program holds an account while its cell is borrowed.\<close>

definition holds :: "instruction_context \<Rightarrow> transaction_context \<Rightarrow> borrowed_account \<Rightarrow> bool" where
  "holds ic tc ba \<longleftrightarrow> borrowed_in ic ba \<and> ba_index_in_transaction ba < length (cells_of tc) \<and>
     cell_borrowed (cells_of tc ! ba_index_in_transaction ba)"

text \<open>One operation of the program running in an instruction context.\<close>

inductive account_op :: "instruction_context \<Rightarrow> transaction_context \<Rightarrow> transaction_context \<Rightarrow> bool" for ic where
  op_borrow: "try_borrow_instruction_account ic tc i = Ok (ba, tc') \<Longrightarrow> account_op ic tc tc'"
| op_borrow_program: "try_borrow_program_account ic tc i = Ok (ba, tc') \<Longrightarrow> account_op ic tc tc'"
| op_drop: "holds ic tc ba \<Longrightarrow> account_op ic tc (drop_borrow ba tc)"
| op_set_owner: "holds ic tc ba \<Longrightarrow> set_owner ba tc k = Ok tc' \<Longrightarrow> account_op ic tc tc'"
| op_set_lamports: "holds ic tc ba \<Longrightarrow> set_lamports ba tc l = Ok tc' \<Longrightarrow> account_op ic tc tc'"
| op_get_data_mut: "holds ic tc ba \<Longrightarrow> get_data_mut ba tc w = Ok tc' \<Longrightarrow> account_op ic tc tc'"
| op_set_data_from_slice: "holds ic tc ba \<Longrightarrow> set_data_from_slice ba tc d = Ok tc' \<Longrightarrow> account_op ic tc tc'"
| op_set_data_length: "holds ic tc ba \<Longrightarrow> set_data_length ba tc n = Ok tc' \<Longrightarrow> account_op ic tc tc'"
| op_extend_from_slice: "holds ic tc ba \<Longrightarrow> extend_from_slice ba tc d = Ok tc' \<Longrightarrow> account_op ic tc tc'"
| op_set_executable: "holds ic tc ba \<Longrightarrow> set_executable ba tc b = Ok tc' \<Longrightarrow> account_op ic tc tc'"
| op_set_return_data: "account_op ic tc (set_return_data tc k d)"

text \<open>The indices of an instruction fit their type, so that no cast or saturation changes them.\<close>

definition ic_fits :: "instruction_context \<Rightarrow> bool" where
  "ic_fits ic \<longleftrightarrow> length (program_accounts ic) + length (instruction_accounts ic) \<le> u16_max"

definition writable_in :: "instruction_context \<Rightarrow> index_of_account \<Rightarrow> bool" where
  "writable_in ic i \<longleftrightarrow> (\<exists>ia \<in> set (instruction_accounts ic). index_in_transaction ia = i \<and> ia_is_writable ia)"

text \<open>The program an instruction runs.\<close>

definition current_program :: "instruction_context \<Rightarrow> transaction_context \<Rightarrow> pubkey option" where
  "current_program ic tc = (case get_last_program_key ic tc of Ok k \<Rightarrow> Some k | _ \<Rightarrow> None)"

text \<open>
  What the program with key \<open>p\<close> may do to account number \<open>i\<close>: nothing unless the instruction lists it
  as writable; nothing if it is executable; if \<open>p\<close> does not own it, only add lamports.
\<close>

definition permitted :: "instruction_context \<Rightarrow> pubkey option \<Rightarrow> nat \<Rightarrow> account \<Rightarrow> account \<Rightarrow> bool" where
  "permitted ic p i a a' \<longleftrightarrow> a' = a \<or>
     writable_in ic i \<and> \<not> executable a \<and> rent_epoch a' = rent_epoch a \<and>
     (p \<noteq> Some (owner a) \<longrightarrow> (\<exists>l \<ge> lamports a. a' = a\<lparr>lamports := l\<rparr>))"

definition total :: "(account \<Rightarrow> nat) \<Rightarrow> transaction_context \<Rightarrow> nat" where
  "total f tc = (\<Sum>i < length (cells_of tc). f (acct tc i))"

definition data_lengths_ok :: "transaction_context \<Rightarrow> bool" where
  "data_lengths_ok tc \<longleftrightarrow> (\<forall>i < length (cells_of tc). length (data (acct tc i)) \<le> MAX_PERMITTED_DATA_LENGTH)"

text \<open>The resize delta is the growth over the base size and within its limit.\<close>

definition resize_inv :: "int \<Rightarrow> transaction_context \<Rightarrow> bool" where
  "resize_inv base tc \<longleftrightarrow>
     length (cells_of tc) \<le> u16_max \<and> data_lengths_ok tc \<and>
     int (total (length \<circ> data) tc) = base + resize_delta tc \<and>
     resize_delta tc \<le> MAX_PERMITTED_ACCOUNTS_DATA_ALLOCATIONS_PER_TRANSACTION"

definition account_indices :: "instruction_context \<Rightarrow> index_of_account set" where
  "account_indices ic = index_in_transaction ` set (instruction_accounts ic)"

text \<open>An account of an instruction is marked as a duplicate unless it is the first with its index.\<close>

definition instruction_ok :: "instruction_context \<Rightarrow> bool" where
  "instruction_ok ic \<longleftrightarrow> ic_fits ic \<and>
     (\<forall>i < length (instruction_accounts ic).
        index_in_callee (instruction_accounts ic ! i) = i \<longleftrightarrow>
        (\<forall>j < i. index_in_transaction (instruction_accounts ic ! j) \<noteq> index_in_transaction (instruction_accounts ic ! i)))"

definition trace_wf :: "transaction_context \<Rightarrow> bool" where
  "trace_wf tc \<longleftrightarrow> instruction_trace tc \<noteq> [] \<and>
     (\<forall>s \<in> set (instruction_stack tc). s < length (instruction_trace tc) - 1)"

text \<open>
  A run of a program: its own operations, and calls of other programs with accounts among its own.
  A call configures the reserved instruction context, pushes it, runs the callee and pops.
\<close>

inductive program_run :: "instruction_context \<Rightarrow> transaction_context \<Rightarrow> transaction_context \<Rightarrow> bool" where
  run_done: "program_run ic tc tc"
| run_op: "account_op ic tc tc1 \<Longrightarrow> program_run ic tc1 tc2 \<Longrightarrow> program_run ic tc tc2"
| run_call: "callee = configure (last (instruction_trace tc)) ps ias d \<Longrightarrow>
    instruction_ok callee \<Longrightarrow> account_indices callee \<subseteq> account_indices ic \<Longrightarrow>
    push (tc\<lparr>instruction_trace := butlast (instruction_trace tc) @ [callee]\<rparr>) = (tc1, Ok ()) \<Longrightarrow>
    get_current_instruction_context tc1 = Ok ic' \<Longrightarrow>
    program_run ic' tc1 tc2 \<Longrightarrow> pop tc2 = (tc3, Ok ()) \<Longrightarrow>
    program_run ic tc3 tc4 \<Longrightarrow> program_run ic tc tc4"

text \<open>What a run leaves alone: accounts outside its own, and the instructions on the stack.\<close>

definition run_frame :: "nat set \<Rightarrow> transaction_context \<Rightarrow> transaction_context \<Rightarrow> bool" where
  "run_frame I tc tc' \<longleftrightarrow>
     account_keys tc' = account_keys tc \<and> length (cells_of tc') = length (cells_of tc) \<and>
     instruction_stack tc' = instruction_stack tc \<and> trace_wf tc' \<and>
     (\<forall>s \<in> set (instruction_stack tc). instruction_trace tc' ! s = instruction_trace tc ! s) \<and>
     (\<forall>i < length (cells_of tc). i \<notin> I \<longrightarrow> acct tc' i = acct tc i)"

abbreviation ia_at :: "instruction_context \<Rightarrow> nat \<Rightarrow> instruction_account" where
  "ia_at ic i \<equiv> instruction_accounts ic ! i"

section \<open>What the operations write\<close>

lemma same_frame_refl [simp]: "same_frame tc tc"
  by (simp add: same_frame_def)

lemma same_frame_trans: "same_frame tc tc' \<Longrightarrow> same_frame tc' tc'' \<Longrightarrow> same_frame tc tc''"
  by (simp add: same_frame_def)

lemma writes_refl: "a = ba_account ba tc \<Longrightarrow> writes ba tc tc a"
  by (simp add: writes_def ba_account_def)

lemma acct_ba_put:
  "i < length (cells_of tc) \<Longrightarrow>
     acct (ba_put ba tc a) i = (if i = ba_index_in_transaction ba then a else acct tc i)"
  by (simp add: ba_put_def Let_def nth_list_update)

lemma ba_put_frame [simp]: "same_frame tc (ba_put ba tc a)" "resize_delta (ba_put ba tc a) = resize_delta tc"
  by (simp_all add: same_frame_def ba_put_def Let_def)

lemma touch_Ok:
  assumes "touch ba tc = Ok tc'"
  shows "same_frame tc tc'" "cells_of tc' = cells_of tc" "resize_delta tc' = resize_delta tc"
    "ba_account ba' tc' = ba_account ba' tc" "get_data ba' tc' = get_data ba' tc"
  using assms
  by (auto simp: touch_def ta_touch_def result_simps same_frame_def ba_account_def get_data_def split: if_splits)

lemma update_delta_simps [simp]:
  "accounts (update_accounts_resize_delta ba tc n) = accounts tc"
  "ba_account ba' (update_accounts_resize_delta ba tc n) = ba_account ba' tc"
  "get_data ba' (update_accounts_resize_delta ba tc n) = get_data ba' tc"
  "same_frame tc (update_accounts_resize_delta ba tc n)"
  by (simp_all add: update_accounts_resize_delta_def ba_account_def get_data_def same_frame_def)

lemma writes_touch_put:
  assumes "touch ba tc = Ok tc1"
  shows "writes ba tc (ba_put ba tc1 a) a"
    and "writes ba tc (ba_put ba (update_accounts_resize_delta ba tc1 n) a) a"
proof -
  note t = touch_Ok [OF assms]
  show "writes ba tc (ba_put ba tc1 a) a"
    using t same_frame_trans [OF t(1) ba_put_frame(1)] by (simp add: writes_def acct_ba_put)
  show "writes ba tc (ba_put ba (update_accounts_resize_delta ba tc1 n) a) a"
    using t same_frame_trans [OF same_frame_trans [OF t(1) update_delta_simps(4)] ba_put_frame(1)]
    by (simp add: writes_def acct_ba_put)
qed

lemma set_owner_op:
  assumes "set_owner ba tc k = Ok tc'"
  shows "writes ba tc tc' ((ba_account ba tc)\<lparr>owner := k\<rparr>)" "resize_delta tc' = resize_delta tc"
    "is_writable ba" "is_owned_by_current_program ba tc" "\<not> executable (ba_account ba tc)"
    "is_zeroed (get_data ba tc)"
  using assms writes_touch_put(1) [of ba tc]
  by (auto simp: set_owner_def result_simps is_executable_def get_owner_def touch_Ok
      intro!: writes_refl split: if_splits)

lemma set_lamports_op:
  assumes "set_lamports ba tc l = Ok tc'"
  shows "writes ba tc tc' ((ba_account ba tc)\<lparr>lamports := l\<rparr>)" "resize_delta tc' = resize_delta tc"
    "is_writable ba" "is_owned_by_current_program ba tc \<or> lamports (ba_account ba tc) \<le> l"
    "\<not> executable (ba_account ba tc)"
proof -
  have "tc' = tc \<and> lamports (ba_account ba tc) = l \<or>
      (\<exists>tc1. touch ba tc = Ok tc1 \<and> tc' = ba_put ba tc1 ((ba_account ba tc1)\<lparr>lamports := l\<rparr>))"
    using assms by (auto simp: set_lamports_def result_simps get_lamports_def split: if_splits)
  then show "writes ba tc tc' ((ba_account ba tc)\<lparr>lamports := l\<rparr>)" "resize_delta tc' = resize_delta tc"
    using writes_touch_put(1) by (auto simp: touch_Ok intro: writes_refl)
  show "is_writable ba" "is_owned_by_current_program ba tc \<or> lamports (ba_account ba tc) \<le> l"
    "\<not> executable (ba_account ba tc)"
    using assms by (auto simp: set_lamports_def is_executable_def get_lamports_def split: if_splits)
qed

lemma set_executable_op:
  assumes "set_executable ba tc b = Ok tc'"
  shows "writes ba tc tc' ((ba_account ba tc)\<lparr>executable := b\<rparr>)" "resize_delta tc' = resize_delta tc"
    "is_writable ba" "is_owned_by_current_program ba tc" "executable (ba_account ba tc) \<longrightarrow> b"
proof -
  have "tc' = tc \<and> executable (ba_account ba tc) = b \<or>
      (\<exists>tc1. touch ba tc = Ok tc1 \<and> tc' = ba_put ba tc1 ((ba_account ba tc1)\<lparr>executable := b\<rparr>))"
    using assms by (auto simp: set_executable_def result_simps is_executable_def split: if_splits)
  then show "writes ba tc tc' ((ba_account ba tc)\<lparr>executable := b\<rparr>)" "resize_delta tc' = resize_delta tc"
    using writes_touch_put(1) by (auto simp: touch_Ok intro: writes_refl)
  show "is_writable ba" "is_owned_by_current_program ba tc" "executable (ba_account ba tc) \<longrightarrow> b"
    using assms by (auto simp: set_executable_def is_executable_def split: if_splits)
qed

lemma can_data_be_changed_Ok:
  "can_data_be_changed ba tc = Ok u \<longleftrightarrow>
     \<not> executable (ba_account ba tc) \<and> is_writable ba \<and> is_owned_by_current_program ba tc"
  by (auto simp: can_data_be_changed_def is_executable_def)

lemma get_data_mut_op:
  assumes "get_data_mut ba tc w = Ok tc'"
  obtains d where "writes ba tc tc' ((ba_account ba tc)\<lparr>data := d\<rparr>)" "length d = length (get_data ba tc)"
    "d = take (length (get_data ba tc)) (w (get_data ba tc)) @ drop (length (w (get_data ba tc))) (get_data ba tc)"
    "resize_delta tc' = resize_delta tc"
    "is_writable ba" "is_owned_by_current_program ba tc" "\<not> executable (ba_account ba tc)"
  using assms writes_touch_put(1) [of ba tc]
  by (auto simp: get_data_mut_def result_simps touch_Ok can_data_be_changed_Ok Let_def)

lemma resize_delta_update:
  "resize_delta (update_accounts_resize_delta ba tc n) = delta_after ba tc n"
  by (simp add: update_accounts_resize_delta_def delta_after_def)

lemma can_data_be_resized_Ok:
  "can_data_be_resized ba tc n = Ok u \<Longrightarrow> n \<le> MAX_PERMITTED_DATA_LENGTH \<and>
     delta_after ba tc n \<le> MAX_PERMITTED_ACCOUNTS_DATA_ALLOCATIONS_PER_TRANSACTION"
  by (auto simp: can_data_be_resized_def Let_def delta_after_def split: if_splits)

lemma delta_after_touch: "touch ba tc = Ok tc' \<Longrightarrow> delta_after ba tc' n = delta_after ba tc n"
  by (simp add: delta_after_def touch_Ok)

lemma resizesI:
  assumes t: "touch ba tc = Ok tc1" and c: "can_data_be_resized ba tc n = Ok u" "can_data_be_changed ba tc = Ok u'"
    and n: "length d = n"
  shows "resizes ba tc (ba_put ba (update_accounts_resize_delta ba tc1 n) ((ba_account ba tc)\<lparr>data := d\<rparr>)) d"
  using writes_touch_put(2) [OF t, of n "(ba_account ba tc)\<lparr>data := d\<rparr>"] can_data_be_resized_Ok [OF c(1)]
    c(2) [unfolded can_data_be_changed_Ok]
  by (simp add: resizes_def resize_delta_update delta_after_touch [OF t] n)

lemma resizes_refl:
  assumes "can_data_be_resized ba tc n = Ok u" "can_data_be_changed ba tc = Ok u'" and "length (get_data ba tc) = n"
  shows "resizes ba tc tc (get_data ba tc)"
  using can_data_be_resized_Ok [OF assms(1)] assms(2) [unfolded can_data_be_changed_Ok] assms(3)
  by (auto simp: resizes_def get_data_def intro!: writes_refl)

lemma set_data_from_slice_op:
  assumes "set_data_from_slice ba tc d = Ok tc'"
  shows "resizes ba tc tc' d"
proof -
  from assms obtain tc1 where t: "touch ba tc = Ok tc1" "can_data_be_resized ba tc (length d) = Ok ()"
    "can_data_be_changed ba tc = Ok ()"
    and tc': "tc' = ba_put ba (update_accounts_resize_delta ba tc1 (length d)) ((ba_account ba tc1)\<lparr>data := d\<rparr>)"
    by (auto simp: set_data_from_slice_def result_simps Let_def)
  show ?thesis unfolding tc' touch_Ok(4) [OF t(1)] by (rule resizesI [OF t refl])
qed

lemma set_data_length_op:
  assumes "set_data_length ba tc n = Ok tc'"
  shows "resizes ba tc tc' (take n (get_data ba tc) @ replicate (n - length (get_data ba tc)) 0)"
proof -
  from assms have c: "can_data_be_resized ba tc n = Ok ()" "can_data_be_changed ba tc = Ok ()"
    by (auto simp: set_data_length_def result_simps)
  show ?thesis
  proof (cases "length (get_data ba tc) = n")
    case True
    then have "tc' = tc" using assms c by (simp add: set_data_length_def)
    then show ?thesis using resizes_refl [OF c True] True by simp
  next
    case False
    with assms c obtain tc1 where t: "touch ba tc = Ok tc1" and tc': "tc' =
      ba_put ba (update_accounts_resize_delta ba tc1 n)
        ((ba_account ba tc1)\<lparr>data := take n (get_data ba tc1) @ replicate (n - length (get_data ba tc1)) 0\<rparr>)"
      by (auto simp: set_data_length_def result_simps Let_def)
    show ?thesis unfolding tc' touch_Ok(4,5) [OF t] by (rule resizesI [OF t c]) simp
  qed
qed

lemma extend_from_slice_op:
  assumes "extend_from_slice ba tc d = Ok tc'"
  shows "resizes ba tc tc' (get_data ba tc @ d)"
proof -
  let ?n = "sat_add_u64 (length (get_data ba tc)) (length d)"
  from assms have c: "can_data_be_resized ba tc ?n = Ok ()" "can_data_be_changed ba tc = Ok ()"
    by (auto simp: extend_from_slice_def result_simps Let_def)
  have n: "length (get_data ba tc @ d) = ?n"
    using can_data_be_resized_Ok [OF c(1)]
    by (auto simp: arith_defs MAX_PERMITTED_DATA_LENGTH_def min_def split: if_splits)
  show ?thesis
  proof (cases "d = []")
    case True
    then have "tc' = tc" using assms c by (simp add: extend_from_slice_def Let_def)
    then show ?thesis using resizes_refl [OF c] n True by simp
  next
    case False
    with assms c obtain tc1 where t: "touch ba tc = Ok tc1" and tc': "tc' =
      ba_put ba (update_accounts_resize_delta ba tc1 ?n) ((ba_account ba tc1)\<lparr>data := get_data ba tc1 @ d\<rparr>)"
      by (auto simp: extend_from_slice_def result_simps Let_def)
    show ?thesis unfolding tc' touch_Ok(4,5) [OF t] by (rule resizesI [OF t c n])
  qed
qed

lemma writable_borrow:
  assumes "ic_fits ic" and "borrowed_in ic ba" and "is_writable ba"
  shows "writable_in ic (ba_index_in_transaction ba)"
proof -
  have p: "get_number_of_program_accounts ic = length (program_accounts ic)"
    using assms(1) by (simp add: ic_fits_def get_number_of_program_accounts_def)
  have ic: "ba_instruction_context ba = ic" using assms(2) by (simp add: borrowed_in_def)
  from assms(2) consider
      (acc) i where "get_index_of_instruction_account_in_transaction ic i = Ok (ba_index_in_transaction ba)"
        "ba_index_in_instruction ba = sat_add_u16 (get_number_of_program_accounts ic) i"
    | (prog) "ba_index_in_instruction ba < length (program_accounts ic)"
    by (auto simp: borrowed_in_def get_index_of_program_account_in_transaction_def result_simps list_get_def
        split: if_splits)
  then show ?thesis
  proof cases
    case acc
    then have i: "i < length (instruction_accounts ic)"
      "ba_index_in_transaction ba = index_in_transaction (instruction_accounts ic ! i)"
      by (auto simp: get_index_of_instruction_account_in_transaction_def result_simps list_get_def split: if_splits)
    have "ba_index_in_instruction ba = length (program_accounts ic) + i"
      using acc(2) i(1) assms(1) by (simp add: p ic_fits_def arith_defs)
    with assms(3) i have "ia_is_writable (instruction_accounts ic ! i)"
      by (simp add: is_writable_def ic p is_instruction_account_writable_def list_get_def ok_or_def)
    with i show ?thesis unfolding writable_in_def by (intro bexI [of _ "instruction_accounts ic ! i"]) auto
  next
    case prog
    with assms(3) show ?thesis by (simp add: is_writable_def ic p)
  qed
qed

lemma permitted_refl [simp]: "permitted ic p i a a"
  by (simp add: permitted_def)

lemma permitted_trans: "permitted ic p i a b \<Longrightarrow> permitted ic p i b c \<Longrightarrow> permitted ic p i a c"
  by (auto simp: permitted_def) (metis order_trans)

lemma owned_iff:
  assumes "borrowed_in ic ba"
  shows "is_owned_by_current_program ba tc \<longleftrightarrow> current_program ic tc = Some (owner (ba_account ba tc))"
  using assms
  by (auto simp: is_owned_by_current_program_def current_program_def borrowed_in_def get_owner_def
      split: result.splits)

lemma acct_set_borrowed [simp]: "i < length (cells_of tc) \<Longrightarrow> acct (set_borrowed tc j b) i = acct tc i"
  by (cases "i = j") (auto simp: set_borrowed_def)

lemma set_borrowed_frame [simp]:
  "same_frame tc (set_borrowed tc j b)" "resize_delta (set_borrowed tc j b) = resize_delta tc"
  by (simp_all add: same_frame_def set_borrowed_def)

lemma try_borrow_Ok:
  "try_borrow_account ic tc i k = Ok (ba, tc') \<Longrightarrow> tc' = set_borrowed tc i True"
  by (auto simp: try_borrow_account_def result_simps split: if_splits)

text \<open>An operation changes at most one account, one it has borrowed, and only as permitted.\<close>

lemma permitted_writes:
  assumes w: "writes ba tc tc' a" and fits: "ic_fits ic" and b: "borrowed_in ic ba"
    and a: "a = ba_account ba tc \<or> is_writable ba \<and> \<not> executable (ba_account ba tc) \<and>
      rent_epoch a = rent_epoch (ba_account ba tc) \<and>
      (is_owned_by_current_program ba tc \<or>
       (\<exists>l \<ge> lamports (ba_account ba tc). a = (ba_account ba tc)\<lparr>lamports := l\<rparr>))"
  shows "same_frame tc tc' \<and> (\<forall>i < length (cells_of tc). permitted ic (current_program ic tc) i (acct tc i) (acct tc' i))"
proof (intro conjI allI impI)
  show "same_frame tc tc'" using w by (simp add: writes_def)
  fix i assume i: "i < length (cells_of tc)"
  show "permitted ic (current_program ic tc) i (acct tc i) (acct tc' i)"
  proof (cases "i = ba_index_in_transaction ba")
    case True
    then have "acct tc' i = a" "acct tc i = ba_account ba tc"
      using w i by (auto simp: writes_def ba_account_def)
    then show ?thesis
      using a writable_borrow [OF fits b] owned_iff [OF b] True by (auto simp: permitted_def)
  next
    case False
    then show ?thesis using w i by (simp add: writes_def)
  qed
qed

lemma permitted_resizes:
  assumes "resizes ba tc tc' d" and "ic_fits ic" and "holds ic tc ba"
  shows "same_frame tc tc' \<and> (\<forall>i < length (cells_of tc). permitted ic (current_program ic tc) i (acct tc i) (acct tc' i))"
  using assms by (intro permitted_writes [where ba = ba and a = "(ba_account ba tc)\<lparr>data := d\<rparr>"])
    (auto simp: resizes_def holds_def)

lemma account_op_permitted:
  assumes "account_op ic tc tc'" and fits: "ic_fits ic"
  shows "same_frame tc tc' \<and> (\<forall>i < length (cells_of tc). permitted ic (current_program ic tc) i (acct tc i) (acct tc' i))"
  using assms(1)
proof cases
  case (op_borrow i ba)
  then obtain j where "tc' = set_borrowed tc j True"
    by (auto simp: try_borrow_instruction_account_def result_simps dest: try_borrow_Ok)
  then show ?thesis by simp
next
  case (op_borrow_program i ba)
  then obtain j where "tc' = set_borrowed tc j True"
    by (auto simp: try_borrow_program_account_def result_simps dest: try_borrow_Ok)
  then show ?thesis by simp
next
  case (op_drop ba)
  then show ?thesis by (simp add: drop_borrow_def)
next
  case (op_set_owner ba k)
  note o = set_owner_op [OF op_set_owner(2)]
  show ?thesis by (rule permitted_writes [OF o(1) fits]) (use o(3-5) op_set_owner(1) in \<open>auto simp: holds_def\<close>)
next
  case (op_set_lamports ba l)
  note o = set_lamports_op [OF op_set_lamports(2)]
  show ?thesis by (rule permitted_writes [OF o(1) fits]) (use o(3-5) op_set_lamports(1) in \<open>auto simp: holds_def\<close>)
next
  case (op_get_data_mut ba w)
  from op_get_data_mut(2) obtain d where o: "writes ba tc tc' ((ba_account ba tc)\<lparr>data := d\<rparr>)"
    "is_writable ba" "is_owned_by_current_program ba tc" "\<not> executable (ba_account ba tc)"
    by (rule get_data_mut_op)
  show ?thesis by (rule permitted_writes [OF o(1) fits]) (use o(2-4) op_get_data_mut(1) in \<open>auto simp: holds_def\<close>)
next
  case (op_set_data_from_slice ba d)
  show ?thesis by (rule permitted_resizes [OF set_data_from_slice_op fits]) (use op_set_data_from_slice in auto)
next
  case (op_set_data_length ba n)
  show ?thesis by (rule permitted_resizes [OF set_data_length_op fits]) (use op_set_data_length in auto)
next
  case (op_extend_from_slice ba d)
  show ?thesis by (rule permitted_resizes [OF extend_from_slice_op fits]) (use op_extend_from_slice in auto)
next
  case (op_set_executable ba b)
  note o = set_executable_op [OF op_set_executable(2)]
  have "executable (ba_account ba tc) \<Longrightarrow> (ba_account ba tc)\<lparr>executable := b\<rparr> = ba_account ba tc"
    using o(5) by simp
  then show ?thesis
    by (intro permitted_writes [OF o(1) fits]) (use o(3,4) op_set_executable(1) in \<open>auto simp: holds_def\<close>)
next
  case (op_set_return_data k d)
  then show ?thesis by (simp add: set_return_data_def same_frame_def)
qed

lemma current_program_frame:
  "same_frame tc tc' \<Longrightarrow> current_program ic tc' = current_program ic tc"
  by (simp add: current_program_def get_last_program_key_def get_key_of_account_at_index_def same_frame_def)

lemma account_ops_permitted:
  assumes "(account_op ic)\<^sup>*\<^sup>* tc tc'" and fits: "ic_fits ic"
  shows "same_frame tc tc' \<and>
    (\<forall>i < length (cells_of tc). permitted ic (current_program ic tc) i (acct tc i) (acct tc' i))"
  using assms(1)
proof (induction rule: rtranclp_induct)
  case (step tc1 tc2)
  have "current_program ic tc1 = current_program ic tc" using current_program_frame step.IH by blast
  with account_op_permitted [OF step.hyps(2) fits] step.IH show ?case
    by (auto simp: same_frame_def intro: permitted_trans)
qed simp

text \<open>A transaction with a program, an account of that program and one of another, for the examples.\<close>

definition example_context :: transaction_context where
  "example_context =
     (transaction_context_new
        [(10, \<lparr>lamports = 1, data = [], owner = 1, executable = True, rent_epoch = 0\<rparr>),
         (20, \<lparr>lamports = 5, data = [], owner = 10, executable = False, rent_epoch = 0\<rparr>),
         (30, \<lparr>lamports = 2, data = [], owner = 11, executable = False, rent_epoch = 0\<rparr>)]
        \<lparr>minimum_balance = \<lambda>_. 0\<rparr> 5 64)
      \<lparr>instruction_trace :=
         [\<lparr>nesting_level = 0, lamport_sum = 0, program_accounts = [0],
           instruction_accounts =
             [\<lparr>index_in_transaction = 1, index_in_caller = 0, index_in_callee = 0, ia_is_signer = False, ia_is_writable = True\<rparr>,
              \<lparr>index_in_transaction = 2, index_in_caller = 1, index_in_callee = 1, ia_is_signer = False, ia_is_writable = True\<rparr>],
           instruction_data = []\<rparr>]\<rparr>"

definition example_instruction :: instruction_context where
  "example_instruction = last (instruction_trace example_context)"

lemmas example_defs = example_context_def example_instruction_def transaction_context_new_def
  transaction_accounts_new_def

lemma example_instruction_ok: "instruction_ok example_instruction"
  by (auto simp: example_defs instruction_ok_def ic_fits_def less_Suc_eq)

lemma example_borrow:
  "try_borrow_instruction_account example_instruction example_context 1 =
     Ok (\<lparr>ba_index_in_transaction = 2, ba_index_in_instruction = 2, ba_instruction_context = example_instruction\<rparr>,
         set_borrowed example_context 2 True)"
  by (simp add: example_defs try_borrow_instruction_account_def try_borrow_account_def list_get_def ok_or_def
      get_index_of_instruction_account_in_transaction_def get_number_of_program_accounts_def sat_add_u16_def)

text \<open>
  C4: whatever sequence of operations a program performs on the accounts of its instruction, every
  account stays as it is unless the instruction lists it as writable and it is not executable; and of
  an account that the program does not own, only the balance changes and it never decreases.
\<close>

theorem program_access_control:
  assumes run: "(account_op ic)\<^sup>*\<^sup>* tc tc'" and fits: "ic_fits ic" and i: "i < length (cells_of tc)"
  shows "account_keys tc' = account_keys tc \<and> length (cells_of tc') = length (cells_of tc) \<and>
    permitted ic (current_program ic tc) i (acct tc i) (acct tc' i)"
  using account_ops_permitted [OF run fits] i by (simp add: same_frame_def)

theorem program_access_control_witness:
  "account_op example_instruction example_context (set_borrowed example_context 2 True) \<and>
   permitted example_instruction (current_program example_instruction example_context) 2
     (acct example_context 2) (acct (set_borrowed example_context 2 True) 2)"
proof
  show op: "account_op example_instruction example_context (set_borrowed example_context 2 True)"
    using example_borrow by (rule op_borrow)
  have "ic_fits example_instruction" using example_instruction_ok by (simp add: instruction_ok_def)
  moreover have "2 < length (cells_of example_context)" by (simp add: example_defs)
  ultimately show "permitted example_instruction (current_program example_instruction example_context) 2
     (acct example_context 2) (acct (set_borrowed example_context 2 True) 2)"
    using program_access_control [OF r_into_rtranclp [of "account_op example_instruction", OF op]] by blast
qed


section \<open>Sums over the accounts\<close>

lemma total_writes:
  assumes "writes ba tc tc' a" and "ba_index_in_transaction ba < length (cells_of tc)"
  shows "total f tc' + f (ba_account ba tc) = total f tc + f a"
proof -
  let ?k = "ba_index_in_transaction ba" and ?n = "length (cells_of tc)"
  have n: "length (cells_of tc') = ?n" using assms(1) by (simp add: writes_def same_frame_def)
  have split: "(\<Sum>i < ?n. g i) = g ?k + (\<Sum>i \<in> {..< ?n} - {?k}. g i)" for g :: "nat \<Rightarrow> nat"
    using assms(2) by (intro sum.remove) auto
  have "(\<Sum>i \<in> {..< ?n} - {?k}. f (acct tc' i)) = (\<Sum>i \<in> {..< ?n} - {?k}. f (acct tc i))"
    using assms(1) by (intro sum.cong) (auto simp: writes_def)
  then show ?thesis
    using assms unfolding total_def n split by (simp add: writes_def ba_account_def)
qed

lemma total_bound:
  "data_lengths_ok tc \<Longrightarrow> total (length \<circ> data) tc \<le> length (cells_of tc) * MAX_PERMITTED_DATA_LENGTH"
  using sum_bounded_above [of "{..< length (cells_of tc)}" "\<lambda>i. length (data (acct tc i))" MAX_PERMITTED_DATA_LENGTH]
  by (simp add: total_def data_lengths_ok_def)

lemma data_lengths_writes:
  assumes "writes ba tc tc' a" and "data_lengths_ok tc" and "length (data a) \<le> MAX_PERMITTED_DATA_LENGTH"
  shows "data_lengths_ok tc'"
  using assms by (auto simp: data_lengths_ok_def writes_def same_frame_def)

lemma resize_inv_keep:
  assumes inv: "resize_inv base tc" and w: "writes ba tc tc' a" and k: "ba_index_in_transaction ba < length (cells_of tc)"
    and a: "length (data a) = length (data (ba_account ba tc))" and d: "resize_delta tc' = resize_delta tc"
  shows "resize_inv base tc'"
proof -
  have "length (data (ba_account ba tc)) \<le> MAX_PERMITTED_DATA_LENGTH"
    using inv k by (simp add: resize_inv_def data_lengths_ok_def ba_account_def)
  then show ?thesis
    using inv d a data_lengths_writes [OF w] total_writes [OF w k, of "length \<circ> data"] w
    by (auto simp: resize_inv_def writes_def same_frame_def)
qed

lemma sat_i64_id: "- (2 ^ 63) \<le> x \<Longrightarrow> x \<le> 2 ^ 63 - 1 \<Longrightarrow> sat_i64 x = x"
  by (simp add: arith_defs)

lemma delta_after_exact:
  assumes inv: "resize_inv base tc" and k: "ba_index_in_transaction ba < length (cells_of tc)"
    and n: "n \<le> MAX_PERMITTED_DATA_LENGTH" and base: "0 \<le> base" "base \<le> 2 ^ 40"
  shows "delta_after ba tc n = resize_delta tc + (int n - int (length (data (ba_account ba tc))))"
proof -
  let ?old = "length (data (ba_account ba tc))"
  have old: "?old \<le> MAX_PERMITTED_DATA_LENGTH"
    using inv k by (simp add: resize_inv_def data_lengths_ok_def ba_account_def)
  have "resize_delta tc \<ge> - base" "resize_delta tc \<le> 20971520"
    using inv by (auto simp: resize_inv_def MAX_PERMITTED_ACCOUNTS_DATA_ALLOCATIONS_PER_TRANSACTION_def
        MAX_PERMITTED_DATA_LENGTH_def)
  then show ?thesis
    using old n base by (simp add: delta_after_def get_data_def as_i64_small sat_i64_id MAX_PERMITTED_DATA_LENGTH_def)
qed

lemma resize_inv_resizes:
  assumes inv: "resize_inv base tc" and r: "resizes ba tc tc' d" and k: "ba_index_in_transaction ba < length (cells_of tc)"
    and base: "0 \<le> base" "base \<le> 2 ^ 40"
  shows "resize_inv base tc'"
proof (cases "tc' = tc")
  case False
  from r have w: "writes ba tc tc' ((ba_account ba tc)\<lparr>data := d\<rparr>)" and len: "length d \<le> MAX_PERMITTED_DATA_LENGTH"
    and delta: "resize_delta tc' = delta_after ba tc (length d)"
      "delta_after ba tc (length d) \<le> MAX_PERMITTED_ACCOUNTS_DATA_ALLOCATIONS_PER_TRANSACTION"
    using False by (auto simp: resizes_def)
  note e = delta_after_exact [OF inv k len base]
  have "int (total (length \<circ> data) tc') + int (length (data (ba_account ba tc))) =
      int (total (length \<circ> data) tc) + int (length d)"
    using total_writes [OF w k, of "length \<circ> data"] by simp
  then have "int (total (length \<circ> data) tc') = base + resize_delta tc'"
    using inv e delta(1) by (simp add: resize_inv_def)
  moreover have "data_lengths_ok tc'"
    using data_lengths_writes [OF w] inv len by (simp add: resize_inv_def)
  ultimately show ?thesis
    using inv delta w by (simp add: resize_inv_def writes_def same_frame_def)
qed (use inv in simp)

lemma resize_inv_borrow:
  assumes "resize_inv base tc"
  shows "resize_inv base (set_borrowed tc j b)" "resize_inv base (set_return_data tc k d)"
proof -
  have "length (cells_of (set_borrowed tc j b)) = length (cells_of tc)" by (simp add: set_borrowed_def)
  then show "resize_inv base (set_borrowed tc j b)"
    using assms by (simp add: resize_inv_def data_lengths_ok_def total_def)
  show "resize_inv base (set_return_data tc k d)"
    using assms by (simp add: resize_inv_def data_lengths_ok_def total_def set_return_data_def)
qed

lemma account_op_resize:
  assumes "account_op ic tc tc'" and inv: "resize_inv base tc" and base: "0 \<le> base" "base \<le> 2 ^ 40"
  shows "resize_inv base tc'"
  using assms(1)
proof cases
  case (op_borrow i ba)
  then show ?thesis using resize_inv_borrow [OF inv]
    by (auto simp: try_borrow_instruction_account_def result_simps dest: try_borrow_Ok)
next
  case (op_borrow_program i ba)
  then show ?thesis using resize_inv_borrow [OF inv]
    by (auto simp: try_borrow_program_account_def result_simps dest: try_borrow_Ok)
next
  case (op_drop ba)
  then show ?thesis using resize_inv_borrow [OF inv] by (simp add: drop_borrow_def)
next
  case (op_set_owner ba k)
  note o = set_owner_op [OF op_set_owner(2)]
  show ?thesis
    by (rule resize_inv_keep [OF inv o(1)]) (use o(2) op_set_owner(1) in \<open>auto simp: holds_def\<close>)
next
  case (op_set_lamports ba l)
  note o = set_lamports_op [OF op_set_lamports(2)]
  show ?thesis
    by (rule resize_inv_keep [OF inv o(1)]) (use o(2) op_set_lamports(1) in \<open>auto simp: holds_def\<close>)
next
  case (op_get_data_mut ba w)
  from op_get_data_mut(2) obtain d where o: "writes ba tc tc' ((ba_account ba tc)\<lparr>data := d\<rparr>)"
    "length d = length (get_data ba tc)" "resize_delta tc' = resize_delta tc" by (rule get_data_mut_op)
  show ?thesis
    by (rule resize_inv_keep [OF inv o(1)]) (use o(2,3) op_get_data_mut(1) in \<open>auto simp: holds_def get_data_def\<close>)
next
  case (op_set_data_from_slice ba d)
  then show ?thesis by (intro resize_inv_resizes [OF inv set_data_from_slice_op _ base]) (auto simp: holds_def)
next
  case (op_set_data_length ba n)
  then show ?thesis by (intro resize_inv_resizes [OF inv set_data_length_op _ base]) (auto simp: holds_def)
next
  case (op_extend_from_slice ba d)
  then show ?thesis by (intro resize_inv_resizes [OF inv extend_from_slice_op _ base]) (auto simp: holds_def)
next
  case (op_set_executable ba b)
  note o = set_executable_op [OF op_set_executable(2)]
  show ?thesis
    by (rule resize_inv_keep [OF inv o(1)]) (use o(2) op_set_executable(1) in \<open>auto simp: holds_def\<close>)
next
  case (op_set_return_data k d)
  then show ?thesis using resize_inv_borrow [OF inv] by simp
qed

text \<open>
  C19: throughout the operations of a program the resize delta of the transaction is exactly the growth
  of all account data over its size at the beginning, that growth never exceeds 20 MiB (20971520
  bytes), and no account is larger than 10 MiB.
\<close>

theorem account_data_growth_bounded:
  assumes run: "(account_op ic)\<^sup>*\<^sup>* tc tc'" and inv: "resize_inv base tc" and base: "0 \<le> base" "base \<le> 2 ^ 40"
  shows "int (total (length \<circ> data) tc') = base + resize_delta tc' \<and>
    int (total (length \<circ> data) tc') \<le> base + 20971520 \<and>
    (\<forall>i < length (cells_of tc'). length (data (acct tc' i)) \<le> 10485760)"
proof -
  have "resize_inv base tc'"
    using run inv by (induction rule: rtranclp_induct) (auto intro: account_op_resize [OF _ _ base])
  then show ?thesis
    by (simp add: resize_inv_def data_lengths_ok_def MAX_PERMITTED_DATA_LENGTH_def
        MAX_PERMITTED_ACCOUNTS_DATA_ALLOCATIONS_PER_TRANSACTION_def)
qed

theorem account_data_growth_bounded_witness:
  "account_op example_instruction example_context (set_borrowed example_context 2 True) \<and>
   int (total (length \<circ> data) (set_borrowed example_context 2 True)) \<le> 20971520"
proof
  show op: "account_op example_instruction example_context (set_borrowed example_context 2 True)"
    using example_borrow by (rule op_borrow)
  have "resize_inv 0 example_context"
    by (simp add: example_defs resize_inv_def data_lengths_ok_def total_def numeral_3_eq_3 less_Suc_eq
        MAX_PERMITTED_ACCOUNTS_DATA_ALLOCATIONS_PER_TRANSACTION_def MAX_PERMITTED_DATA_LENGTH_def)
  then show "int (total (length \<circ> data) (set_borrowed example_context 2 True)) \<le> 20971520"
    using account_data_growth_bounded [OF r_into_rtranclp [of "account_op example_instruction", OF op], of 0] by simp
qed


section \<open>Calls\<close>

lemma push_Ok:
  assumes "push tc = (tc1, Ok ())" and "trace_wf tc"
  obtains s where "instruction_accounts_lamport_sum tc (last (instruction_trace tc)) = Ok s"
    "accounts tc1 = accounts tc" "account_keys tc1 = account_keys tc"
    "instruction_stack tc1 = instruction_stack tc @ [length (instruction_trace tc) - 1]"
    "instruction_trace tc1 = butlast (instruction_trace tc) @
       [(last (instruction_trace tc))\<lparr>nesting_level := length (instruction_stack tc), lamport_sum := s\<rparr>,
        instruction_context_default]"
    "trace_wf tc1"
    "get_current_instruction_context tc1 =
       Ok ((last (instruction_trace tc))\<lparr>nesting_level := length (instruction_stack tc), lamport_sum := s\<rparr>)"
proof -
  have ne: "instruction_trace tc \<noteq> []" using assms(2) by (simp add: trace_wf_def)
  from assms(1) obtain s where c: "push_checks tc = Ok s"
    by (cases "push_checks tc") (auto simp: push_def Let_def)
  then have sum: "instruction_accounts_lamport_sum tc (last (instruction_trace tc)) = Ok s"
    using ne by (auto simp: push_checks_def result_simps split: if_splits)
  let ?callee = "(last (instruction_trace tc))\<lparr>nesting_level := length (instruction_stack tc), lamport_sum := s\<rparr>"
  from assms(1) c ne have tc1: "tc1 = tc\<lparr>instruction_trace := butlast (instruction_trace tc) @ [?callee, instruction_context_default],
      instruction_stack := instruction_stack tc @ [length (instruction_trace tc) - 1]\<rparr>"
    by (auto simp: push_def Let_def get_instruction_trace_length_def get_instruction_context_stack_height_def
        split: if_splits)
  have "trace_wf tc1"
    using assms(2) ne by (auto simp: trace_wf_def tc1)
  moreover have "get_current_instruction_context tc1 = Ok ?callee"
    using ne by (simp add: get_current_instruction_context_def get_instruction_context_stack_height_def tc1
        checked_sub_def ok_or_def get_instruction_context_at_nesting_level_def list_get_def
        get_instruction_context_at_index_in_trace_def nth_append)
  ultimately show ?thesis
    using sum by (intro that [of s]) (simp_all add: tc1)
qed

lemma pop_Ok:
  assumes "pop tc = (tc', Ok ())"
  shows "tc' = tc\<lparr>instruction_stack := butlast (instruction_stack tc)\<rparr>" "instruction_stack tc \<noteq> []"
    and "\<exists>ic. get_current_instruction_context tc = Ok ic \<and> instruction_accounts_lamport_sum tc ic = Ok (lamport_sum ic)"
  using assms by (auto simp: pop_def detect_unbalanced_def result_simps split: if_splits)


lemma run_frame_trans: "run_frame I tc tc' \<Longrightarrow> run_frame I tc' tc'' \<Longrightarrow> run_frame I tc tc''"
  by (simp add: run_frame_def)

lemma account_op_run_frame:
  assumes "account_op ic tc tc'" and "instruction_ok ic" and "trace_wf tc"
  shows "run_frame (account_indices ic) tc tc'"
proof -
  have "ic_fits ic" using assms(2) by (simp add: instruction_ok_def)
  note p = account_op_permitted [OF assms(1) this]
  have "i \<notin> account_indices ic \<Longrightarrow> \<not> writable_in ic i" for i
    by (auto simp: writable_in_def account_indices_def)
  with p assms(3) show ?thesis
    by (auto simp: run_frame_def same_frame_def trace_wf_def permitted_def)
qed

lemma current_context_frame:
  assumes "run_frame I tc tc'" and "instruction_stack tc \<noteq> []" and "trace_wf tc"
  shows "get_current_instruction_context tc' = get_current_instruction_context tc"
proof -
  let ?s = "last (instruction_stack tc)"
  have eq: "get_current_instruction_context t = Ok (instruction_trace t ! ?s)"
    if "instruction_stack t = instruction_stack tc" "trace_wf t" for t
  proof -
    have "?s \<in> set (instruction_stack tc)" using assms(2) by simp
    then have "?s < length (instruction_trace t)" using that by (fastforce simp: trace_wf_def)
    then show ?thesis
      using that(1) assms(2)
      by (simp add: get_current_instruction_context_def get_instruction_context_stack_height_def checked_sub_def
          ok_or_def get_instruction_context_at_nesting_level_def list_get_def last_conv_nth Suc_le_eq
          get_instruction_context_at_index_in_trace_def)
  qed
  show ?thesis
    using eq [of tc] eq [of tc'] assms by (auto simp: run_frame_def)
qed

lemma call_frame:
  assumes wf: "trace_wf tc" and callee: "account_indices callee = account_indices (last (instruction_trace tc))"
    and push: "push tc = (tc1, Ok ())" and run: "run_frame (account_indices callee) tc1 tc2"
    and pop: "pop tc2 = (tc3, Ok ())" and sub: "account_indices callee \<subseteq> I"
  shows "run_frame I tc tc3"
proof -
  from push wf obtain s where p: "accounts tc1 = accounts tc" "account_keys tc1 = account_keys tc"
    "instruction_stack tc1 = instruction_stack tc @ [length (instruction_trace tc) - 1]"
    "instruction_trace tc1 = butlast (instruction_trace tc) @
       [(last (instruction_trace tc))\<lparr>nesting_level := length (instruction_stack tc), lamport_sum := s\<rparr>,
        instruction_context_default]" "trace_wf tc1"
    by (rule push_Ok)
  note q = pop_Ok [OF pop]
  have "instruction_trace tc1 ! x = instruction_trace tc ! x" if "x \<in> set (instruction_stack tc)" for x
    using that wf by (auto simp: trace_wf_def p(4) nth_append nth_butlast)
  moreover have "set (instruction_stack tc) \<subseteq> set (instruction_stack tc1)" by (auto simp: p(3))
  ultimately show ?thesis
    using run p(1-3) q(1) sub by (auto simp: run_frame_def trace_wf_def)
qed

lemma configure_frame:
  assumes "trace_wf tc"
  shows "run_frame I tc (tc\<lparr>instruction_trace := butlast (instruction_trace tc) @ [callee]\<rparr>)"
  using assms by (auto simp: run_frame_def trace_wf_def nth_append nth_butlast)

lemma instruction_ok_indices:
  "instruction_ok (ic\<lparr>nesting_level := n, lamport_sum := s\<rparr>) = instruction_ok ic"
  "account_indices (ic\<lparr>nesting_level := n, lamport_sum := s\<rparr>) = account_indices ic"
  by (simp_all add: instruction_ok_def ic_fits_def account_indices_def)

lemma program_run_frame:
  assumes "program_run ic tc tc'" and "instruction_ok ic" and "trace_wf tc"
  shows "run_frame (account_indices ic) tc tc'"
  using assms
proof (induction rule: program_run.induct)
  case (run_done ic tc)
  then show ?case by (simp add: run_frame_def)
next
  case (run_op ic tc tc1 tc2)
  note f = account_op_run_frame [OF run_op.hyps(1) run_op.prems]
  moreover from f have "trace_wf tc1" by (simp add: run_frame_def)
  ultimately show ?case using run_op.IH run_op.prems(1) run_frame_trans by blast
next
  case (run_call callee tc ps ias d ic tc1 ic' tc2 tc3 tc4)
  let ?tc = "tc\<lparr>instruction_trace := butlast (instruction_trace tc) @ [callee]\<rparr>"
  have cf: "run_frame (account_indices ic) tc ?tc" by (rule configure_frame [OF run_call.prems(2)])
  then have wf: "trace_wf ?tc" by (simp add: run_frame_def)
  obtain s where p: "trace_wf tc1" "ic' = callee\<lparr>nesting_level := length (instruction_stack tc), lamport_sum := s\<rparr>"
    by (rule push_Ok [OF run_call.hyps(4) wf]) (use run_call.hyps(5) in simp)
  have "run_frame (account_indices callee) tc1 tc2"
    using run_call.IH(1) run_call.hyps(2) p by (simp add: instruction_ok_indices)
  then have "run_frame (account_indices ic) ?tc tc3"
    by (intro call_frame [OF wf _ run_call.hyps(4) _ run_call.hyps(7) run_call.hyps(3)]) simp
  then have f: "run_frame (account_indices ic) tc tc3" using cf run_frame_trans by blast
  moreover from f have "trace_wf tc3" by (simp add: run_frame_def)
  ultimately show ?case using run_call.IH(2) run_call.prems(1) run_frame_trans by blast
qed

section \<open>Lamports are conserved\<close>

lemma lamport_sum_loop_Ok:
  assumes "lamport_sum_loop tc ic is acc = Ok s" and "\<forall>i \<in> set is. i < length (instruction_accounts ic)"
  shows "s = acc + (\<Sum>i \<leftarrow> filter (\<lambda>i. index_in_callee (ia_at ic i) = i) is. lamports (acct tc (index_in_transaction (ia_at ic i)))) \<and>
    (\<forall>i \<in> set is. index_in_callee (ia_at ic i) = i \<longrightarrow> index_in_transaction (ia_at ic i) < length (cells_of tc))"
  using assms
proof (induction "is" arbitrary: acc)
  case (Cons i "is")
  show ?case
  proof (cases "index_in_callee (ia_at ic i) = i")
    case True
    let ?k = "index_in_transaction (ia_at ic i)"
    from Cons.prems True have k: "?k < length (cells_of tc)"
      and ok: "lamport_sum_loop tc ic is (lamports (acct tc ?k) + acc) = Ok s"
      by (auto simp: result_simps is_instruction_account_duplicate_def list_get_def get_account_at_index_def
          get_index_of_instruction_account_in_transaction_def Let_def split: if_splits)
    from Cons.IH [OF ok] Cons.prems(2) True k show ?thesis by simp
  next
    case False
    with Cons.prems have ok: "lamport_sum_loop tc ic is acc = Ok s"
      by (auto simp: result_simps is_instruction_account_duplicate_def list_get_def split: if_splits)
    from Cons.IH [OF ok] Cons.prems(2) False show ?thesis by simp
  qed
qed simp

lemma first_occurrences:
  assumes "instruction_ok ic"
  defines "F \<equiv> {i. i < length (instruction_accounts ic) \<and> index_in_callee (ia_at ic i) = i}"
  shows "inj_on (\<lambda>i. index_in_transaction (ia_at ic i)) F"
    and "(\<lambda>i. index_in_transaction (ia_at ic i)) ` F = account_indices ic"
proof -
  let ?t = "\<lambda>i. index_in_transaction (ia_at ic i)"
  have first: "i \<in> F \<longleftrightarrow> i < length (instruction_accounts ic) \<and> (\<forall>j < i. ?t j \<noteq> ?t i)" for i
    using assms by (auto simp: instruction_ok_def)
  show "inj_on ?t F"
  proof (rule inj_onI)
    fix i j assume "i \<in> F" "j \<in> F" "?t i = ?t j"
    then show "i = j" using first [of i] first [of j] by (cases i j rule: linorder_cases) auto
  qed
  show "?t ` F = account_indices ic"
  proof
    show "?t ` F \<subseteq> account_indices ic" by (auto simp: F_def account_indices_def)
    show "account_indices ic \<subseteq> ?t ` F"
    proof
      fix x assume "x \<in> account_indices ic"
      then obtain i where i: "i < length (instruction_accounts ic)" "?t i = x"
        by (auto simp: account_indices_def in_set_conv_nth)
      define j where "j = (LEAST j. ?t j = x)"
      have "?t j = x" "j \<le> i" using LeastI [of "\<lambda>j. ?t j = x" i] Least_le [of "\<lambda>j. ?t j = x" i] i
        by (auto simp: j_def)
      moreover have "?t k \<noteq> x" if "k < j" for k using not_less_Least that unfolding j_def by blast
      ultimately show "x \<in> ?t ` F" using first [of j] i by force
    qed
  qed
qed

lemma instruction_lamport_sum:
  assumes ok: "instruction_ok ic" and s: "instruction_accounts_lamport_sum tc ic = Ok s"
  shows "account_indices ic \<subseteq> {..< length (cells_of tc)}"
    and "s = (\<Sum>i \<in> account_indices ic. lamports (acct tc i))"
proof -
  let ?n = "length (instruction_accounts ic)" and ?t = "\<lambda>i. index_in_transaction (ia_at ic i)"
  let ?F = "{i. i < ?n \<and> index_in_callee (ia_at ic i) = i}"
  have n: "get_number_of_instruction_accounts ic = ?n"
    using ok by (simp add: instruction_ok_def ic_fits_def get_number_of_instruction_accounts_def)
  note loop = lamport_sum_loop_Ok [OF s [unfolded instruction_accounts_lamport_sum_def n]]
  note F = first_occurrences [OF ok]
  show "account_indices ic \<subseteq> {..< length (cells_of tc)}"
    unfolding F(2) [symmetric] using loop by auto
  have "s = (\<Sum>i \<leftarrow> filter (\<lambda>i. index_in_callee (ia_at ic i) = i) [0 ..< ?n]. lamports (acct tc (?t i)))"
    using loop by simp
  also have "\<dots> = (\<Sum>i \<in> set (filter (\<lambda>i. index_in_callee (ia_at ic i) = i) [0 ..< ?n]). lamports (acct tc (?t i)))"
    by (rule sum_list_distinct_conv_sum_set) simp
  also have "set (filter (\<lambda>i. index_in_callee (ia_at ic i) = i) [0 ..< ?n]) = ?F" by auto
  also have "(\<Sum>i \<in> ?F. lamports (acct tc (?t i))) = (\<Sum>i \<in> account_indices ic. lamports (acct tc i))"
    unfolding F(2) [symmetric] by (simp add: sum.reindex [OF F(1)])
  finally show "s = (\<Sum>i \<in> account_indices ic. lamports (acct tc i))" .
qed

lemma total_split:
  assumes "I \<subseteq> {..< length (cells_of tc)}"
  shows "total f tc = (\<Sum>i \<in> I. f (acct tc i)) + (\<Sum>i \<in> {..< length (cells_of tc)} - I. f (acct tc i))"
  using assms by (simp add: total_def sum.subset_diff add.commute)

text \<open>
  C12: an instruction that is pushed, run with any nesting of calls, and popped without an error leaves
  the total of lamports over all accounts of the transaction unchanged.
\<close>

theorem instruction_conserves_lamports:
  assumes wf: "trace_wf tc" and callee: "instruction_ok (last (instruction_trace tc))"
    and push: "push tc = (tc1, Ok ())" and cur: "get_current_instruction_context tc1 = Ok ic"
    and run: "program_run ic tc1 tc2" and pop: "pop tc2 = (tc3, Ok ())"
  shows "total lamports tc3 = total lamports tc"
proof -
  from push wf obtain s where sum: "instruction_accounts_lamport_sum tc (last (instruction_trace tc)) = Ok s"
    and acc: "accounts tc1 = accounts tc" and wf1: "trace_wf tc1"
    and ne: "instruction_stack tc1 \<noteq> []"
    and ic: "ic = (last (instruction_trace tc))\<lparr>nesting_level := length (instruction_stack tc), lamport_sum := s\<rparr>"
    by (rule push_Ok) (use cur in simp)
  have ok: "instruction_ok ic" using callee by (simp add: ic instruction_ok_indices)
  note f = program_run_frame [OF run ok wf1]
  have "get_current_instruction_context tc2 = Ok ic" using current_context_frame [OF f ne wf1] cur by simp
  with pop_Ok(3) [OF pop] have sum2: "instruction_accounts_lamport_sum tc2 ic = Ok s" by (simp add: ic)
  note before = instruction_lamport_sum [OF callee sum] and after = instruction_lamport_sum [OF ok sum2]
  have I: "account_indices ic = account_indices (last (instruction_trace tc))"
    by (simp add: ic instruction_ok_indices)
  have len: "length (cells_of tc2) = length (cells_of tc)" using f by (simp add: run_frame_def acc)
  have rest: "(\<Sum>i \<in> {..< length (cells_of tc)} - account_indices ic. lamports (acct tc2 i)) =
      (\<Sum>i \<in> {..< length (cells_of tc)} - account_indices ic. lamports (acct tc i))"
    using f by (intro sum.cong) (auto simp: run_frame_def acc)
  have "total lamports tc2 = total lamports tc"
    using total_split [OF before(1), of lamports] total_split [OF after(1), of lamports] before(2) after(2) rest
    by (simp add: I len)
  then show ?thesis using pop_Ok(1) [OF pop] by (simp add: total_def)
qed

theorem instruction_conserves_lamports_witness:
  "\<exists>tc1 tc3. push example_context = (tc1, Ok ()) \<and> pop tc1 = (tc3, Ok ()) \<and>
     total lamports tc3 = total lamports example_context"
proof -
  have wf: "trace_wf example_context" by (simp add: trace_wf_def example_defs)
  have ok: "instruction_ok (last (instruction_trace example_context))"
    using example_instruction_ok by (simp add: example_instruction_def)
  let ?tc1 = "fst (push example_context)"
  have push: "push example_context = (?tc1, Ok ())"
    by (simp add: push_def push_checks_def example_defs instruction_accounts_lamport_sum_def
        get_number_of_instruction_accounts_def is_instruction_account_duplicate_def list_get_def ok_or_def
        get_index_of_instruction_account_in_transaction_def get_account_at_index_def Let_def
        get_instruction_context_stack_height_def get_instruction_trace_length_def)
  obtain ic where cur: "get_current_instruction_context ?tc1 = Ok ic"
    using push wf by (rule push_Ok)
  have pop: "pop ?tc1 = (fst (pop ?tc1), Ok ())"
    by (simp add: pop_def detect_unbalanced_def push_def push_checks_def example_defs
        instruction_accounts_lamport_sum_def get_number_of_instruction_accounts_def
        is_instruction_account_duplicate_def list_get_def ok_or_def
        get_index_of_instruction_account_in_transaction_def get_account_at_index_def Let_def
        get_instruction_context_stack_height_def get_instruction_trace_length_def
        get_current_instruction_context_def get_instruction_context_at_nesting_level_def
        get_instruction_context_at_index_in_trace_def checked_sub_def)
  from instruction_conserves_lamports [OF wf ok push cur run_done pop] push pop show ?thesis by blast
qed


end
