(* ===== verification/Vote_Program.thy ===== *)
theory Vote_Program
  imports Invoke_Context Access_Control
begin

text \<open>
  The vote program on the accounts of a transaction: the stored versions of a vote state
  (\<^verbatim>\<open>sdk/program/src/vote/state/vote_state_versions.rs\<close>), the account-level operations of
  \<^verbatim>\<open>programs/vote/src/vote_state/mod.rs\<close> and the dispatch of \<^verbatim>\<open>programs/vote/src/vote_processor.rs\<close>.

  The byte format of a stored state is a parameter (\<open>codec\<close>), as is the parser of the instruction
  data. A signer set is a \<^typ>\<open>pubkey set\<close>. A mutable borrow is the borrow flag of the account's cell;
  it is released when its owner goes out of scope.
\<close>

section \<open>Versions of the stored state\<close>

record vote_state_0_23_5 =
  v0_node_pubkey :: pubkey
  v0_authorized_voter :: pubkey
  v0_authorized_voter_epoch :: epoch
  v0_prior_voters :: "(pubkey \<times> epoch \<times> epoch \<times> slot) list \<times> nat"
  v0_authorized_withdrawer :: pubkey
  v0_commission :: nat
  v0_votes :: "lockout list"
  v0_root_slot :: "slot option"
  v0_epoch_credits :: "(epoch \<times> nat \<times> nat) list"
  v0_last_timestamp :: block_timestamp

record vote_state_1_14_11 =
  v1_node_pubkey :: pubkey
  v1_authorized_withdrawer :: pubkey
  v1_commission :: nat
  v1_votes :: "lockout list"
  v1_root_slot :: "slot option"
  v1_authorized_voters :: authorized_voters
  v1_prior_voters :: "(pubkey \<times> epoch \<times> epoch) circ_buf"
  v1_epoch_credits :: "(epoch \<times> nat \<times> nat) list"
  v1_last_timestamp :: block_timestamp

datatype vote_state_versions =
    V0_23_5 vote_state_0_23_5
  | V1_14_11 vote_state_1_14_11
  | Current vote_state

definition vote_state_1_14_11_from :: "vote_state \<Rightarrow> vote_state_1_14_11" where
  "vote_state_1_14_11_from vs =
     \<lparr>v1_node_pubkey = node_pubkey vs,
      v1_authorized_withdrawer = authorized_withdrawer vs,
      v1_commission = commission vs,
      v1_votes = map lv_lockout (votes vs),
      v1_root_slot = root_slot vs,
      v1_authorized_voters = authorized_voters vs,
      v1_prior_voters = prior_voters vs,
      v1_epoch_credits = epoch_credits vs,
      v1_last_timestamp = last_timestamp vs\<rparr>"

definition landed_votes_from_lockouts :: "lockout list \<Rightarrow> landed_vote list" where
  "landed_votes_from_lockouts ls = map landed_vote_from ls"

definition convert_to_current :: "vote_state_versions \<Rightarrow> vote_state" where
  "convert_to_current v =
     (case v of
        V0_23_5 s \<Rightarrow>
          \<lparr>node_pubkey = v0_node_pubkey s,
           authorized_withdrawer = v0_authorized_withdrawer s,
           commission = v0_commission s,
           votes = landed_votes_from_lockouts (v0_votes s),
           root_slot = v0_root_slot s,
           authorized_voters = av_new (v0_authorized_voter_epoch s) (v0_authorized_voter s),
           prior_voters = circ_buf_default (0, 0, 0),
           epoch_credits = v0_epoch_credits s,
           last_timestamp = v0_last_timestamp s\<rparr>
      | V1_14_11 s \<Rightarrow>
          \<lparr>node_pubkey = v1_node_pubkey s,
           authorized_withdrawer = v1_authorized_withdrawer s,
           commission = v1_commission s,
           votes = landed_votes_from_lockouts (v1_votes s),
           root_slot = v1_root_slot s,
           authorized_voters = v1_authorized_voters s,
           prior_voters = v1_prior_voters s,
           epoch_credits = v1_epoch_credits s,
           last_timestamp = v1_last_timestamp s\<rparr>
      | Current s \<Rightarrow> s)"

definition is_uninitialized :: "vote_state_versions \<Rightarrow> bool" where
  "is_uninitialized v =
     (case v of
        V0_23_5 s \<Rightarrow> v0_authorized_voter s = 0
      | V1_14_11 s \<Rightarrow> av_is_empty (v1_authorized_voters s)
      | Current s \<Rightarrow> av_is_empty (authorized_voters s))"

section \<open>Operations on a vote account\<close>

type_synonym vote_codec = "vote_state_versions codec"
type_synonym outcome = "(instruction_error, transaction_context) result"

definition get_vote_state :: "vote_codec \<Rightarrow> borrowed_account \<Rightarrow> transaction_context \<Rightarrow> (instruction_error, vote_state) result" where
  "get_vote_state c ba tc = rbind (get_state c ba tc) (\<lambda>v. Ok (convert_to_current v))"

text \<open>
  The account is grown to the current size if it is too small and rich enough; if that does not work
  the older version is stored. A failed \<open>set_data_length\<close> leaves the account as it was.
\<close>

definition set_vote_account_state :: "vote_codec \<Rightarrow> borrowed_account \<Rightarrow> transaction_context \<Rightarrow> vote_state \<Rightarrow> outcome" where
  "set_vote_account_state c ba tc vs =
     (let old_version = set_state c ba tc (V1_14_11 (vote_state_1_14_11_from vs)) in
      if length (get_data ba tc) < vote_state_size_of then
        if \<not> is_rent_exempt_at_data_length ba tc vote_state_size_of then old_version
        else case set_data_length ba tc vote_state_size_of of
            Ok tc' \<Rightarrow> set_state c ba tc' (Current vs)
          | Err _ \<Rightarrow> old_version
          | Panic \<Rightarrow> Panic
      else set_state c ba tc (Current vs))"

definition verify_authorized_signer :: "pubkey \<Rightarrow> pubkey set \<Rightarrow> (instruction_error, unit) result" where
  "verify_authorized_signer authorized signers =
     (if authorized \<in> signers then Ok () else Err MissingRequiredSignature)"

definition authorize ::
  "vote_codec \<Rightarrow> borrowed_account \<Rightarrow> transaction_context \<Rightarrow> pubkey \<Rightarrow> vote_authorize \<Rightarrow> pubkey set \<Rightarrow> clock \<Rightarrow> outcome" where
  "authorize c ba tc authorized vote_authorize signers ck =
     rbind (get_vote_state c ba tc) (\<lambda>vs.
     rbind (case vote_authorize of
         Voter \<Rightarrow>
           rbind (ok_or InvalidAccountData (checked_add_u64 (leader_schedule_epoch ck) 1)) (\<lambda>target_epoch.
           set_new_authorized_voter vs authorized (clock_epoch ck) target_epoch
             (\<lambda>epoch_authorized_voter.
                if is_ok (verify_authorized_signer (authorized_withdrawer vs) signers) then Ok ()
                else verify_authorized_signer epoch_authorized_voter signers))
       | Withdrawer \<Rightarrow>
           rbind (verify_authorized_signer (authorized_withdrawer vs) signers) (\<lambda>_.
           Ok (vs\<lparr>authorized_withdrawer := authorized\<rparr>)))
     (\<lambda>vs'. set_vote_account_state c ba tc vs'))"

definition update_validator_identity ::
  "vote_codec \<Rightarrow> borrowed_account \<Rightarrow> transaction_context \<Rightarrow> pubkey \<Rightarrow> pubkey set \<Rightarrow> outcome" where
  "update_validator_identity c ba tc node signers =
     rbind (get_vote_state c ba tc) (\<lambda>vs.
     rbind (verify_authorized_signer (authorized_withdrawer vs) signers) (\<lambda>_.
     rbind (verify_authorized_signer node signers) (\<lambda>_.
     set_vote_account_state c ba tc (vs\<lparr>node_pubkey := node\<rparr>))))"

definition is_commission_increase :: "vote_state \<Rightarrow> nat \<Rightarrow> bool" where
  "is_commission_increase vs new_commission \<longleftrightarrow> commission vs < new_commission"

definition is_commission_update_allowed :: "slot \<Rightarrow> epoch_schedule \<Rightarrow> bool" where
  "is_commission_update_allowed s es =
     (case checked_rem (sat_sub s (first_normal_slot es)) (slots_per_epoch es) of
        Some relative_slot \<Rightarrow> sat_mul_u64 relative_slot 2 \<le> slots_per_epoch es
      | None \<Rightarrow> True)"

definition update_commission ::
  "vote_codec \<Rightarrow> borrowed_account \<Rightarrow> transaction_context \<Rightarrow> nat \<Rightarrow> pubkey set \<Rightarrow> epoch_schedule \<Rightarrow> clock \<Rightarrow> feature_set \<Rightarrow> outcome" where
  "update_commission c ba tc new_commission signers es ck fs =
     (let decoded = (if is_active fs Allow_Commission_Decrease_At_Any_Time then
                       (case get_state c ba tc of Ok v \<Rightarrow> Some (convert_to_current v) | _ \<Rightarrow> None)
                     else None);
          enforce_commission_update_rule =
            (case decoded of Some vs \<Rightarrow> is_commission_increase vs new_commission | None \<Rightarrow> True)
      in if enforce_commission_update_rule \<and>
            is_active fs Commission_Updates_Only_Allowed_In_First_Half_Of_Epoch \<and>
            \<not> is_commission_update_allowed (clock_slot ck) es
         then Err (vote_err CommissionUpdateTooLate)
         else
           rbind (case decoded of Some vs \<Rightarrow> Ok vs | None \<Rightarrow> get_vote_state c ba tc) (\<lambda>vs.
           rbind (verify_authorized_signer (authorized_withdrawer vs) signers) (\<lambda>_.
           set_vote_account_state c ba tc (vs\<lparr>commission := new_commission\<rparr>))))"

text \<open>The part of a withdrawal that decides whether the account is closed.\<close>

definition close_or_keep ::
  "vote_codec \<Rightarrow> borrowed_account \<Rightarrow> transaction_context \<Rightarrow> vote_state \<Rightarrow> nat \<Rightarrow> rent \<Rightarrow> clock \<Rightarrow> outcome" where
  "close_or_keep c ba tc vs remaining_balance rent_sysvar ck =
     (if remaining_balance = 0 then
        let reject_active_vote_account_close =
              (case list_last (epoch_credits vs) of
                 Some (last_epoch_with_credits, _, _) \<Rightarrow> sat_sub (clock_epoch ck) last_epoch_with_credits < 2
               | None \<Rightarrow> False)
        in if reject_active_vote_account_close then Err (vote_err ActiveVoteAccountClose)
           else set_vote_account_state c ba tc vote_state_default
      else
        let min_rent_exempt_balance = minimum_balance rent_sysvar (length (get_data ba tc))
        in if remaining_balance < min_rent_exempt_balance then Err InsufficientFunds else Ok tc)"

definition withdraw ::
  "vote_codec \<Rightarrow> instruction_context \<Rightarrow> transaction_context \<Rightarrow> index_of_account \<Rightarrow> nat \<Rightarrow> index_of_account \<Rightarrow>
     pubkey set \<Rightarrow> rent \<Rightarrow> clock \<Rightarrow> outcome" where
  "withdraw c ic tc vote_account_index l to_account_index signers rent_sysvar ck =
     rbind (try_borrow_instruction_account ic tc vote_account_index) (\<lambda>(ba, tc).
     rbind (get_vote_state c ba tc) (\<lambda>vs.
     rbind (verify_authorized_signer (authorized_withdrawer vs) signers) (\<lambda>_.
     rbind (ok_or InsufficientFunds (checked_sub (get_lamports ba tc) l)) (\<lambda>remaining_balance.
     rbind (close_or_keep c ba tc vs remaining_balance rent_sysvar ck) (\<lambda>tc.
     rbind (checked_sub_lamports ba tc l) (\<lambda>tc.
     rbind (try_borrow_instruction_account ic (drop_borrow ba tc) to_account_index) (\<lambda>(to, tc).
     rbind (checked_add_lamports to tc l) (\<lambda>tc. Ok (drop_borrow to tc)))))))))"

definition initialize_account ::
  "vote_codec \<Rightarrow> borrowed_account \<Rightarrow> transaction_context \<Rightarrow> vote_init \<Rightarrow> pubkey set \<Rightarrow> clock \<Rightarrow> outcome" where
  "initialize_account c ba tc vi signers ck =
     (if length (get_data ba tc) \<noteq> vote_state_size_of then Err InvalidAccountData
      else
        rbind (get_state c ba tc) (\<lambda>versioned.
        if \<not> is_uninitialized versioned then Err AccountAlreadyInitialized
        else
          rbind (verify_authorized_signer (vi_node_pubkey vi) signers) (\<lambda>_.
          set_vote_account_state c ba tc (vote_state_new vi ck))))"

definition verify_and_get_vote_state ::
  "vote_codec \<Rightarrow> borrowed_account \<Rightarrow> transaction_context \<Rightarrow> clock \<Rightarrow> pubkey set \<Rightarrow> (instruction_error, vote_state) result" where
  "verify_and_get_vote_state c ba tc ck signers =
     rbind (get_state c ba tc) (\<lambda>versioned.
     if is_uninitialized versioned then Err UninitializedAccount
     else
       rbind (get_and_update_authorized_voter (convert_to_current versioned) (clock_epoch ck))
         (\<lambda>(authorized_voter, vs).
       rbind (verify_authorized_signer authorized_voter signers) (\<lambda>_. Ok vs)))"

definition process_vote_with_account ::
  "vote_codec \<Rightarrow> borrowed_account \<Rightarrow> transaction_context \<Rightarrow> slot_hash list \<Rightarrow> clock \<Rightarrow> vote \<Rightarrow> pubkey set \<Rightarrow> feature_set \<Rightarrow> outcome" where
  "process_vote_with_account c ba tc sh ck v signers fs =
     rbind (verify_and_get_vote_state c ba tc ck signers) (\<lambda>vs.
     rbind (map_err vote_err (process_vote vs v sh (clock_epoch ck) (clock_slot ck)
              (is_active fs Timely_Vote_Credits))) (\<lambda>vs.
     rbind (case v_timestamp v of
              None \<Rightarrow> Ok vs
            | Some timestamp \<Rightarrow>
                map_err vote_err
                  (if v_slots v = [] then Err EmptySlots
                   else process_timestamp vs (Max (set (v_slots v))) timestamp)) (\<lambda>vs.
     set_vote_account_state c ba tc vs)))"

definition process_vote_state_update ::
  "vote_codec \<Rightarrow> borrowed_account \<Rightarrow> transaction_context \<Rightarrow> slot_hash list \<Rightarrow> clock \<Rightarrow> vote_state_update \<Rightarrow> pubkey set \<Rightarrow> feature_set \<Rightarrow> outcome" where
  "process_vote_state_update c ba tc sh ck u signers fs =
     rbind (verify_and_get_vote_state c ba tc ck signers) (\<lambda>vs.
     rbind (map_err vote_err
              (do_process_vote_state_update vs sh (clock_epoch ck) (clock_slot ck) u (Some fs))) (\<lambda>vs.
     set_vote_account_state c ba tc vs))"

definition process_tower_sync ::
  "vote_codec \<Rightarrow> borrowed_account \<Rightarrow> transaction_context \<Rightarrow> slot_hash list \<Rightarrow> clock \<Rightarrow> tower_sync \<Rightarrow> pubkey set \<Rightarrow> feature_set \<Rightarrow> outcome" where
  "process_tower_sync c ba tc sh ck t signers fs =
     rbind (verify_and_get_vote_state c ba tc ck signers) (\<lambda>vs.
     rbind (map_err vote_err
              (do_process_tower_sync vs sh (clock_epoch ck) (clock_slot ck) t (Some fs))) (\<lambda>vs.
     set_vote_account_state c ba tc vs))"

section \<open>Instructions\<close>

datatype vote_instruction =
    InitializeAccount vote_init
  | Authorize pubkey vote_authorize
  | Vote vote
  | Withdraw nat
  | UpdateValidatorIdentity
  | UpdateCommission nat
  | VoteSwitch vote hash
  | AuthorizeChecked vote_authorize
  | UpdateVoteState vote_state_update
  | UpdateVoteStateSwitch vote_state_update hash
  | AuthorizeWithSeed vote_authorize pubkey "byte list" pubkey
  | AuthorizeCheckedWithSeed vote_authorize pubkey "byte list"
  | CompactUpdateVoteState vote_state_update
  | CompactUpdateVoteStateSwitch vote_state_update hash
  | TowerSync tower_sync
  | TowerSyncSwitch tower_sync hash

definition process_authorize_with_seed_instruction ::
  "hash_function \<Rightarrow> vote_codec \<Rightarrow> environment_config \<Rightarrow> instruction_context \<Rightarrow> borrowed_account \<Rightarrow> transaction_context \<Rightarrow>
     pubkey \<Rightarrow> vote_authorize \<Rightarrow> pubkey \<Rightarrow> byte list \<Rightarrow> outcome" where
  "process_authorize_with_seed_instruction sha256 c env ic ba tc new_authority authorization_type key_owner key_seed =
     rbind (clock_with_account_check env tc ic 1) (\<lambda>ck.
     rbind (is_instruction_account_signer ic 2) (\<lambda>signed.
     rbind (if signed then
              rbind (key_of_instruction_account ic tc 2) (\<lambda>base_pubkey.
              rbind (map_err pubkey_err (create_with_seed sha256 base_pubkey key_seed key_owner)) (\<lambda>k. Ok {k}))
            else Ok {}) (\<lambda>expected_authority_keys.
     authorize c ba tc new_authority authorization_type expected_authority_keys ck)))"

definition legacy_votes_deprecated :: "environment_config \<Rightarrow> bool" where
  "legacy_votes_deprecated env \<longleftrightarrow>
     is_active (ec_feature_set env) Deprecate_Legacy_Vote_Ixs \<and> is_active (ec_feature_set env) Enable_Tower_Sync_Ix"

definition vote_instruction_vote ::
  "vote_codec \<Rightarrow> environment_config \<Rightarrow> instruction_context \<Rightarrow> borrowed_account \<Rightarrow> transaction_context \<Rightarrow> pubkey set \<Rightarrow> vote \<Rightarrow> outcome" where
  "vote_instruction_vote c env ic ba tc signers v =
     (if legacy_votes_deprecated env then Err InvalidInstructionData
      else
        rbind (slot_hashes_with_account_check env tc ic 1) (\<lambda>sh.
        rbind (clock_with_account_check env tc ic 2) (\<lambda>ck.
        process_vote_with_account c ba tc sh ck v signers (ec_feature_set env))))"

definition vote_instruction_update ::
  "vote_codec \<Rightarrow> environment_config \<Rightarrow> borrowed_account \<Rightarrow> transaction_context \<Rightarrow> pubkey set \<Rightarrow> vote_state_update \<Rightarrow> outcome" where
  "vote_instruction_update c env ba tc signers u =
     (if legacy_votes_deprecated env then Err InvalidInstructionData
      else
        rbind (get_slot_hashes env) (\<lambda>sh.
        rbind (get_clock env) (\<lambda>ck.
        process_vote_state_update c ba tc sh ck u signers (ec_feature_set env))))"

definition vote_instruction_tower_sync ::
  "vote_codec \<Rightarrow> environment_config \<Rightarrow> borrowed_account \<Rightarrow> transaction_context \<Rightarrow> pubkey set \<Rightarrow> tower_sync \<Rightarrow> outcome" where
  "vote_instruction_tower_sync c env ba tc signers t =
     (if \<not> is_active (ec_feature_set env) Enable_Tower_Sync_Ix then Err InvalidInstructionData
      else
        rbind (get_slot_hashes env) (\<lambda>sh.
        rbind (get_clock env) (\<lambda>ck.
        process_tower_sync c ba tc sh ck t signers (ec_feature_set env))))"

text \<open>
  The borrowed account \<open>me\<close> is released at the end of the function; \<open>Withdraw\<close> releases it before it
  borrows the account again.
\<close>

definition release :: "borrowed_account \<Rightarrow> outcome \<Rightarrow> outcome" where
  "release ba r = rbind r (\<lambda>tc. Ok (drop_borrow ba tc))"

definition vote_dispatch ::
  "hash_function \<Rightarrow> vote_codec \<Rightarrow> environment_config \<Rightarrow> instruction_context \<Rightarrow> borrowed_account \<Rightarrow> transaction_context \<Rightarrow>
     pubkey set \<Rightarrow> vote_instruction \<Rightarrow> outcome" where
  "vote_dispatch sha256 c env ic me tc signers instruction =
     (case instruction of
        InitializeAccount vi \<Rightarrow>
          rbind (rent_with_account_check env tc ic 1) (\<lambda>r.
          if \<not> is_exempt r (get_lamports me tc) (length (get_data me tc)) then Err InsufficientFunds
          else
            rbind (clock_with_account_check env tc ic 2) (\<lambda>ck.
            release me (initialize_account c me tc vi signers ck)))
      | Authorize voter_pubkey va \<Rightarrow>
          rbind (clock_with_account_check env tc ic 1) (\<lambda>ck.
          release me (authorize c me tc voter_pubkey va signers ck))
      | AuthorizeWithSeed va key_owner key_seed new_authority \<Rightarrow>
          rbind (check_number_of_instruction_accounts ic 3) (\<lambda>_.
          release me (process_authorize_with_seed_instruction sha256 c env ic me tc new_authority va key_owner key_seed))
      | AuthorizeCheckedWithSeed va key_owner key_seed \<Rightarrow>
          rbind (check_number_of_instruction_accounts ic 4) (\<lambda>_.
          rbind (key_of_instruction_account ic tc 3) (\<lambda>new_authority.
          rbind (is_instruction_account_signer ic 3) (\<lambda>signed.
          if \<not> signed then Err MissingRequiredSignature
          else release me (process_authorize_with_seed_instruction sha256 c env ic me tc new_authority va key_owner key_seed))))
      | UpdateValidatorIdentity \<Rightarrow>
          rbind (check_number_of_instruction_accounts ic 2) (\<lambda>_.
          rbind (key_of_instruction_account ic tc 1) (\<lambda>node.
          release me (update_validator_identity c me tc node signers)))
      | UpdateCommission new_commission \<Rightarrow>
          rbind (get_epoch_schedule env) (\<lambda>es.
          rbind (get_clock env) (\<lambda>ck.
          release me (update_commission c me tc new_commission signers es ck (ec_feature_set env))))
      | Vote v \<Rightarrow> release me (vote_instruction_vote c env ic me tc signers v)
      | VoteSwitch v _ \<Rightarrow> release me (vote_instruction_vote c env ic me tc signers v)
      | UpdateVoteState u \<Rightarrow> release me (vote_instruction_update c env me tc signers u)
      | UpdateVoteStateSwitch u _ \<Rightarrow> release me (vote_instruction_update c env me tc signers u)
      | CompactUpdateVoteState u \<Rightarrow> release me (vote_instruction_update c env me tc signers u)
      | CompactUpdateVoteStateSwitch u _ \<Rightarrow> release me (vote_instruction_update c env me tc signers u)
      | TowerSync t \<Rightarrow> release me (vote_instruction_tower_sync c env me tc signers t)
      | TowerSyncSwitch t _ \<Rightarrow> release me (vote_instruction_tower_sync c env me tc signers t)
      | AuthorizeChecked va \<Rightarrow>
          rbind (check_number_of_instruction_accounts ic 4) (\<lambda>_.
          rbind (key_of_instruction_account ic tc 3) (\<lambda>voter_pubkey.
          rbind (is_instruction_account_signer ic 3) (\<lambda>signed.
          if \<not> signed then Err MissingRequiredSignature
          else
            rbind (clock_with_account_check env tc ic 1) (\<lambda>ck.
            release me (authorize c me tc voter_pubkey va signers ck)))))
      | Withdraw l \<Rightarrow>
          rbind (check_number_of_instruction_accounts ic 2) (\<lambda>_.
          rbind (get_rent env) (\<lambda>r.
          rbind (get_clock env) (\<lambda>ck.
          withdraw c ic (drop_borrow me tc) 0 l 1 signers r ck))))"

definition vote_process_instruction ::
  "hash_function \<Rightarrow> vote_codec \<Rightarrow> (byte list \<Rightarrow> vote_instruction option) \<Rightarrow> environment_config \<Rightarrow> transaction_context \<Rightarrow> outcome" where
  "vote_process_instruction sha256 c parse env tc =
     rbind (get_current_instruction_context tc) (\<lambda>ic.
     rbind (try_borrow_instruction_account ic tc 0) (\<lambda>(me, tc).
     if get_owner me tc \<noteq> vote_program_id then Err InvalidAccountOwner
     else
       rbind (get_signers ic tc) (\<lambda>signers.
       rbind (ok_or InvalidInstructionData (parse (instruction_data ic))) (\<lambda>instruction.
       vote_dispatch sha256 c env ic me tc signers instruction))))"

end
