(* ===== verification/Account_Facts.thy ===== *)
theory Account_Facts
  imports Invoke_Context Access_Control
begin

text \<open>
  Facts about the accounts of an instruction that the built-in programs share: what a borrow, a stored
  state and a move of lamports do to the accounts, and which keys sign. \<open>reads_back\<close> is what the programs
  rely on of the serialisation of an account's state.
\<close>

section \<open>Definitions\<close>

text \<open>The bytes of a state, followed by anything, decode to the state.\<close>

definition reads_back :: "'a codec \<Rightarrow> 'a \<Rightarrow> bool" where
  "reads_back c v \<longleftrightarrow> (\<forall>rest. dec c (enc c v @ rest) = Some v)"

text \<open>The keys that sign for the accounts of an instruction.\<close>

definition signer_keys :: "instruction_context \<Rightarrow> transaction_context \<Rightarrow> pubkey set" where
  "signer_keys ic tc =
     {account_keys tc ! index_in_transaction ia | ia. ia \<in> set (instruction_accounts ic) \<and> ia_is_signer ia}"

section \<open>Lemmas\<close>

lemma writes_account:
  "writes ba tc tc' a \<Longrightarrow> ba_index_in_transaction ba < length (cells_of tc) \<Longrightarrow> ba_account ba tc' = a"
  by (simp add: writes_def ba_account_def)

lemma writes_trans:
  "writes ba tc tc1 a \<Longrightarrow> writes ba tc1 tc2 b \<Longrightarrow> writes ba tc tc2 b"
  by (auto simp: writes_def same_frame_def)

lemma set_state_op:
  assumes i: "ba_index_in_transaction ba < length (cells_of tc)" and ok: "set_state c ba tc st = Ok tc'"
  shows "writes ba tc tc' ((ba_account ba tc)\<lparr>data := enc c st @ drop (length (enc c st)) (get_data ba tc)\<rparr>)"
    and "length (enc c st) \<le> length (get_data ba tc)"
proof -
  let ?w = "\<lambda>d :: byte list. if length (enc c st) \<le> length d then enc c st else []"
  from ok have m: "get_data_mut ba tc ?w = Ok tc'" and le: "length (enc c st) \<le> length (get_data ba tc')"
    by (auto simp: set_state_def result_simps split: if_splits)
  from m obtain d where d: "writes ba tc tc' ((ba_account ba tc)\<lparr>data := d\<rparr>)" "length d = length (get_data ba tc)"
    "d = take (length (get_data ba tc)) (?w (get_data ba tc)) @ drop (length (?w (get_data ba tc))) (get_data ba tc)"
    by (rule get_data_mut_op)
  show l: "length (enc c st) \<le> length (get_data ba tc)"
    using le d(2) writes_account [OF d(1) i] by (simp add: get_data_def)
  show "writes ba tc tc' ((ba_account ba tc)\<lparr>data := enc c st @ drop (length (enc c st)) (get_data ba tc)\<rparr>)"
    using d(1) unfolding d(3) by (simp add: l)
qed

lemma get_signers_from_Ok:
  "get_signers_from tc ias acc = Ok S \<Longrightarrow>
     S = acc \<union> {account_keys tc ! index_in_transaction ia | ia. ia \<in> set ias \<and> ia_is_signer ia}"
  by (induction tc ias acc rule: get_signers_from.induct)
    (auto simp: result_simps get_key_of_account_at_index_def list_get_def split: if_splits)

lemma get_signers_Ok: "get_signers ic tc = Ok S \<Longrightarrow> S = signer_keys ic tc"
  by (auto simp: get_signers_def signer_keys_def dest: get_signers_from_Ok)

lemma key_of_instruction_account_Ok:
  "key_of_instruction_account ic tc i = Ok k \<Longrightarrow>
     i < length (instruction_accounts ic) \<and> k = account_keys tc ! index_in_transaction (ia_at ic i)"
  by (auto simp: key_of_instruction_account_def get_index_of_instruction_account_in_transaction_def
      get_key_of_account_at_index_def list_get_def result_simps split: if_splits)

lemma borrow_instruction_account:
  assumes "try_borrow_instruction_account ic tc k = Ok (ba, tc')"
  shows "ba_index_in_transaction ba = index_in_transaction (ia_at ic k)"
    "index_in_transaction (ia_at ic k) < length (cells_of tc)"
    "same_frame tc tc'" "\<And>m. m < length (cells_of tc) \<Longrightarrow> acct tc' m = acct tc m"
    "\<not> cell_borrowed (cells_of tc ! index_in_transaction (ia_at ic k))" "k < length (instruction_accounts ic)"
    "ba_instruction_context ba = ic"
  using assms
  by (auto simp: try_borrow_instruction_account_def try_borrow_account_def list_get_def result_simps
      get_index_of_instruction_account_in_transaction_def split: if_splits)

lemma drop_borrow_frame [simp]:
  "same_frame tc (drop_borrow ba tc)"
  "m < length (cells_of tc) \<Longrightarrow> acct (drop_borrow ba tc) m = acct tc m"
  by (simp_all add: drop_borrow_def)

lemma same_frame_cells: "same_frame tc tc' \<Longrightarrow> length (cells_of tc') = length (cells_of tc)"
  by (simp add: same_frame_def)

lemma writes_length: "writes ba tc tc' a \<Longrightarrow> length (cells_of tc') = length (cells_of tc)"
  by (simp add: writes_def same_frame_def)

lemma checked_sub_lamports_op:
  assumes "checked_sub_lamports ba tc l = Ok tc'"
  shows "l \<le> lamports (ba_account ba tc)"
    "writes ba tc tc' ((ba_account ba tc)\<lparr>lamports := lamports (ba_account ba tc) - l\<rparr>)"
  using assms by (auto simp: checked_sub_lamports_def result_simps checked_sub_def get_lamports_def
      split: if_splits dest: set_lamports_op(1))

lemma checked_add_lamports_op:
  assumes "checked_add_lamports ba tc l = Ok tc'"
  shows "writes ba tc tc' ((ba_account ba tc)\<lparr>lamports := lamports (ba_account ba tc) + l\<rparr>)"
  using assms by (auto simp: checked_add_lamports_def result_simps checked_add_u64_def get_lamports_def
      split: if_splits dest: set_lamports_op(1))

text \<open>Moving lamports between two accounts of an instruction, the first of which is held.\<close>

text \<open>
  The lamports of one account moved to an account that is borrowed after the first is released; the two may
  be the same.
\<close>

lemma move_lamports:
  assumes i: "ba_index_in_transaction ba = i" "i < length (cells_of tc)"
    and sub: "checked_sub_lamports ba tc l = Ok tc1"
    and to: "try_borrow_instruction_account ic (drop_borrow ba tc1) t = Ok (to, tc2)"
    and add: "checked_add_lamports to tc2 l = Ok tc3"
    and j: "j = index_in_transaction (ia_at ic t)"
  shows "l \<le> lamports (acct tc i)" "length (cells_of (drop_borrow to tc3)) = length (cells_of tc)"
    "j < length (cells_of tc)"
    "m < length (cells_of tc) \<Longrightarrow> acct (drop_borrow to tc3) m =
       (acct tc m)\<lparr>lamports := lamports (acct tc m) - (if m = i then l else 0) + (if m = j then l else 0)\<rparr>"
proof -
  note s = checked_sub_lamports_op [OF sub] and b = borrow_instruction_account [OF to]
    and a = checked_add_lamports_op [OF add]
  have l1: "length (cells_of tc1) = length (cells_of tc)" using writes_length [OF s(2)] .
  have l2: "length (cells_of tc2) = length (cells_of tc)"
    using same_frame_cells [OF b(3)] same_frame_cells [OF drop_borrow_frame(1)] l1 by simp
  have l3: "length (cells_of tc3) = length (cells_of tc)" using writes_length [OF a] l2 by simp
  show "l \<le> lamports (acct tc i)" using s(1) i by (simp add: ba_account_def)
  show "length (cells_of (drop_borrow to tc3)) = length (cells_of tc)"
    using same_frame_cells [OF drop_borrow_frame(1)] l3 by simp
  show "j < length (cells_of tc)"
    using b(2) l1 same_frame_cells [OF drop_borrow_frame(1)] by (simp add: j)
  assume m: "m < length (cells_of tc)"
  have one: "acct tc1 k = (if k = i then (acct tc i)\<lparr>lamports := lamports (acct tc i) - l\<rparr> else acct tc k)"
    if "k < length (cells_of tc)" for k
    using s(2) i that by (simp add: writes_def ba_account_def)
  have two: "acct tc2 k = acct tc1 k" if "k < length (cells_of tc)" for k
    using b(4) [of k] that l1 same_frame_cells [OF drop_borrow_frame(1)] by (simp add: drop_borrow_frame)
  show "acct (drop_borrow to tc3) m =
       (acct tc m)\<lparr>lamports := lamports (acct tc m) - (if m = i then l else 0) + (if m = j then l else 0)\<rparr>"
    using a m one two j b(1) by (auto simp: writes_def l2 l3 ba_account_def)
qed

end
