(* ===== verification/System_Program.thy ===== *)
theory System_Program
  imports Invoke_Context Access_Control
begin

text \<open>
  The system program: \<^verbatim>\<open>programs/system/src/system_processor.rs\<close> (creating, funding and assigning
  accounts), \<^verbatim>\<open>programs/system/src/system_instruction.rs\<close> (nonce accounts) and the nonce state of
  \<^verbatim>\<open>sdk/program/src/nonce/state\<close>. The hash, the byte format of a nonce account and the parser of the
  instruction data are parameters, as in the vote program. Log messages are left out.
\<close>

section \<open>Durable nonces\<close>

record nonce_data =
  nd_authority :: pubkey
  nd_durable_nonce :: hash
  nd_lamports_per_signature :: nat

datatype nonce_state = Uninitialized | Initialized nonce_data

datatype nonce_versions = Nonce_Legacy nonce_state | Nonce_Current nonce_state

definition DURABLE_NONCE_HASH_PREFIX :: "byte list" where
  "DURABLE_NONCE_HASH_PREFIX = [68, 85, 82, 65, 66, 76, 69, 95, 78, 79, 78, 67, 69]"

definition durable_nonce_from_blockhash :: "hash_function \<Rightarrow> hash \<Rightarrow> hash" where
  "durable_nonce_from_blockhash sha256 blockhash =
     hashv sha256 [DURABLE_NONCE_HASH_PREFIX, pubkey_bytes blockhash]"

definition nonce_data_new :: "pubkey \<Rightarrow> hash \<Rightarrow> nat \<Rightarrow> nonce_data" where
  "nonce_data_new auth durable_nonce lps =
     \<lparr>nd_authority = auth, nd_durable_nonce = durable_nonce, nd_lamports_per_signature = lps\<rparr>"

definition versions_new :: "nonce_state \<Rightarrow> nonce_versions" where
  "versions_new st = Nonce_Current st"

definition versions_state :: "nonce_versions \<Rightarrow> nonce_state" where
  "versions_state v = (case v of Nonce_Legacy st \<Rightarrow> st | Nonce_Current st \<Rightarrow> st)"

definition verify_recent_blockhash :: "nonce_versions \<Rightarrow> hash \<Rightarrow> nonce_data option" where
  "verify_recent_blockhash v recent_blockhash =
     (case v of
        Nonce_Legacy _ \<Rightarrow> None
      | Nonce_Current st \<Rightarrow>
          (case st of
             Uninitialized \<Rightarrow> None
           | Initialized nd \<Rightarrow> if recent_blockhash = nd_durable_nonce nd then Some nd else None))"

definition upgrade :: "hash_function \<Rightarrow> nonce_versions \<Rightarrow> nonce_versions option" where
  "upgrade sha256 v =
     (case v of
        Nonce_Legacy st \<Rightarrow>
          (case st of
             Uninitialized \<Rightarrow> None
           | Initialized nd \<Rightarrow>
               Some (Nonce_Current (Initialized
                 (nd\<lparr>nd_durable_nonce := durable_nonce_from_blockhash sha256 (nd_durable_nonce nd)\<rparr>))))
      | Nonce_Current _ \<Rightarrow> None)"

datatype authorize_nonce_error = Missing_Required_Signature pubkey | Nonce_Uninitialized

definition authorize_nonce :: "nonce_versions \<Rightarrow> pubkey set \<Rightarrow> pubkey \<Rightarrow> (authorize_nonce_error, nonce_versions) result" where
  "authorize_nonce v signers auth =
     (case versions_state v of
        Uninitialized \<Rightarrow> Err Nonce_Uninitialized
      | Initialized nd \<Rightarrow>
          if nd_authority nd \<notin> signers then Err (Missing_Required_Signature (nd_authority nd))
          else
            let st = Initialized (nonce_data_new auth (nd_durable_nonce nd) (nd_lamports_per_signature nd))
            in Ok (case v of Nonce_Legacy _ \<Rightarrow> Nonce_Legacy st | Nonce_Current _ \<Rightarrow> Nonce_Current st))"

section \<open>Errors and addresses\<close>

datatype system_error =
    AccountAlreadyInUse | ResultWithNegativeLamports | InvalidProgramId | InvalidAccountDataLength
  | SE_MaxSeedLengthExceeded | AddressWithSeedMismatch | NonceNoRecentBlockhashes
  | NonceBlockhashNotExpired | NonceUnexpectedBlockhashValue

fun system_error_code :: "system_error \<Rightarrow> nat" where
  "system_error_code AccountAlreadyInUse = 0"
| "system_error_code ResultWithNegativeLamports = 1"
| "system_error_code InvalidProgramId = 2"
| "system_error_code InvalidAccountDataLength = 3"
| "system_error_code SE_MaxSeedLengthExceeded = 4"
| "system_error_code AddressWithSeedMismatch = 5"
| "system_error_code NonceNoRecentBlockhashes = 6"
| "system_error_code NonceBlockhashNotExpired = 7"
| "system_error_code NonceUnexpectedBlockhashValue = 8"

definition system_err :: "system_error \<Rightarrow> instruction_error" where
  "system_err e = Custom (system_error_code e)"

record address =
  address_key :: pubkey
  address_base :: "pubkey option"

definition address_is_signer :: "address \<Rightarrow> pubkey set \<Rightarrow> bool" where
  "address_is_signer a signers \<longleftrightarrow> (case address_base a of Some b \<Rightarrow> b \<in> signers | None \<Rightarrow> address_key a \<in> signers)"

definition address_create ::
  "hash_function \<Rightarrow> pubkey \<Rightarrow> (pubkey \<times> byte list \<times> pubkey) option \<Rightarrow> (instruction_error, address) result" where
  "address_create sha256 key with_seed =
     (case with_seed of
        None \<Rightarrow> Ok \<lparr>address_key = key, address_base = None\<rparr>
      | Some (b, seed, ow) \<Rightarrow>
          rbind (map_err pubkey_err (create_with_seed sha256 b seed ow)) (\<lambda>address_with_seed.
          if key \<noteq> address_with_seed then Err (system_err AddressWithSeedMismatch)
          else Ok \<lparr>address_key = key, address_base = Some b\<rparr>))"

section \<open>Accounts\<close>

type_synonym sys_outcome = "(instruction_error, transaction_context) result"

definition allocate :: "borrowed_account \<Rightarrow> transaction_context \<Rightarrow> address \<Rightarrow> nat \<Rightarrow> pubkey set \<Rightarrow> sys_outcome" where
  "allocate ba tc addr space signers =
     (if \<not> address_is_signer addr signers then Err MissingRequiredSignature
      else if get_data ba tc \<noteq> [] \<or> get_owner ba tc \<noteq> system_program_id then Err (system_err AccountAlreadyInUse)
      else if MAX_PERMITTED_DATA_LENGTH < space then Err (system_err InvalidAccountDataLength)
      else set_data_length ba tc space)"

definition assign :: "borrowed_account \<Rightarrow> transaction_context \<Rightarrow> address \<Rightarrow> pubkey \<Rightarrow> pubkey set \<Rightarrow> sys_outcome" where
  "assign ba tc addr ow signers =
     (if get_owner ba tc = ow then Ok tc
      else if \<not> address_is_signer addr signers then Err MissingRequiredSignature
      else set_owner ba tc ow)"

definition allocate_and_assign ::
  "borrowed_account \<Rightarrow> transaction_context \<Rightarrow> address \<Rightarrow> nat \<Rightarrow> pubkey \<Rightarrow> pubkey set \<Rightarrow> sys_outcome" where
  "allocate_and_assign to tc addr space ow signers =
     rbind (allocate to tc addr space signers) (\<lambda>tc. assign to tc addr ow signers)"

definition transfer_verified ::
  "instruction_context \<Rightarrow> transaction_context \<Rightarrow> index_of_account \<Rightarrow> index_of_account \<Rightarrow> nat \<Rightarrow> sys_outcome" where
  "transfer_verified ic tc from_account_index to_account_index l =
     rbind (try_borrow_instruction_account ic tc from_account_index) (\<lambda>(ba, tc).
     if get_data ba tc \<noteq> [] then Err InvalidArgument
     else if get_lamports ba tc < l then Err (system_err ResultWithNegativeLamports)
     else
       rbind (checked_sub_lamports ba tc l) (\<lambda>tc.
       rbind (try_borrow_instruction_account ic (drop_borrow ba tc) to_account_index) (\<lambda>(to, tc).
       rbind (checked_add_lamports to tc l) (\<lambda>tc. Ok (drop_borrow to tc)))))"

definition transfer ::
  "instruction_context \<Rightarrow> transaction_context \<Rightarrow> index_of_account \<Rightarrow> index_of_account \<Rightarrow> nat \<Rightarrow> sys_outcome" where
  "transfer ic tc from_account_index to_account_index l =
     rbind (is_instruction_account_signer ic from_account_index) (\<lambda>signed.
     if \<not> signed then
       rbind (key_of_instruction_account ic tc from_account_index) (\<lambda>_. Err MissingRequiredSignature)
     else transfer_verified ic tc from_account_index to_account_index l)"

definition create_account ::
  "instruction_context \<Rightarrow> transaction_context \<Rightarrow> index_of_account \<Rightarrow> index_of_account \<Rightarrow> address \<Rightarrow> nat \<Rightarrow> nat \<Rightarrow> pubkey \<Rightarrow>
     pubkey set \<Rightarrow> sys_outcome" where
  "create_account ic tc from_account_index to_account_index to_address l space ow signers =
     rbind (try_borrow_instruction_account ic tc to_account_index) (\<lambda>(to, tc).
     if 0 < get_lamports to tc then Err (system_err AccountAlreadyInUse)
     else
       rbind (allocate_and_assign to tc to_address space ow signers) (\<lambda>tc.
       transfer ic (drop_borrow to tc) from_account_index to_account_index l))"

definition transfer_with_seed ::
  "hash_function \<Rightarrow> instruction_context \<Rightarrow> transaction_context \<Rightarrow> index_of_account \<Rightarrow> index_of_account \<Rightarrow> byte list \<Rightarrow> pubkey \<Rightarrow>
     index_of_account \<Rightarrow> nat \<Rightarrow> sys_outcome" where
  "transfer_with_seed sha256 ic tc from_account_index from_base_account_index from_seed from_owner to_account_index l =
     rbind (is_instruction_account_signer ic from_base_account_index) (\<lambda>signed.
     if \<not> signed then
       rbind (key_of_instruction_account ic tc from_base_account_index) (\<lambda>_. Err MissingRequiredSignature)
     else
       rbind (key_of_instruction_account ic tc from_base_account_index) (\<lambda>from_base.
       rbind (map_err pubkey_err (create_with_seed sha256 from_base from_seed from_owner)) (\<lambda>address_from_seed.
       rbind (key_of_instruction_account ic tc from_account_index) (\<lambda>from_key.
       if from_key \<noteq> address_from_seed then Err (system_err AddressWithSeedMismatch)
       else transfer_verified ic tc from_account_index to_account_index l))))"

section \<open>Nonce accounts\<close>

type_synonym nonce_codec = "nonce_versions codec"

definition advance_nonce_account ::
  "hash_function \<Rightarrow> nonce_codec \<Rightarrow> environment_config \<Rightarrow> borrowed_account \<Rightarrow> transaction_context \<Rightarrow> pubkey set \<Rightarrow> sys_outcome" where
  "advance_nonce_account sha256 c env ba tc signers =
     (if \<not> is_writable ba then Err InvalidArgument
      else
        rbind (get_state c ba tc) (\<lambda>v.
        case versions_state v of
          Initialized nd \<Rightarrow>
            if nd_authority nd \<notin> signers then Err MissingRequiredSignature
            else
              let next_durable_nonce = durable_nonce_from_blockhash sha256 (ec_blockhash env)
              in if nd_durable_nonce nd = next_durable_nonce then Err (system_err NonceBlockhashNotExpired)
                 else set_state c ba tc (versions_new (Initialized
                        (nonce_data_new (nd_authority nd) next_durable_nonce (ec_lamports_per_signature env))))
        | Uninitialized \<Rightarrow> Err InvalidAccountData))"

text \<open>Of a withdrawal, the checks up to the signature; the state is reset when everything is withdrawn.\<close>

definition withdraw_nonce_checks ::
  "hash_function \<Rightarrow> nonce_codec \<Rightarrow> environment_config \<Rightarrow> borrowed_account \<Rightarrow> transaction_context \<Rightarrow> nat \<Rightarrow> rent \<Rightarrow>
     (instruction_error, pubkey \<times> transaction_context) result" where
  "withdraw_nonce_checks sha256 c env ba tc l r =
     rbind (get_state c ba tc) (\<lambda>v.
     case versions_state v of
       Uninitialized \<Rightarrow>
         if get_lamports ba tc < l then Err InsufficientFunds
         else rbind (get_key ba tc) (\<lambda>k. Ok (k, tc))
     | Initialized nd \<Rightarrow>
         if l = get_lamports ba tc then
           if nd_durable_nonce nd = durable_nonce_from_blockhash sha256 (ec_blockhash env)
           then Err (system_err NonceBlockhashNotExpired)
           else rbind (set_state c ba tc (versions_new Uninitialized)) (\<lambda>tc. Ok (nd_authority nd, tc))
         else
           rbind (ok_or InsufficientFunds (checked_add_u64 l (minimum_balance r (length (get_data ba tc))))) (\<lambda>amount.
           if get_lamports ba tc < amount then Err InsufficientFunds
           else Ok (nd_authority nd, tc)))"

definition withdraw_nonce_account ::
  "hash_function \<Rightarrow> nonce_codec \<Rightarrow> environment_config \<Rightarrow> instruction_context \<Rightarrow> transaction_context \<Rightarrow> index_of_account \<Rightarrow> nat \<Rightarrow>
     index_of_account \<Rightarrow> rent \<Rightarrow> pubkey set \<Rightarrow> sys_outcome" where
  "withdraw_nonce_account sha256 c env ic tc from_account_index l to_account_index r signers =
     rbind (try_borrow_instruction_account ic tc from_account_index) (\<lambda>(ba, tc).
     if \<not> is_writable ba then Err InvalidArgument
     else
       rbind (withdraw_nonce_checks sha256 c env ba tc l r) (\<lambda>(signer, tc).
       if signer \<notin> signers then Err MissingRequiredSignature
       else
         rbind (checked_sub_lamports ba tc l) (\<lambda>tc.
         rbind (try_borrow_instruction_account ic (drop_borrow ba tc) to_account_index) (\<lambda>(to, tc).
         rbind (checked_add_lamports to tc l) (\<lambda>tc. Ok (drop_borrow to tc))))))"

definition initialize_nonce_account ::
  "hash_function \<Rightarrow> nonce_codec \<Rightarrow> environment_config \<Rightarrow> borrowed_account \<Rightarrow> transaction_context \<Rightarrow> pubkey \<Rightarrow> rent \<Rightarrow> sys_outcome" where
  "initialize_nonce_account sha256 c env ba tc nonce_authority r =
     (if \<not> is_writable ba then Err InvalidArgument
      else
        rbind (get_state c ba tc) (\<lambda>v.
        case versions_state v of
          Uninitialized \<Rightarrow>
            if get_lamports ba tc < minimum_balance r (length (get_data ba tc)) then Err InsufficientFunds
            else set_state c ba tc (versions_new (Initialized
                   (nonce_data_new nonce_authority (durable_nonce_from_blockhash sha256 (ec_blockhash env))
                      (ec_lamports_per_signature env))))
        | Initialized _ \<Rightarrow> Err InvalidAccountData))"

definition authorize_nonce_account ::
  "nonce_codec \<Rightarrow> borrowed_account \<Rightarrow> transaction_context \<Rightarrow> pubkey \<Rightarrow> pubkey set \<Rightarrow> sys_outcome" where
  "authorize_nonce_account c ba tc nonce_authority signers =
     (if \<not> is_writable ba then Err InvalidArgument
      else
        rbind (get_state c ba tc) (\<lambda>v.
        case authorize_nonce v signers nonce_authority of
          Ok v' \<Rightarrow> set_state c ba tc v'
        | Err Nonce_Uninitialized \<Rightarrow> Err InvalidAccountData
        | Err (Missing_Required_Signature _) \<Rightarrow> Err MissingRequiredSignature
        | Panic \<Rightarrow> Panic))"

definition upgrade_nonce_account ::
  "hash_function \<Rightarrow> nonce_codec \<Rightarrow> borrowed_account \<Rightarrow> transaction_context \<Rightarrow> sys_outcome" where
  "upgrade_nonce_account sha256 c ba tc =
     (if get_owner ba tc \<noteq> system_program_id then Err InvalidAccountOwner
      else if \<not> is_writable ba then Err InvalidArgument
      else
        rbind (get_state c ba tc) (\<lambda>v.
        case upgrade sha256 v of None \<Rightarrow> Err InvalidArgument | Some v' \<Rightarrow> set_state c ba tc v'))"

section \<open>Instructions\<close>

datatype system_instruction =
    CreateAccount nat nat pubkey
  | Assign pubkey
  | Transfer nat
  | CreateAccountWithSeed pubkey "byte list" nat nat pubkey
  | AdvanceNonceAccount
  | WithdrawNonceAccount nat
  | InitializeNonceAccount pubkey
  | AuthorizeNonceAccount pubkey
  | Allocate nat
  | AllocateWithSeed pubkey "byte list" nat pubkey
  | AssignWithSeed pubkey "byte list" pubkey
  | TransferWithSeed nat "byte list" pubkey
  | UpgradeNonceAccount

text \<open>The account at an index of the instruction, borrowed for an operation and released after it.\<close>

definition with_account ::
  "instruction_context \<Rightarrow> transaction_context \<Rightarrow> index_of_account \<Rightarrow> (borrowed_account \<Rightarrow> transaction_context \<Rightarrow> sys_outcome) \<Rightarrow> sys_outcome" where
  "with_account ic tc i f =
     rbind (try_borrow_instruction_account ic tc i) (\<lambda>(ba, tc).
     rbind (f ba tc) (\<lambda>tc. Ok (drop_borrow ba tc)))"

text \<open>The address of an account of the instruction, possibly derived from a seed.\<close>

definition address_of ::
  "hash_function \<Rightarrow> instruction_context \<Rightarrow> transaction_context \<Rightarrow> index_of_account \<Rightarrow> (pubkey \<times> byte list \<times> pubkey) option \<Rightarrow>
     (instruction_error, address) result" where
  "address_of sha256 ic tc i with_seed =
     rbind (key_of_instruction_account ic tc i) (\<lambda>k. address_create sha256 k with_seed)"

definition system_dispatch ::
  "hash_function \<Rightarrow> nonce_codec \<Rightarrow> environment_config \<Rightarrow> instruction_context \<Rightarrow> transaction_context \<Rightarrow> pubkey set \<Rightarrow>
     system_instruction \<Rightarrow> sys_outcome" where
  "system_dispatch sha256 c env ic tc signers instruction =
     (case instruction of
        CreateAccount l space ow \<Rightarrow>
          rbind (check_number_of_instruction_accounts ic 2) (\<lambda>_.
          rbind (address_of sha256 ic tc 1 None) (\<lambda>to_address.
          create_account ic tc 0 1 to_address l space ow signers))
      | CreateAccountWithSeed b seed l space ow \<Rightarrow>
          rbind (check_number_of_instruction_accounts ic 2) (\<lambda>_.
          rbind (address_of sha256 ic tc 1 (Some (b, seed, ow))) (\<lambda>to_address.
          create_account ic tc 0 1 to_address l space ow signers))
      | Assign ow \<Rightarrow>
          rbind (check_number_of_instruction_accounts ic 1) (\<lambda>_.
          with_account ic tc 0 (\<lambda>ba tc.
            rbind (address_of sha256 ic tc 0 None) (\<lambda>addr. assign ba tc addr ow signers)))
      | Transfer l \<Rightarrow>
          rbind (check_number_of_instruction_accounts ic 2) (\<lambda>_. transfer ic tc 0 1 l)
      | TransferWithSeed l from_seed from_owner \<Rightarrow>
          rbind (check_number_of_instruction_accounts ic 3) (\<lambda>_.
          transfer_with_seed sha256 ic tc 0 1 from_seed from_owner 2 l)
      | AdvanceNonceAccount \<Rightarrow>
          rbind (check_number_of_instruction_accounts ic 1) (\<lambda>_.
          with_account ic tc 0 (\<lambda>me tc.
            rbind (recent_blockhashes_with_account_check env tc ic 1) (\<lambda>rb.
            if rb = [] then Err (system_err NonceNoRecentBlockhashes)
            else advance_nonce_account sha256 c env me tc signers)))
      | WithdrawNonceAccount l \<Rightarrow>
          rbind (check_number_of_instruction_accounts ic 2) (\<lambda>_.
          rbind (recent_blockhashes_with_account_check env tc ic 2) (\<lambda>_.
          rbind (rent_with_account_check env tc ic 3) (\<lambda>r.
          withdraw_nonce_account sha256 c env ic tc 0 l 1 r signers)))
      | InitializeNonceAccount auth \<Rightarrow>
          rbind (check_number_of_instruction_accounts ic 1) (\<lambda>_.
          with_account ic tc 0 (\<lambda>me tc.
            rbind (recent_blockhashes_with_account_check env tc ic 1) (\<lambda>rb.
            if rb = [] then Err (system_err NonceNoRecentBlockhashes)
            else
              rbind (rent_with_account_check env tc ic 2) (\<lambda>r.
              initialize_nonce_account sha256 c env me tc auth r))))
      | AuthorizeNonceAccount auth \<Rightarrow>
          rbind (check_number_of_instruction_accounts ic 1) (\<lambda>_.
          with_account ic tc 0 (\<lambda>me tc. authorize_nonce_account c me tc auth signers))
      | UpgradeNonceAccount \<Rightarrow>
          rbind (check_number_of_instruction_accounts ic 1) (\<lambda>_.
          with_account ic tc 0 (\<lambda>ba tc. upgrade_nonce_account sha256 c ba tc))
      | Allocate space \<Rightarrow>
          rbind (check_number_of_instruction_accounts ic 1) (\<lambda>_.
          with_account ic tc 0 (\<lambda>ba tc.
            rbind (address_of sha256 ic tc 0 None) (\<lambda>addr. allocate ba tc addr space signers)))
      | AllocateWithSeed b seed space ow \<Rightarrow>
          rbind (check_number_of_instruction_accounts ic 1) (\<lambda>_.
          with_account ic tc 0 (\<lambda>ba tc.
            rbind (address_of sha256 ic tc 0 (Some (b, seed, ow))) (\<lambda>addr.
            allocate_and_assign ba tc addr space ow signers)))
      | AssignWithSeed b seed ow \<Rightarrow>
          rbind (check_number_of_instruction_accounts ic 1) (\<lambda>_.
          with_account ic tc 0 (\<lambda>ba tc.
            rbind (address_of sha256 ic tc 0 (Some (b, seed, ow))) (\<lambda>addr. assign ba tc addr ow signers))))"

definition system_process_instruction ::
  "hash_function \<Rightarrow> nonce_codec \<Rightarrow> (byte list \<Rightarrow> system_instruction option) \<Rightarrow> environment_config \<Rightarrow> transaction_context \<Rightarrow> sys_outcome" where
  "system_process_instruction sha256 c parse env tc =
     rbind (get_current_instruction_context tc) (\<lambda>ic.
     rbind (ok_or InvalidInstructionData (parse (instruction_data ic))) (\<lambda>instruction.
     rbind (get_signers ic tc) (\<lambda>signers.
     system_dispatch sha256 c env ic tc signers instruction)))"

end
