(* ===== verification/System_Accounts.thy ===== *)
theory System_Accounts
  imports System_Program Account_Facts
begin

text \<open>
  What the system program does to accounts: transfers and account creation move exactly the lamports they
  say, with the signatures they need and from unused addresses; a durable nonce advances at most once per
  blockhash; and a nonce account is emptied only when its nonce has expired. \<open>lamports_moved\<close> and
  \<open>nonce_withdrawal_ok\<close> describe these promises; the example definitions serve the witnesses.
\<close>

section \<open>Definitions\<close>

text \<open>
  Lamports move from account \<open>i\<close>, which can afford it, to account \<open>j\<close>, and nothing else changes. If the
  two are the same account, nothing changes at all.
\<close>

definition lamports_moved :: "transaction_context \<Rightarrow> transaction_context \<Rightarrow> nat \<Rightarrow> nat \<Rightarrow> nat \<Rightarrow> bool" where
  "lamports_moved tc tc' i j l \<longleftrightarrow>
     length (cells_of tc') = length (cells_of tc) \<and> i < length (cells_of tc) \<and> j < length (cells_of tc) \<and>
     l \<le> lamports (acct tc i) \<and>
     (\<forall>m < length (cells_of tc). acct tc' m = (acct tc m)\<lparr>lamports :=
        lamports (acct tc m) - (if m = i then l else 0) + (if m = j then l else 0)\<rparr>)"

text \<open>A system instruction with a funding account and a new account, both signing, for the examples.\<close>

definition example_system_context :: "byte list \<Rightarrow> transaction_context" where
  "example_system_context d =
     (transaction_context_new
        [(0, \<lparr>lamports = 1, data = [], owner = 1, executable = True, rent_epoch = 0\<rparr>),
         (20, \<lparr>lamports = 5, data = d, owner = 0, executable = False, rent_epoch = 0\<rparr>),
         (30, \<lparr>lamports = 0, data = [], owner = 0, executable = False, rent_epoch = 0\<rparr>)]
        \<lparr>minimum_balance = \<lambda>d. d\<rparr> 5 64)
      \<lparr>instruction_trace :=
         [\<lparr>nesting_level = 0, lamport_sum = 5, program_accounts = [0],
           instruction_accounts =
             [\<lparr>index_in_transaction = 1, index_in_caller = 0, index_in_callee = 0, ia_is_signer = True, ia_is_writable = True\<rparr>,
              \<lparr>index_in_transaction = 2, index_in_caller = 1, index_in_callee = 1, ia_is_signer = True, ia_is_writable = True\<rparr>],
           instruction_data = []\<rparr>],
       instruction_stack := [0]\<rparr>"

abbreviation example_system_instruction :: instruction_context where
  "example_system_instruction \<equiv> last (instruction_trace (example_system_context []))"

definition example_nonce_account :: borrowed_account where
  "example_nonce_account =
     \<lparr>ba_index_in_transaction = 1, ba_index_in_instruction = 1, ba_instruction_context = example_system_instruction\<rparr>"

definition example_nonce_codec :: nonce_codec where
  "example_nonce_codec =
     \<lparr>enc = (\<lambda>_. [1]),
      dec = (\<lambda>bs. Some (Nonce_Current (Initialized \<lparr>nd_authority = 20, nd_durable_nonce = (if hd bs = 1 then 9 else 8),
        nd_lamports_per_signature = 0\<rparr>)))\<rparr>"

definition example_nonce_env :: environment_config where
  "example_nonce_env =
     \<lparr>ec_blockhash = 1, ec_feature_set = \<lparr>fs_active = [], fs_inactive = []\<rparr>, ec_lamports_per_signature = 0,
      ec_sysvar_cache = \<lparr>sc_clock = None, sc_epoch_schedule = None, sc_rent = None, sc_slot_hashes = None,
        sc_recent_blockhashes = None\<rparr>\<rparr>"

text \<open>
  What the owner of a nonce account must have approved before lamports leave it, and what the withdrawal
  leaves of its data: \<open>a\<close> is the account before it and \<open>d\<close> its data afterwards.
\<close>

definition nonce_withdrawal_ok ::
  "hash_function \<Rightarrow> nonce_codec \<Rightarrow> environment_config \<Rightarrow> rent \<Rightarrow> pubkey \<Rightarrow> pubkey set \<Rightarrow> nonce_versions \<Rightarrow> nat \<Rightarrow> account \<Rightarrow> byte list \<Rightarrow> bool" where
  "nonce_withdrawal_ok sha256 c env r key S v l a d \<longleftrightarrow>
     (case versions_state v of
        Uninitialized \<Rightarrow> key \<in> S \<and> d = data a
      | Initialized nd \<Rightarrow> nd_authority nd \<in> S \<and>
          (if l = lamports a then
             nd_durable_nonce nd \<noteq> durable_nonce_from_blockhash sha256 (ec_blockhash env) \<and>
             (\<exists>rest. d = enc c (versions_new Uninitialized) @ rest)
           else d = data a \<and> l + minimum_balance r (length (data a)) \<le> lamports a))"

section \<open>Transfers and new accounts\<close>

lemma lamports_movedI:
  assumes "ba_index_in_transaction ba = i" "i < length (cells_of tc)"
    and "checked_sub_lamports ba tc l = Ok tc1"
    and "try_borrow_instruction_account ic (drop_borrow ba tc1) t = Ok (to, tc2)"
    and "checked_add_lamports to tc2 l = Ok tc3"
    and "j = index_in_transaction (ia_at ic t)"
  shows "lamports_moved tc (drop_borrow to tc3) i j l"
  unfolding lamports_moved_def using move_lamports [OF assms] assms(2) by blast

text \<open>A borrow changes no account.\<close>

lemma lamports_moved_frame:
  assumes "lamports_moved tc1 tc' i j l" and "length (cells_of tc1) = length (cells_of tc)"
    and "\<And>m. m < length (cells_of tc) \<Longrightarrow> acct tc1 m = acct tc m"
  shows "lamports_moved tc tc' i j l"
  using assms by (auto simp: lamports_moved_def)

lemma transfer_verified_op:
  assumes ok: "transfer_verified ic tc f t l = Ok tc'"
    and i: "i = index_in_transaction (ia_at ic f)" and j: "j = index_in_transaction (ia_at ic t)"
  shows "data (acct tc i) = []" "lamports_moved tc tc' i j l"
proof -
  from ok obtain ba tc0 tc1 to tc2 tc3 where b: "try_borrow_instruction_account ic tc f = Ok (ba, tc0)"
    and d: "get_data ba tc0 = []"
    and s: "checked_sub_lamports ba tc0 l = Ok tc1"
    and to: "try_borrow_instruction_account ic (drop_borrow ba tc1) t = Ok (to, tc2)"
    and a: "checked_add_lamports to tc2 l = Ok tc3" and tc': "tc' = drop_borrow to tc3"
    by (auto simp: transfer_verified_def result_simps split: if_splits)
  note bo = borrow_instruction_account [OF b]
  have len: "length (cells_of tc0) = length (cells_of tc)" using same_frame_cells [OF bo(3)] .
  show "data (acct tc i) = []" using d bo(1,2,4) i by (simp add: get_data_def ba_account_def)
  have "lamports_moved tc0 tc' i j l"
    unfolding tc' by (rule lamports_movedI [OF _ _ s to a j]) (use bo i len in auto)
  then show "lamports_moved tc tc' i j l" by (rule lamports_moved_frame) (use len bo(4) in auto)
qed

lemma transfer_op:
  assumes ok: "transfer ic tc f t l = Ok tc'"
    and i: "i = index_in_transaction (ia_at ic f)" and j: "j = index_in_transaction (ia_at ic t)"
  shows "ia_is_signer (ia_at ic f)" "data (acct tc i) = []" "lamports_moved tc tc' i j l"
proof -
  from ok have s: "is_instruction_account_signer ic f = Ok True" and v: "transfer_verified ic tc f t l = Ok tc'"
    by (auto simp: transfer_def result_simps split: if_splits)
  from s show "ia_is_signer (ia_at ic f)"
    by (auto simp: is_instruction_account_signer_def list_get_def result_simps split: if_splits)
  show "data (acct tc i) = []" "lamports_moved tc tc' i j l" using transfer_verified_op [OF v i j] by auto
qed

text \<open>
  C22: a transfer that is accepted is signed by the sender, who carries no data and can afford it, and moves
  exactly the lamports; nothing else of any account changes, and a transfer to oneself changes nothing.
\<close>

theorem transfer_moves_lamports:
  assumes "transfer ic tc f t l = Ok tc'"
    and "i = index_in_transaction (ia_at ic f)" and "j = index_in_transaction (ia_at ic t)"
  shows "ia_is_signer (ia_at ic f) \<and> data (acct tc i) = [] \<and> lamports_moved tc tc' i j l"
  using transfer_op [OF assms] by simp

lemma allocate_and_assign_op:
  assumes "allocate_and_assign ba tc addr space ow S = Ok tc'"
    and i: "ba_index_in_transaction ba < length (cells_of tc)"
  shows "address_is_signer addr S" "get_data ba tc = []" "get_owner ba tc = system_program_id"
    "space \<le> MAX_PERMITTED_DATA_LENGTH"
    "writes ba tc tc' ((ba_account ba tc)\<lparr>data := replicate space 0, owner := ow\<rparr>)"
proof -
  from assms(1) obtain tc1 where a: "address_is_signer addr S" "get_data ba tc = []" "get_owner ba tc = system_program_id"
    "space \<le> MAX_PERMITTED_DATA_LENGTH" "set_data_length ba tc space = Ok tc1" and as: "assign ba tc1 addr ow S = Ok tc'"
    by (auto simp: allocate_and_assign_def allocate_def result_simps split: if_splits)
  show "address_is_signer addr S" "get_data ba tc = []" "get_owner ba tc = system_program_id"
    "space \<le> MAX_PERMITTED_DATA_LENGTH" using a by auto
  have w: "writes ba tc tc1 ((ba_account ba tc)\<lparr>data := replicate space 0\<rparr>)"
    using set_data_length_op [OF a(5)] a(2) by (simp add: resizes_def)
  note acc = writes_account [OF w i]
  have "writes ba tc1 tc' ((ba_account ba tc1)\<lparr>owner := ow\<rparr>)"
    using as set_owner_op(1) [of ba tc1 ow tc']
    by (auto simp: assign_def get_owner_def intro!: writes_refl split: if_splits)
  then show "writes ba tc tc' ((ba_account ba tc)\<lparr>data := replicate space 0, owner := ow\<rparr>)"
    using writes_trans [OF w] acc by simp
qed

lemma create_account_op:
  assumes ok: "create_account ic tc f t addr l space ow S = Ok tc'"
    and i: "i = index_in_transaction (ia_at ic f)" and j: "j = index_in_transaction (ia_at ic t)"
  shows "lamports (acct tc j) = 0" "data (acct tc j) = []" "owner (acct tc j) = system_program_id"
    "address_is_signer addr S" "ia_is_signer (ia_at ic f)" "space \<le> MAX_PERMITTED_DATA_LENGTH"
    "acct tc' j = (acct tc j)\<lparr>lamports := l, data := replicate space 0, owner := ow\<rparr>" "l \<le> lamports (acct tc i)"
    "\<forall>m < length (cells_of tc). m \<noteq> j \<longrightarrow>
       acct tc' m = (acct tc m)\<lparr>lamports := lamports (acct tc m) - (if m = i then l else 0)\<rparr>"
proof -
  from ok obtain to tc0 tc1 where b: "try_borrow_instruction_account ic tc t = Ok (to, tc0)"
    and z: "get_lamports to tc0 = 0" and aa: "allocate_and_assign to tc0 addr space ow S = Ok tc1"
    and tr: "transfer ic (drop_borrow to tc1) f t l = Ok tc'"
    by (auto simp: create_account_def result_simps split: if_splits)
  note bo = borrow_instruction_account [OF b]
  have len0: "length (cells_of tc0) = length (cells_of tc)" using same_frame_cells [OF bo(3)] .
  have a0: "ba_account to tc0 = acct tc j" using bo j by (simp add: ba_account_def)
  note al = allocate_and_assign_op [OF aa, unfolded len0 bo(1) get_data_def get_owner_def a0, OF bo(2)]
  note tf = transfer_op [OF tr i j]
  have len1: "length (cells_of (drop_borrow to tc1)) = length (cells_of tc)"
    using writes_length [OF al(5)] len0 by (simp add: drop_borrow_def set_borrowed_def)
  have a1: "acct (drop_borrow to tc1) m = (if m = j then (acct tc j)\<lparr>data := replicate space 0, owner := ow\<rparr> else acct tc m)"
    if "m < length (cells_of tc)" for m
    using al(5) that len0 writes_length [OF al(5)] bo(1,4) j by (simp add: writes_def)
  have ij: "i < length (cells_of tc)" "j < length (cells_of tc)" using tf(3) len1 by (auto simp: lamports_moved_def)
  show z': "lamports (acct tc j) = 0" using z by (simp add: get_lamports_def a0)
  show "data (acct tc j) = []" "owner (acct tc j) = system_program_id" "address_is_signer addr S"
    "ia_is_signer (ia_at ic f)" "space \<le> MAX_PERMITTED_DATA_LENGTH" using al tf(1) by simp_all
  show le: "l \<le> lamports (acct tc i)" using tf(3) a1 [OF ij(1)] by (auto simp: lamports_moved_def split: if_splits)
  show "acct tc' j = (acct tc j)\<lparr>lamports := l, data := replicate space 0, owner := ow\<rparr>"
    using tf(3) a1 [OF ij(2)] z' le ij(2) len1 by (auto simp: lamports_moved_def)
  show "\<forall>m < length (cells_of tc). m \<noteq> j \<longrightarrow>
       acct tc' m = (acct tc m)\<lparr>lamports := lamports (acct tc m) - (if m = i then l else 0)\<rparr>"
    using tf(3) a1 len1 by (simp add: lamports_moved_def)
qed

lemma address_of_signer:
  assumes "address_of sha256 ic tc n ws = Ok addr" and "address_is_signer addr S"
  shows "case ws of
      None \<Rightarrow> account_keys tc ! index_in_transaction (ia_at ic n) \<in> S
    | Some (b, seed, ow) \<Rightarrow> b \<in> S \<and>
        create_with_seed sha256 b seed ow = Ok (account_keys tc ! index_in_transaction (ia_at ic n))"
proof -
  from assms(1) have "address_create sha256 (account_keys tc ! index_in_transaction (ia_at ic n)) ws = Ok addr"
    by (auto simp: address_of_def key_of_instruction_account_def get_key_of_account_at_index_def list_get_def
        get_index_of_instruction_account_in_transaction_def result_simps split: if_splits)
  with assms(2) show ?thesis
    by (auto simp: address_create_def address_is_signer_def result_simps split: option.splits if_splits)
qed

text \<open>
  C21: an account that \<open>CreateAccount\<close> or \<open>CreateAccountWithSeed\<close> creates was unused before (no lamports, no
  data, owned by the system program). Its key is among the signers of the instruction or, with a seed, the
  base is among them and the key is the one derived from base, seed and owner. It ends up with exactly the
  requested lamports, that many zero bytes of data and the requested owner. The lamports come from the
  funding account, which has signed; nothing else of any other account changes.
\<close>

theorem create_account_creates:
  assumes ic: "get_current_instruction_context tc = Ok ic" and p: "parse (instruction_data ic) = Some instr"
    and instr: "instr = CreateAccount l space ow \<or> instr = CreateAccountWithSeed b seed l space ow"
    and ok: "system_process_instruction sha256 c parse env tc = Ok tc'"
    and i: "i = index_in_transaction (ia_at ic 0)" and j: "j = index_in_transaction (ia_at ic 1)"
  shows "lamports (acct tc j) = 0 \<and> data (acct tc j) = [] \<and> owner (acct tc j) = system_program_id \<and>
    (if instr = CreateAccount l space ow then account_keys tc ! j \<in> signer_keys ic tc
     else b \<in> signer_keys ic tc \<and> create_with_seed sha256 b seed ow = Ok (account_keys tc ! j)) \<and>
    ia_is_signer (ia_at ic 0) \<and> l \<le> lamports (acct tc i) \<and> space \<le> MAX_PERMITTED_DATA_LENGTH \<and>
    acct tc' j = (acct tc j)\<lparr>lamports := l, data := replicate space 0, owner := ow\<rparr> \<and>
    (\<forall>m < length (cells_of tc). m \<noteq> j \<longrightarrow>
       acct tc' m = (acct tc m)\<lparr>lamports := lamports (acct tc m) - (if m = i then l else 0)\<rparr>)"
proof -
  define ws where "ws = (if instr = CreateAccount l space ow then None else Some (b, seed, ow))"
  from ok ic p have d: "system_dispatch sha256 c env ic tc (signer_keys ic tc) instr = Ok tc'"
    by (auto simp: system_process_instruction_def result_simps dest: get_signers_Ok)
  with instr obtain addr where a: "address_of sha256 ic tc 1 ws = Ok addr"
    and cr: "create_account ic tc 0 1 addr l space ow (signer_keys ic tc) = Ok tc'"
    by (auto simp: system_dispatch_def ws_def result_simps)
  note op = create_account_op [OF cr i j]
  have "if instr = CreateAccount l space ow then account_keys tc ! j \<in> signer_keys ic tc
     else b \<in> signer_keys ic tc \<and> create_with_seed sha256 b seed ow = Ok (account_keys tc ! j)"
    using address_of_signer [OF a op(4)] by (auto simp: ws_def j)
  with op show ?thesis by blast
qed

lemmas eval_system = example_system_context_def transaction_context_new_def transaction_accounts_new_def
  list_get_def ok_or_def get_data_def ba_account_def is_writable_def get_lamports_def is_executable_def
  is_instruction_account_writable_def get_number_of_program_accounts_def is_owned_by_current_program_def
  get_last_program_key_def get_index_of_program_account_in_transaction_def get_key_of_account_at_index_def
  get_owner_def touch_def ta_touch_def ba_put_def get_index_of_instruction_account_in_transaction_def sat_add_u16_def
  try_borrow_instruction_account_def try_borrow_account_def set_borrowed_def drop_borrow_def checked_sub_def
  checked_add_u64_def checked_sub_lamports_def checked_add_lamports_def set_lamports_def numeral_2_eq_2
  transfer_def transfer_verified_def is_instruction_account_signer_def Let_def

theorem transfer_moves_lamports_witness:
  "\<exists>tc'. transfer example_system_instruction (example_system_context []) 0 1 3 = Ok tc' \<and>
     lamports_moved (example_system_context []) tc' 1 2 3"
proof -
  have "\<exists>tc'. transfer example_system_instruction (example_system_context []) 0 1 3 = Ok tc'"
    by (simp add: eval_system)
  then obtain tc' where ok: "transfer example_system_instruction (example_system_context []) 0 1 3 = Ok tc'" ..
  have "1 = index_in_transaction (ia_at example_system_instruction 0)" "2 = index_in_transaction (ia_at example_system_instruction 1)"
    by (simp_all add: example_system_context_def)
  from transfer_moves_lamports [OF ok this] ok show ?thesis by auto
qed

lemma is_zeroed_short: "length b < 1024 \<Longrightarrow> is_zeroed b \<longleftrightarrow> b = replicate (length b) 0"
  by (subst is_zeroed.simps) simp

theorem create_account_creates_witness:
  "\<exists>tc'. system_process_instruction (\<lambda>_. 0) example_nonce_codec (\<lambda>_. Some (CreateAccount 3 0 77)) example_nonce_env
      (example_system_context []) = Ok tc' \<and>
     account_keys (example_system_context []) ! 2 \<in> signer_keys example_system_instruction (example_system_context []) \<and>
     acct tc' 2 = (acct (example_system_context []) 2)\<lparr>lamports := 3, data := replicate 0 0, owner := 77\<rparr>"
proof -
  let ?tc = "example_system_context []" and ?ic = example_system_instruction
  have ic: "get_current_instruction_context ?tc = Ok ?ic"
    by (simp add: get_current_instruction_context_def get_instruction_context_at_nesting_level_def
        get_instruction_context_stack_height_def get_instruction_context_at_index_in_trace_def eval_system)
  have run: "\<exists>tc'. system_process_instruction (\<lambda>_. 0) example_nonce_codec (\<lambda>_. Some (CreateAccount 3 0 77)) example_nonce_env ?tc = Ok tc'"
    unfolding system_process_instruction_def ic
    by (simp add: get_signers_def system_dispatch_def check_number_of_instruction_accounts_def get_number_of_instruction_accounts_def address_of_def
        key_of_instruction_account_def address_create_def ensure_def
        create_account_def allocate_and_assign_def allocate_def assign_def address_is_signer_def set_data_length_def
        can_data_be_resized_def can_data_be_changed_def update_accounts_resize_delta_def set_owner_def is_zeroed_short
        system_program_id_def MAX_PERMITTED_DATA_LENGTH_def MAX_PERMITTED_ACCOUNTS_DATA_ALLOCATIONS_PER_TRANSACTION_def
        sat_i64_def as_i64_small eval_system)
  then obtain tc' where ok: "system_process_instruction (\<lambda>_. 0) example_nonce_codec (\<lambda>_. Some (CreateAccount 3 0 77)) example_nonce_env ?tc = Ok tc'" ..
  have "1 = index_in_transaction (ia_at ?ic 0)" "2 = index_in_transaction (ia_at ?ic 1)"
    by (simp_all add: example_system_context_def)
  note created = create_account_creates [OF ic refl disjI1 [OF refl] ok this]
  then have "account_keys ?tc ! 2 \<in> signer_keys ?ic ?tc" by (simp only: if_True simp_thms)
  moreover from created have "acct tc' 2 = (acct ?tc 2)\<lparr>lamports := 3, data := replicate 0 0, owner := 77\<rparr>" by blast
  ultimately show ?thesis using ok by blast
qed

section \<open>Durable nonces\<close>

lemma set_state_reads_back:
  assumes "ba_index_in_transaction ba < length (cells_of tc)" and "set_state c ba tc st = Ok tc'" and "reads_back c st"
  shows "get_state c ba tc' = Ok st"
  using writes_account [OF set_state_op(1) [OF assms(1,2)] assms(1)] assms(3)
  by (simp add: get_state_def get_data_def reads_back_def ok_or_def)

text \<open>
  C23: advancing a nonce needs the signature of its authority and a blockhash whose durable nonce differs
  from the stored one. Afterwards the account holds the durable nonce of the current blockhash, so that a
  transaction can use that nonce and no longer the old one, and the nonce cannot be advanced a second time
  with the same blockhash, whoever signs.
\<close>

theorem advance_nonce_once:
  assumes i: "ba_index_in_transaction ba < length (cells_of tc)"
    and ok: "advance_nonce_account sha256 c env ba tc S = Ok tc'"
    and v: "get_state c ba tc = Ok v" "versions_state v = Initialized nd"
    and n: "n = durable_nonce_from_blockhash sha256 (ec_blockhash env)"
    and c: "reads_back c (versions_new (Initialized (nonce_data_new (nd_authority nd) n (ec_lamports_per_signature env))))"
  shows "nd_authority nd \<in> S \<and>
    (\<exists>v'. get_state c ba tc' = Ok v' \<and>
       versions_state v' = Initialized (nonce_data_new (nd_authority nd) n (ec_lamports_per_signature env)) \<and>
       verify_recent_blockhash v' n \<noteq> None \<and> verify_recent_blockhash v' (nd_durable_nonce nd) = None) \<and>
    advance_nonce_account sha256 c env ba tc' S' \<in> {Err MissingRequiredSignature, Err (system_err NonceBlockhashNotExpired)}"
proof -
  let ?nd' = "nonce_data_new (nd_authority nd) n (ec_lamports_per_signature env)"
  from ok n v have w: "is_writable ba" "nd_authority nd \<in> S" "nd_durable_nonce nd \<noteq> n"
    and set: "set_state c ba tc (versions_new (Initialized ?nd')) = Ok tc'"
    by (auto simp: advance_nonce_account_def Let_def split: if_splits)
  have v': "get_state c ba tc' = Ok (versions_new (Initialized ?nd'))" by (rule set_state_reads_back [OF i set c])
  have st: "versions_state (versions_new (Initialized ?nd')) = Initialized ?nd'"
    by (simp add: versions_new_def versions_state_def)
  have "advance_nonce_account sha256 c env ba tc' S' \<in> {Err MissingRequiredSignature, Err (system_err NonceBlockhashNotExpired)}"
    using w(1) by (simp add: advance_nonce_account_def v' versions_new_def versions_state_def nonce_data_new_def n Let_def)
  then show ?thesis
    using w v' st by (auto simp: versions_new_def verify_recent_blockhash_def nonce_data_new_def)
qed

theorem advance_nonce_once_witness:
  "\<exists>tc'. advance_nonce_account (\<lambda>_. 9) example_nonce_codec example_nonce_env example_nonce_account
      (example_system_context [0]) {20} = Ok tc' \<and>
    advance_nonce_account (\<lambda>_. 9) example_nonce_codec example_nonce_env example_nonce_account tc' {20} \<in>
      {Err MissingRequiredSignature, Err (system_err NonceBlockhashNotExpired)}"
proof -
  let ?tc = "example_system_context [0]"
  have v: "get_state example_nonce_codec example_nonce_account ?tc = Ok (Nonce_Current (Initialized
      \<lparr>nd_authority = 20, nd_durable_nonce = 8, nd_lamports_per_signature = 0\<rparr>))"
    by (simp add: example_nonce_codec_def example_nonce_account_def get_state_def eval_system)
  have "\<exists>tc'. advance_nonce_account (\<lambda>_. 9) example_nonce_codec example_nonce_env example_nonce_account ?tc {20} = Ok tc'"
    unfolding advance_nonce_account_def v
    by (simp add: example_nonce_codec_def example_nonce_env_def example_nonce_account_def versions_state_def eval_system
        durable_nonce_from_blockhash_def hashv_def set_state_def get_data_mut_def can_data_be_changed_def)
  then obtain tc' where
    ok: "advance_nonce_account (\<lambda>_. 9) example_nonce_codec example_nonce_env example_nonce_account ?tc {20} = Ok tc'" ..
  have i: "ba_index_in_transaction example_nonce_account < length (cells_of ?tc)"
    by (simp add: example_nonce_account_def eval_system)
  have "versions_state (Nonce_Current (Initialized \<lparr>nd_authority = 20, nd_durable_nonce = 8, nd_lamports_per_signature = 0\<rparr>)) =
      Initialized \<lparr>nd_authority = 20, nd_durable_nonce = 8, nd_lamports_per_signature = 0\<rparr>"
    by (simp add: versions_state_def)
  note a = advance_nonce_once [OF i ok v this refl]
  have "reads_back example_nonce_codec (versions_new (Initialized (nonce_data_new 20
      (durable_nonce_from_blockhash (\<lambda>_. 9) (ec_blockhash example_nonce_env)) (ec_lamports_per_signature example_nonce_env))))"
    by (simp add: versions_new_def reads_back_def example_nonce_codec_def example_nonce_env_def
        durable_nonce_from_blockhash_def hashv_def nonce_data_new_def)
  with a ok show ?thesis by simp
qed

lemma withdraw_nonce_checks_op:
  assumes ok: "withdraw_nonce_checks sha256 c env ba tc l r = Ok (k, tc')"
    and i: "ba_index_in_transaction ba < length (cells_of tc)" and k: "k \<in> S"
  obtains v d where "get_state c ba tc = Ok v" "writes ba tc tc' ((ba_account ba tc)\<lparr>data := d\<rparr>)"
    "nonce_withdrawal_ok sha256 c env r (account_keys tc ! ba_index_in_transaction ba) S v l (ba_account ba tc) d"
proof -
  from ok obtain v where v: "get_state c ba tc = Ok v" by (auto simp: withdraw_nonce_checks_def result_simps)
  show ?thesis
  proof (cases "versions_state v")
    case Uninitialized
    with ok v k have "tc' = tc" "account_keys tc ! ba_index_in_transaction ba \<in> S"
      by (auto simp: withdraw_nonce_checks_def result_simps get_key_def get_key_of_account_at_index_def list_get_def
          split: if_splits result.splits)
    then show ?thesis
      using Uninitialized by (intro that [OF v, of "data (ba_account ba tc)"]) (auto simp: nonce_withdrawal_ok_def intro: writes_refl)
  next
    case (Initialized nd)
    show ?thesis
    proof (cases "l = get_lamports ba tc")
      case True
      with ok v Initialized have st: "set_state c ba tc (versions_new Uninitialized) = Ok tc'" "nd_authority nd = k"
        "nd_durable_nonce nd \<noteq> durable_nonce_from_blockhash sha256 (ec_blockhash env)"
        by (auto simp: withdraw_nonce_checks_def result_simps split: if_splits)
      show ?thesis
        using True st k Initialized
        by (intro that [OF v set_state_op(1) [OF i st(1)]]) (auto simp: nonce_withdrawal_ok_def get_lamports_def)
    next
      case False
      with ok v Initialized have "tc' = tc" "nd_authority nd = k" "l + minimum_balance r (length (get_data ba tc)) \<le> get_lamports ba tc"
        by (auto simp: withdraw_nonce_checks_def result_simps checked_add_u64_def split: if_splits)
      then show ?thesis
        using False k Initialized by (intro that [OF v, of "data (ba_account ba tc)"])
          (auto simp: nonce_withdrawal_ok_def get_lamports_def get_data_def intro: writes_refl)
    qed
  qed
qed

text \<open>
  C24: lamports leave a nonce account only with its authority among the signers, or the account itself while
  it is not initialised, and only to the recipient; nothing else of any other account changes. When part of
  the balance of an initialised account is withdrawn, the account keeps its data and at least the
  rent-exempt balance for them. When the whole balance is, its nonce is not that of the current blockhash,
  and the account is reset to the uninitialised state; this holds also for a withdrawal from the account to
  itself, which leaves its lamports as they were. An uninitialised account keeps its data.
\<close>

theorem withdraw_nonce_moves_lamports:
  assumes ok: "withdraw_nonce_account sha256 c env ic tc f l t r S = Ok tc'"
    and i: "i = index_in_transaction (ia_at ic f)" and j: "j = index_in_transaction (ia_at ic t)"
  shows "\<exists>v. dec c (data (acct tc i)) = Some v \<and> l \<le> lamports (acct tc i) \<and>
    nonce_withdrawal_ok sha256 c env r (account_keys tc ! i) S v l (acct tc i) (data (acct tc' i)) \<and>
    (\<forall>m < length (cells_of tc). lamports (acct tc' m) =
       lamports (acct tc m) - (if m = i then l else 0) + (if m = j then l else 0)) \<and>
    (\<forall>m < length (cells_of tc). acct tc' m = (acct tc m)
       \<lparr>lamports := lamports (acct tc' m), data := (if m = i then data (acct tc' m) else data (acct tc m))\<rparr>)"
proof -
  from ok obtain ba tc0 k tc1 tc2 to tc3 tc4 where b: "try_borrow_instruction_account ic tc f = Ok (ba, tc0)"
    and chk: "withdraw_nonce_checks sha256 c env ba tc0 l r = Ok (k, tc1)" and k: "k \<in> S"
    and s: "checked_sub_lamports ba tc1 l = Ok tc2"
    and to: "try_borrow_instruction_account ic (drop_borrow ba tc2) t = Ok (to, tc3)"
    and a: "checked_add_lamports to tc3 l = Ok tc4" and tc': "tc' = drop_borrow to tc4"
    by (auto simp: withdraw_nonce_account_def result_simps split: if_splits)
  note bo = borrow_instruction_account [OF b]
  have len0: "length (cells_of tc0) = length (cells_of tc)" using same_frame_cells [OF bo(3)] .
  have i0: "ba_index_in_transaction ba = i" "i < length (cells_of tc0)" using bo i len0 by auto
  have a0: "ba_account ba tc0 = acct tc i" using bo(2,4) i0 i by (simp add: ba_account_def)
  have ks: "account_keys tc0 = account_keys tc" using bo(3) by (simp add: same_frame_def)
  obtain v d where v: "get_state c ba tc0 = Ok v" and w: "writes ba tc0 tc1 ((acct tc i)\<lparr>data := d\<rparr>)"
    and d: "nonce_withdrawal_ok sha256 c env r (account_keys tc ! i) S v l (acct tc i) d"
    using withdraw_nonce_checks_op [OF chk _ k] i0 a0 ks by metis
  have len1: "length (cells_of tc1) = length (cells_of tc)" using writes_length [OF w] len0 by simp
  have a1: "acct tc1 m = (if m = i then (acct tc i)\<lparr>data := d\<rparr> else acct tc m)" if "m < length (cells_of tc)" for m
    using w that i0 len0 bo(4) by (simp add: writes_def)
  have mv: "lamports_moved tc1 tc' i j l"
    unfolding tc' by (rule lamports_movedI [OF _ _ s to a j]) (use i0 len0 len1 in auto)
  have "dec c (data (acct tc i)) = Some v" using v a0 by (simp add: get_state_def get_data_def result_simps)
  then show ?thesis
    using mv a1 d len1 i0 len0 by (intro exI [of _ v]) (auto simp: lamports_moved_def)
qed

theorem withdraw_nonce_moves_lamports_witness:
  "\<exists>tc'. withdraw_nonce_account (\<lambda>_. 9) example_nonce_codec example_nonce_env example_system_instruction
      (example_system_context [0]) 0 2 1 \<lparr>minimum_balance = \<lambda>d. d\<rparr> {20} = Ok tc' \<and>
    lamports (acct tc' 1) + 2 = lamports (acct (example_system_context [0]) 1)"
proof -
  let ?w = "withdraw_nonce_account (\<lambda>_. 9) example_nonce_codec example_nonce_env example_system_instruction
      (example_system_context [0]) 0 2 1 \<lparr>minimum_balance = \<lambda>d. d\<rparr> {20}"
  have "\<exists>tc'. ?w = Ok tc'"
    by (simp add: withdraw_nonce_account_def withdraw_nonce_checks_def get_state_def example_nonce_codec_def
        versions_state_def eval_system)
  then obtain tc' where ok: "?w = Ok tc'" ..
  have "1 = index_in_transaction (ia_at example_system_instruction 0)" "2 = index_in_transaction (ia_at example_system_instruction 1)"
    by (simp_all add: example_system_context_def)
  note moved = withdraw_nonce_moves_lamports [OF ok this]
  then obtain v where le: "2 \<le> lamports (acct (example_system_context [0]) 1)"
    and all: "\<forall>m < length (cells_of (example_system_context [0])). lamports (acct tc' m) =
       lamports (acct (example_system_context [0]) m) - (if m = 1 then 2 else 0) + (if m = 2 then 2 else 0)" by blast
  have "1 < length (cells_of (example_system_context [0]))" by (simp add: eval_system)
  with all have "lamports (acct tc' 1) = lamports (acct (example_system_context [0]) 1) - 2" by simp
  with le ok show ?thesis by auto
qed

end
