(* ===== verification/Wire_Format.thy ===== *)
theory Wire_Format
  imports Vote_State
begin

text \<open>
  The encodings votes and messages travel in. \<open>varint_serialize\<close> and \<open>varint_visit_seq\<close> are
  the macro \<open>impl_var_int\<close> of \<open>sdk/serde-varint\<close> at any width; the short lengths are
  \<open>short-vec/src/lib.rs\<close>, with its visitor and its slice decoder; the compact vote payloads are the
  modules \<open>serde_compact_vote_state_update\<close> and \<open>serde_tower_sync\<close> of the vote state, from the payload to
  the record of offsets that is then written. A decoder returns its value and the bytes it has not
  read. The lemmas relate one digit of either format to arithmetic in base 128; both formats turn
  out to be the same encoding, so one induction each way gives every canonicity result.
\<close>

unbundle bit_operations_syntax

section \<open>Definitions\<close>

datatype varint_error = Invalid_Sequence | Last_Byte_Truncated | Invalid_Trailing_Zeros | Left_Shift_Overflows

function varint_visit_seq :: "nat \<Rightarrow> byte list \<Rightarrow> nat \<Rightarrow> nat \<Rightarrow> (varint_error, nat \<times> byte list) result" where
  "varint_visit_seq bits seq out shift =
     (if shift < bits then
        case seq of
          [] \<Rightarrow> Err Invalid_Sequence
        | b # rest \<Rightarrow>
            let out = out OR take_bit bits (push_bit shift (unat (b AND 0x7F)))
            in if b AND 0x80 = 0 then
                 if drop_bit shift out mod 256 \<noteq> unat b then Err Last_Byte_Truncated
                 else if b = 0 \<and> (shift \<noteq> 0 \<or> out \<noteq> 0) then Err Invalid_Trailing_Zeros
                 else Ok (out, rest)
               else varint_visit_seq bits rest out (shift + 7)
      else Err Left_Shift_Overflows)"
  by pat_completeness auto
termination
  by (relation "measure (\<lambda>(bits, seq, out, shift). bits - shift)") auto

function varint_serialize :: "nat \<Rightarrow> byte list" where
  "varint_serialize n =
     (if 0x80 \<le> n then word_of_nat ((n AND 0x7F) OR 0x80) # varint_serialize (drop_bit 7 n)
      else [word_of_nat n])"
  by pat_completeness auto
termination
  by (relation "measure id") (auto simp: drop_bit_eq_div)

declare varint_visit_seq.simps [simp del] varint_serialize.simps [simp del]

definition MAX_ENCODING_LENGTH :: nat where "MAX_ENCODING_LENGTH = 3"

datatype visit_status = Done nat | More nat

datatype visit_error = TooLong nat | TooShort nat | Overflow nat | Alias | ByteThreeContinues

function short_u16_serialize :: "nat \<Rightarrow> byte list" where
  "short_u16_serialize rem_val =
     (let elem = word_of_nat (rem_val AND 0x7F); rem_val' = drop_bit 7 rem_val
      in if rem_val' = 0 then [elem] else (elem OR 0x80) # short_u16_serialize rem_val')"
  by pat_completeness auto
termination
  by (relation "measure id") (auto simp: drop_bit_eq_div)

declare short_u16_serialize.simps [simp del]

definition visit_byte :: "byte \<Rightarrow> nat \<Rightarrow> nat \<Rightarrow> (visit_error, visit_status) result" where
  "visit_byte elem val nth_byte =
     (if elem = 0 \<and> nth_byte \<noteq> 0 then Err Alias
      else
        let elem_val = unat (elem AND 0x7F); elem_done = (elem AND 0x80 = 0)
        in if MAX_ENCODING_LENGTH \<le> nth_byte then Err (TooLong (nth_byte + 1))
           else if nth_byte = sat_sub MAX_ENCODING_LENGTH 1 \<and> \<not> elem_done then Err ByteThreeContinues
           else
             let new_val = val OR push_bit (nth_byte * 7) elem_val
             in if u16_max < new_val then Err (Overflow new_val)
                else if elem_done then Ok (Done new_val) else Ok (More new_val))"

text \<open>The visitor of \<open>ShortU16\<close>: from byte number \<open>nth_byte\<close> on; it also returns what it has not read.\<close>

fun short_u16_visit_seq :: "nat \<Rightarrow> nat \<Rightarrow> nat \<Rightarrow> byte list \<Rightarrow> (visit_error, nat \<times> byte list) result" where
  "short_u16_visit_seq 0 nth_byte val seq = Err ByteThreeContinues"
| "short_u16_visit_seq (Suc n) nth_byte val [] = Err (TooShort (nth_byte + 1))"
| "short_u16_visit_seq (Suc n) nth_byte val (b # seq) =
     rbind (visit_byte b val nth_byte) (\<lambda>st.
     case st of
       Done new_val \<Rightarrow> Ok (new_val, seq)
     | More new_val \<Rightarrow> short_u16_visit_seq n (nth_byte + 1) new_val seq)"

definition short_u16_deserialize :: "byte list \<Rightarrow> (visit_error, nat \<times> byte list) result" where
  "short_u16_deserialize seq = short_u16_visit_seq MAX_ENCODING_LENGTH 0 0 seq"

text \<open>The loop of \<open>decode_shortu16_len\<close>; every error becomes the unit error.\<close>

fun decode_loop :: "nat \<Rightarrow> nat \<Rightarrow> byte list \<Rightarrow> (unit, nat \<times> nat) result" where
  "decode_loop nth_byte val [] = Err ()"
| "decode_loop nth_byte val (b # bs) =
     rbind (map_err (\<lambda>_. ()) (visit_byte b val nth_byte)) (\<lambda>st.
     case st of
       More new_val \<Rightarrow> decode_loop (nth_byte + 1) new_val bs
     | Done new_val \<Rightarrow> Ok (new_val, nth_byte + 1))"

definition decode_shortu16_len :: "byte list \<Rightarrow> (unit, nat \<times> nat) result" where
  "decode_shortu16_len bytes = decode_loop 0 0 (take MAX_ENCODING_LENGTH bytes)"

text \<open>A vector with a short length, over the encoding of its elements.\<close>

definition short_vec_serialize :: "('a \<Rightarrow> byte list) \<Rightarrow> 'a list \<Rightarrow> byte list option" where
  "short_vec_serialize ser elements =
     (if u16_max < length elements then None
      else Some (short_u16_serialize (length elements) @ concat (map ser elements)))"

fun read_elements :: "(byte list \<Rightarrow> ('a \<times> byte list) option) \<Rightarrow> nat \<Rightarrow> byte list \<Rightarrow> ('a list \<times> byte list) option" where
  "read_elements de 0 seq = Some ([], seq)"
| "read_elements de (Suc n) seq =
     (case de seq of
        None \<Rightarrow> None
      | Some (x, seq') \<Rightarrow>
          (case read_elements de n seq' of None \<Rightarrow> None | Some (xs, rest) \<Rightarrow> Some (x # xs, rest)))"

definition short_vec_deserialize ::
  "(byte list \<Rightarrow> ('a \<times> byte list) option) \<Rightarrow> byte list \<Rightarrow> ('a list \<times> byte list) option" where
  "short_vec_deserialize de seq =
     (case short_u16_deserialize seq of Ok (len, seq') \<Rightarrow> read_elements de len seq' | _ \<Rightarrow> None)"

datatype compact_error = Invalid_vote_lockout | Invalid_confirmation_count | Invalid_lockout_offset

record lockout_offset =
  lo_offset :: nat
  lo_confirmation_count :: nat

record compact_vote_state_update =
  cv_root :: slot
  cv_lockout_offsets :: "lockout_offset list"
  cv_hash :: hash
  cv_timestamp :: "unix_timestamp option"

record compact_tower_sync =
  ct_root :: slot
  ct_lockout_offsets :: "lockout_offset list"
  ct_hash :: hash
  ct_timestamp :: "unix_timestamp option"
  ct_block_id :: hash

text \<open>The \<open>scan\<close> over the lockouts, collected up to the first error.\<close>

fun offsets_of_lockouts :: "slot \<Rightarrow> lockout list \<Rightarrow> (compact_error, lockout_offset list) result" where
  "offsets_of_lockouts s [] = Ok []"
| "offsets_of_lockouts s (l # ls) =
     (case checked_sub (lockout_slot l) s of
        None \<Rightarrow> Err Invalid_vote_lockout
      | Some off \<Rightarrow>
          if u8_max < confirmation_count l then Err Invalid_confirmation_count
          else rbind (offsets_of_lockouts (lockout_slot l) ls) (\<lambda>os.
               Ok (\<lparr>lo_offset = off, lo_confirmation_count = confirmation_count l\<rparr> # os)))"

fun lockouts_of_offsets :: "slot \<Rightarrow> lockout_offset list \<Rightarrow> (compact_error, lockout list) result" where
  "lockouts_of_offsets s [] = Ok []"
| "lockouts_of_offsets s (ofs # os) =
     (case checked_add_u64 s (lo_offset ofs) of
        None \<Rightarrow> Err Invalid_lockout_offset
      | Some s' \<Rightarrow>
          rbind (lockouts_of_offsets s' os) (\<lambda>ls.
          Ok (new_with_confirmation_count s' (lo_confirmation_count ofs) # ls)))"

abbreviation unwrap_or :: "nat \<Rightarrow> nat option \<Rightarrow> nat" where
  "unwrap_or d x \<equiv> (case x of None \<Rightarrow> d | Some n \<Rightarrow> n)"

definition compact_vote_state_update_serialize ::
  "vote_state_update \<Rightarrow> (compact_error, compact_vote_state_update) result" where
  "compact_vote_state_update_serialize u =
     rbind (offsets_of_lockouts (unwrap_or 0 (vsu_root u)) (vsu_lockouts u)) (\<lambda>os.
     Ok \<lparr>cv_root = unwrap_or u64_max (vsu_root u), cv_lockout_offsets = os, cv_hash = vsu_hash u,
         cv_timestamp = vsu_timestamp u\<rparr>)"

definition compact_vote_state_update_deserialize ::
  "compact_vote_state_update \<Rightarrow> (compact_error, vote_state_update) result" where
  "compact_vote_state_update_deserialize c =
     (let root = (if cv_root c \<noteq> u64_max then Some (cv_root c) else None) in
      rbind (lockouts_of_offsets (unwrap_or 0 root) (cv_lockout_offsets c)) (\<lambda>ls.
      Ok \<lparr>vsu_lockouts = ls, vsu_root = root, vsu_hash = cv_hash c, vsu_timestamp = cv_timestamp c\<rparr>))"

definition compact_tower_sync_serialize :: "tower_sync \<Rightarrow> (compact_error, compact_tower_sync) result" where
  "compact_tower_sync_serialize t =
     rbind (offsets_of_lockouts (unwrap_or 0 (ts_root t)) (ts_lockouts t)) (\<lambda>os.
     Ok \<lparr>ct_root = unwrap_or u64_max (ts_root t), ct_lockout_offsets = os, ct_hash = ts_hash t,
         ct_timestamp = ts_timestamp t, ct_block_id = ts_block_id t\<rparr>)"

definition compact_tower_sync_deserialize :: "compact_tower_sync \<Rightarrow> (compact_error, tower_sync) result" where
  "compact_tower_sync_deserialize c =
     (let root = (if ct_root c \<noteq> u64_max then Some (ct_root c) else None) in
      rbind (lockouts_of_offsets (unwrap_or 0 root) (ct_lockout_offsets c)) (\<lambda>ls.
      Ok \<lparr>ts_lockouts = ls, ts_root = root, ts_hash = ct_hash c, ts_timestamp = ct_timestamp c,
          ts_block_id = ct_block_id c\<rparr>))"

text \<open>One byte of the visitor, in arithmetic.\<close>

definition varint_step :: "nat \<Rightarrow> byte \<Rightarrow> nat \<Rightarrow> nat \<Rightarrow> nat" where
  "varint_step bits b out shift = out + (unat b mod 128 * 2 ^ shift) mod 2 ^ bits"

text \<open>The values the types of the source allow, with the root that stands for no root excluded.\<close>

definition lockouts_in_range :: "slot option \<Rightarrow> lockout list \<Rightarrow> bool" where
  "lockouts_in_range root ls \<longleftrightarrow> root \<noteq> Some u64_max \<and> (\<forall>l\<in>set ls. lockout_slot l \<le> u64_max)"

definition offsets_in_range :: "lockout_offset list \<Rightarrow> bool" where
  "offsets_in_range os \<longleftrightarrow> (\<forall>x\<in>set os. lo_confirmation_count x \<le> u8_max)"

definition example_sync :: tower_sync where
  "example_sync = \<lparr>ts_lockouts = [new_with_confirmation_count 12 2, new_with_confirmation_count 15 1],
     ts_root = Some 10, ts_hash = 7, ts_timestamp = None, ts_block_id = 9\<rparr>"

definition example_compact :: compact_tower_sync where
  "example_compact = \<lparr>ct_root = 10,
     ct_lockout_offsets = [\<lparr>lo_offset = 2, lo_confirmation_count = 2\<rparr>, \<lparr>lo_offset = 3, lo_confirmation_count = 1\<rparr>],
     ct_hash = 7, ct_timestamp = None, ct_block_id = 9\<rparr>"

section \<open>Bytes with a continuation bit\<close>

lemma low_seven: "unat ((b :: byte) AND 0x7F) = unat b mod 128"
proof -
  have "b AND 0x7F = take_bit 7 b" by (simp add: take_bit_eq_mask mask_eq_exp_minus_1)
  then have "unat (b AND 0x7F) = take_bit 7 (unat b)" by (simp only: unsigned_take_bit_eq)
  then show ?thesis by (simp add: take_bit_eq_mod)
qed

lemma nat_low_seven: "(n :: nat) AND 0x7F = n mod 128"
  using take_bit_eq_mask [of 7 n] by (simp add: take_bit_eq_mod mask_eq_exp_minus_1)

lemma byte_lt: "unat (b :: byte) < 256"
  using unsigned_less [of b] by simp

lemma final_byte: "(b :: byte) AND 0x80 = 0 \<longleftrightarrow> unat b < 128"
proof -
  have "b AND 0x80 = 0 \<longleftrightarrow> unat b AND 2 ^ 7 = (0 :: nat)"
    by (simp add: unat_eq_0 [symmetric] unsigned_and_eq)
  also have "\<dots> \<longleftrightarrow> \<not> odd (unat b div 128)"
    using and_exp_eq_0_iff_not_bit [of "unat b" 7] by (simp add: bit_iff_odd)
  also have "\<dots> \<longleftrightarrow> unat b < 128"
  proof (cases "unat b < 128")
    case False
    then have "unat b div 128 = 1" using byte_lt [of b] by (auto simp: div_nat_eqI)
    with False show ?thesis by simp
  qed simp
  finally show ?thesis .
qed

lemma or_high_bit:
  assumes "(m :: nat) < 128"
  shows "m OR 0x80 = m + 128" "unat (word_of_nat m OR 0x80 :: byte) = m + 128"
proof -
  have "m AND 2 ^ 7 = 0" using and_exp_eq_0_iff_not_bit [of m 7] assms by (simp add: bit_iff_odd)
  then show o: "m OR 0x80 = m + 128" using disjunctive_add_eq_or [of m 128] by simp
  show "unat (word_of_nat m OR 0x80 :: byte) = m + 128"
    using assms by (simp add: unsigned_or_eq unat_of_nat o)
qed

text \<open>Digits of base 128 above a partial value.\<close>

lemma or_above:
  assumes "(out :: nat) < 2 ^ s"
  shows "out OR push_bit s k = out + k * 2 ^ s"
proof -
  have "take_bit s out = out" using assms by (simp add: take_bit_nat_eq_self)
  then have "bit out n \<Longrightarrow> n < s" for n using bit_take_bit_iff [of s out n] by simp
  then have "out AND push_bit s k = 0"
    by (intro bit_eqI) (auto simp: bit_and_iff bit_push_bit_iff_nat dest: leD)
  then show ?thesis using disjunctive_add_eq_or [of out "push_bit s k"] by (simp add: push_bit_eq_mult)
qed


lemma varint_serialize_step:
  "varint_serialize n = (if 128 \<le> n then word_of_nat (n mod 128 + 128) # varint_serialize (n div 128) else [word_of_nat n])"
  by (subst varint_serialize.simps) (simp add: nat_low_seven or_high_bit(1) drop_bit_eq_div)

lemma varint_step_eq:
  assumes "out < 2 ^ s" and s: "s < w"
  shows "out OR take_bit w (push_bit s (unat (b AND 0x7F))) = varint_step w b out s"
proof -
  obtain d where w: "w = s + d" using s less_imp_add_positive by blast
  have "take_bit w (push_bit s (unat (b AND 0x7F))) = push_bit s (unat b mod 128 mod 2 ^ d)"
    by (simp add: w low_seven take_bit_eq_mod push_bit_eq_mult power_add mult.commute)
  then show ?thesis
    using or_above [OF assms(1)] by (simp add: varint_step_def w power_add mult.commute)
qed

lemma varint_step_bound:
  assumes "out < 2 ^ s"
  shows "varint_step w b out s < 2 ^ (s + 7)"
proof -
  have "unat b mod 128 * 2 ^ s mod 2 ^ w \<le> unat b mod 128 * 2 ^ s" by simp
  also have "\<dots> \<le> 127 * 2 ^ s" by (rule mult_right_mono) simp_all
  finally show ?thesis using assms by (simp add: varint_step_def power_add)
qed

lemma varint_visit_step:
  assumes "out < 2 ^ s"
  shows "varint_visit_seq w seq out s =
     (if s < w then
        case seq of
          [] \<Rightarrow> Err Invalid_Sequence
        | b # rest \<Rightarrow>
            let out = varint_step w b out s
            in if unat b < 128 then
                 if out div 2 ^ s mod 256 \<noteq> unat b then Err Last_Byte_Truncated
                 else if b = 0 \<and> (s \<noteq> 0 \<or> out \<noteq> 0) then Err Invalid_Trailing_Zeros
                 else Ok (out, rest)
               else varint_visit_seq w rest out (s + 7)
      else Err Left_Shift_Overflows)"
  by (subst varint_visit_seq.simps)
    (simp add: varint_step_eq [OF assms] final_byte drop_bit_eq_div Let_def split: list.split)

lemma mult_power_less: "0 < n \<Longrightarrow> n * 2 ^ k < (2 :: nat) ^ w \<Longrightarrow> k < w"
proof -
  assume "0 < n" "n * 2 ^ k < (2 :: nat) ^ w"
  moreover have "1 * 2 ^ k \<le> n * (2 :: nat) ^ k" using \<open>0 < n\<close> by (intro mult_right_mono) auto
  ultimately have "(2 :: nat) ^ k < 2 ^ w" by linarith
  then show "k < w" by (simp only: power_strict_increasing_iff)
qed

lemma varint_decode_encode:
  assumes "out < 2 ^ s" and "n * 2 ^ s < 2 ^ w" and "0 < n \<or> s = 0" and "s < w"
  shows "varint_visit_seq w (varint_serialize n @ rest) out s = Ok (out + n * 2 ^ s, rest)"
  using assms
proof (induction n arbitrary: out s rule: less_induct)
  case (less n)
  show ?case
  proof (cases "128 \<le> n")
    case True
    define b :: byte where "b = word_of_nat (n mod 128 + 128)"
    have b: "unat b = n mod 128 + 128" unfolding b_def by (subst unat_of_nat) simp
    have ser: "varint_serialize n = b # varint_serialize (n div 128)"
      using True by (simp only: varint_serialize_step [of n] b_def if_True)
    have le: "n mod 128 * 2 ^ s \<le> n * 2 ^ s" "n div 128 * 2 ^ (s + 7) \<le> n * 2 ^ s"
      by (simp_all add: power_add ac_simps)
    have "n mod 128 * 2 ^ s < 2 ^ w" using le(1) less.prems(2) by linarith
    then have step: "varint_step w b out s = out + n mod 128 * 2 ^ s"
      by (simp add: varint_step_def b)
    have pos: "0 < n div 128" using True by (simp add: div_greater_zero_iff)
    have lt: "n div 128 * 2 ^ (s + 7) < 2 ^ w" using le(2) less.prems(2) by linarith
    have s7: "s + 7 < w" by (rule mult_power_less [OF pos lt])
    have "varint_visit_seq w (varint_serialize n @ rest) out s =
        varint_visit_seq w (varint_serialize (n div 128) @ rest) (out + n mod 128 * 2 ^ s) (s + 7)"
      using True less.prems(4) by (simp add: ser varint_visit_step [OF less.prems(1)] b step)
    also have "\<dots> = Ok (out + n mod 128 * 2 ^ s + n div 128 * 2 ^ (s + 7), rest)"
      by (rule less.IH) (use True pos lt s7 varint_step_bound [OF less.prems(1), of w b] step in auto)
    also have "out + n mod 128 * 2 ^ s + n div 128 * 2 ^ (s + 7) = out + (n mod 128 + n div 128 * 128) * 2 ^ s"
      by (simp only: add_mult_distrib power_add) simp
    finally show ?thesis by simp
  next
    case False
    define b :: byte where "b = word_of_nat n"
    have b: "unat b = n" unfolding b_def by (subst unat_of_nat) (use False in simp)
    have z: "b = 0 \<longleftrightarrow> n = 0" using b unat_eq_zero [of b] by simp
    have ser: "varint_serialize n = [b]"
      using False by (simp only: varint_serialize_step [of n] b_def if_False)
    have step: "varint_step w b out s = out + n * 2 ^ s"
      using False less.prems(2) by (simp add: varint_step_def b)
    have d: "(out + n * 2 ^ s) div 2 ^ s mod 256 = n" using False less.prems(1) by simp
    have "varint_visit_seq w ([b] @ rest) out s = Ok (out + n * 2 ^ s, rest)"
      using False less.prems(1,3,4)
      by (subst varint_visit_step) (auto simp: b z step d)
    then show ?thesis by (simp only: ser)
  qed
qed

lemma varint_encode_decode:
  assumes "varint_visit_seq w seq out s = Ok (r, rest)" and "out < 2 ^ s"
  shows "\<exists>n. seq = varint_serialize n @ rest \<and> r = out + n * 2 ^ s \<and> n * 2 ^ s < 2 ^ w \<and> (0 < n \<or> s = 0)"
  using assms
proof (induction w seq out s rule: varint_visit_seq.induct)
  case (1 w seq out s)
  note step = varint_visit_step [OF "1.prems"(2)]
  from "1.prems"(1) obtain b bs where seq: "seq = b # bs" and s: "s < w"
    by (auto simp: step split: if_splits list.splits)
  let ?out = "varint_step w b out s"
  obtain d where w: "w = s + d" using s less_imp_add_positive by blast
  show ?case
  proof (cases "unat b < 128")
    case True
    with "1.prems"(1) have r: "r = ?out" "rest = bs" and trunc: "?out div 2 ^ s mod 256 = unat b"
      and zero: "\<not> (b = 0 \<and> (s \<noteq> 0 \<or> ?out \<noteq> 0))"
      by (auto simp: step seq s Let_def split: if_splits)
    have "?out div 2 ^ s = unat b mod 2 ^ d"
      using True "1.prems"(2) by (simp add: varint_step_def w power_add mult.commute)
    moreover have "unat b mod 2 ^ d < 256" using byte_lt [of b] mod_less_eq_dividend [of "unat b" "2 ^ d"] by linarith
    ultimately have fit: "unat b mod 2 ^ d = unat b" using trunc by simp
    then have "unat b < 2 ^ d" by (metis mod_less_divisor zero_less_numeral zero_less_power)
    then have lt: "unat b * 2 ^ s < 2 ^ w" by (simp add: w power_add)
    then have "r = out + unat b * 2 ^ s" using r True by (simp add: varint_step_def)
    moreover have "varint_serialize (unat b) = [b]" using True by (simp add: varint_serialize_step [of "unat b"])
    moreover have "0 < unat b \<or> s = 0" using zero by (auto simp: unat_gt_0)
    ultimately show ?thesis using seq r lt by (intro exI [of _ "unat b"]) auto
  next
    case False
    have "varint_visit_seq w bs ?out (s + 7) = Ok (r, rest)"
      using "1.prems"(1) False s by (simp add: step seq Let_def)
    then obtain n where n: "bs = varint_serialize n @ rest" "r = ?out + n * 2 ^ (s + 7)" "n * 2 ^ (s + 7) < 2 ^ w" "0 < n"
      using "1.IH" [OF s seq refl] False varint_step_bound [OF "1.prems"(2), of w b]
      by (auto simp: varint_step_eq [OF "1.prems"(2) s] final_byte)
    have m: "unat b mod 128 = unat b - 128" using False byte_lt [of b] by (simp add: mod_if)
    have s7: "s + 7 < w" by (rule mult_power_less [OF n(4,3)])
    then have p7: "(2 :: nat) ^ (s + 7) < 2 ^ w" by (simp only: power_strict_increasing_iff)
    have "(unat b - 128) * 2 ^ s < 2 ^ (s + 7)" using byte_lt [of b] by (simp add: power_add)
    then have "(unat b - 128) * 2 ^ s < 2 ^ w" using p7 by (rule less_trans)
    then have out: "?out = out + (unat b - 128) * 2 ^ s" using m by (simp add: varint_step_def)
    let ?n = "n * 128 + (unat b - 128)"
    have k: "unat b - 128 < 128" "unat b - 128 + 128 = unat b" using False byte_lt [of b] by simp_all
    have "varint_serialize ?n = word_of_nat (unat b - 128 + 128) # varint_serialize n"
      using n(4) k(1) by (subst varint_serialize_step) simp
    then have "varint_serialize ?n = b # varint_serialize n" unfolding k(2) by simp
    moreover have "r = out + ?n * 2 ^ s" using n(2) out by (simp add: power_add algebra_simps)
    moreover have "?n * 2 ^ s < 2 ^ w"
    proof -
      obtain e where e: "w = s + 7 + e" using s7 less_imp_add_positive by blast
      then have "n < 2 ^ e" using n(3) by (simp add: power_add)
      then have "n * 128 + (unat b - 128) < 2 ^ e * 128" using byte_lt [of b] by linarith
      then show ?thesis by (simp add: e power_add)
    qed
    ultimately show ?thesis using n seq by (intro exI [of _ ?n]) auto
  qed
qed

lemma short_u16_serialize_eq: "short_u16_serialize n = varint_serialize n"
proof (induction n rule: less_induct)
  case (less n)
  have hi: "word_of_nat (n AND 0x7F) OR (0x80 :: byte) = word_of_nat ((n AND 0x7F) OR 0x80)"
    by (simp add: of_nat_or_eq)
  show ?case
  proof (cases "128 \<le> n")
    case True
    then have "drop_bit 7 n \<noteq> 0" "drop_bit 7 n < n" by (auto simp: drop_bit_eq_div)
    then show ?thesis
      using less [of "drop_bit 7 n"] True
      by (simp add: short_u16_serialize.simps [of n] varint_serialize.simps [of n] Let_def hi)
  next
    case False
    then have "drop_bit 7 n = 0" "n AND 0x7F = n" by (auto simp: drop_bit_eq_div nat_low_seven)
    then show ?thesis
      using False by (simp add: short_u16_serialize.simps [of n] varint_serialize.simps [of n] Let_def)
  qed
qed

lemma visit_byte_eq:
  assumes "v < 2 ^ (k * 7)"
  shows "visit_byte b v k =
     (if b = 0 \<and> k \<noteq> 0 then Err Alias
      else if 3 \<le> k then Err (TooLong (k + 1))
      else if k = 2 \<and> 128 \<le> unat b then Err ByteThreeContinues
      else
        let new_val = v + unat b mod 128 * 2 ^ (k * 7)
        in if u16_max < new_val then Err (Overflow new_val)
           else if unat b < 128 then Ok (Done new_val) else Ok (More new_val))"
  using or_above [OF assms, of "unat b mod 128"]
  by (auto simp: visit_byte_def MAX_ENCODING_LENGTH_def Let_def final_byte low_seven push_bit_eq_mult)

lemma visit_third:
  assumes "v < 2 ^ 14"
  shows "short_u16_visit_seq 1 2 v seq = Ok r \<longleftrightarrow> varint_visit_seq 16 seq v 14 = Ok r"
proof (cases seq)
  case Nil
  then show ?thesis using assms by (simp add: varint_visit_step)
next
  case (Cons b bs)
  have over: "varint_visit_seq 16 bs u 21 = Err Left_Shift_Overflows" for u
    by (simp add: varint_visit_seq.simps)
  show ?thesis
  proof (cases "unat b < 4")
    case True
    then have "(v + unat b * 16384) div 16384 = unat b" "v + unat b * 16384 \<le> u16_max"
      using assms by simp_all
    then show ?thesis
      using True assms by (simp add: Cons visit_byte_eq varint_visit_step varint_step_def Let_def)
  next
    case False
    have "unat b mod 128 * 16384 mod (4 * 16384) = unat b mod 128 mod 4 * 16384" by (simp only: mult_mod_left)
    then have "(v + unat b mod 128 * 16384 mod 65536) div 16384 < 4"
      using assms by (intro less_mult_imp_div_less) (simp, linarith?)
    then have "unat b < 128 \<Longrightarrow> (v + unat b * 16384 mod 65536) div 16384 \<noteq> unat b" using False by auto
    then show ?thesis
      using False assms
      by (simp add: Cons visit_byte_eq varint_visit_step varint_step_def Let_def over)
  qed
qed

lemma visit_earlier:
  assumes "v < 2 ^ (k * 7)" and k: "k < 2"
    and rec: "\<And>u bs. u < 2 ^ (k * 7 + 7) \<Longrightarrow>
      short_u16_visit_seq n (k + 1) u bs = Ok r \<longleftrightarrow> varint_visit_seq 16 bs u (k * 7 + 7) = Ok r"
  shows "short_u16_visit_seq (Suc n) k v seq = Ok r \<longleftrightarrow> varint_visit_seq 16 seq v (k * 7) = Ok r"
proof (cases seq)
  case Nil
  then show ?thesis using k by (simp add: varint_visit_step [OF assms(1)])
next
  case (Cons b bs)
  have small: "unat b mod 128 * 2 ^ (k * 7) < 2 ^ (k * 7 + 7)" by (simp add: power_add)
  have le: "(2 :: nat) ^ (k * 7 + 7) \<le> 2 ^ 14" using k by (intro power_increasing) auto
  have step: "varint_step 16 b v (k * 7) = v + unat b mod 128 * 2 ^ (k * 7)"
    using small le by (simp add: varint_step_def)
  have bound: "v + unat b mod 128 * 2 ^ (k * 7) < 2 ^ (k * 7 + 7)"
    using varint_step_bound [OF assms(1), of 16 b] step by simp
  then have fits: "\<not> u16_max < v + unat b mod 128 * 2 ^ (k * 7)" using le by simp
  have d: "(v + unat b mod 128 * 2 ^ (k * 7)) div 2 ^ (k * 7) = unat b mod 128" using assms(1) by simp
  show ?thesis
    using k fits rec [OF bound, of bs] assms(1)
    by (auto simp: Cons visit_byte_eq [OF assms(1)] varint_visit_step [OF assms(1)] step d Let_def)
qed

lemma short_u16_varint: "short_u16_deserialize seq = Ok r \<longleftrightarrow> varint_visit_seq 16 seq 0 0 = Ok r"
proof -
  have two: "short_u16_visit_seq 2 1 v s = Ok r \<longleftrightarrow> varint_visit_seq 16 s v 7 = Ok r" if "v < 2 ^ 7" for v s
    using visit_earlier [of v 1 1 r s] visit_third that by (simp add: numeral_2_eq_2)
  show ?thesis
    using visit_earlier [of 0 0 2 r seq] two
    by (simp add: short_u16_deserialize_def MAX_ENCODING_LENGTH_def numeral_3_eq_3 numeral_2_eq_2)
qed

lemma short_u16_visit_length: "short_u16_visit_seq j k v bs = Ok (n, rest) \<Longrightarrow> length rest \<le> length bs"
proof (induction j k v bs rule: short_u16_visit_seq.induct)
  case (3 j k v b bs)
  from "3.prems" obtain st where "visit_byte b v k = Ok st" by (auto simp: result_simps)
  with "3.prems" "3.IH" show ?case by (cases st) (auto intro: le_SucI)
qed simp_all

lemma visit_byte_no_panic: "visit_byte b v k \<noteq> Panic"
  by (simp add: visit_byte_def Let_def)

lemma decode_loop_visit:
  "decode_loop k v (take j bs) =
   (case short_u16_visit_seq j k v bs of Ok (n, rest) \<Rightarrow> Ok (n, k + (length bs - length rest)) | _ \<Rightarrow> Err ())"
proof (induction j k v bs rule: short_u16_visit_seq.induct)
  case (3 j k v b bs)
  show ?case
  proof (cases "visit_byte b v k")
    case (Ok st)
    then show ?thesis
      using "3.IH" short_u16_visit_length [of j "k + 1" _ bs]
      by (auto simp: Suc_diff_le split: visit_status.splits result.splits)
  qed (use visit_byte_no_panic in auto)
qed auto

section \<open>Canonical encodings\<close>

text \<open>
  C27: the variable-length encoding of the offsets in compact votes is canonical at every width: the
  decoder returns a value exactly when the bytes it consumes are the encoding of that value and the
  value fits the width. So every number survives the round trip, no number has two encodings (no
  padded zero, no truncated last byte), and what follows the number is left to the next reader.
\<close>

theorem varint_canonical:
  assumes "0 < w"
  shows "varint_visit_seq w seq 0 0 = Ok (n, rest) \<longleftrightarrow> n < 2 ^ w \<and> seq = varint_serialize n @ rest"
  using varint_encode_decode [of w seq 0 0 n rest] varint_decode_encode [of 0 0 n w rest] assms by auto

theorem varint_canonical_witness:
  "varint_visit_seq 64 [0xAC, 0x02, 7] 0 0 = Ok (300, [7])"
proof -
  have "varint_serialize 300 = [0xAC, 0x02]" by (simp add: varint_serialize_step)
  then show ?thesis using varint_canonical [of 64 "[0xAC, 0x02, 7]" 300 "[7]"] by simp
qed

lemma short_u16_iff:
  "short_u16_deserialize seq = Ok (n, rest) \<longleftrightarrow> n \<le> u16_max \<and> seq = short_u16_serialize n @ rest"
  using varint_encode_decode [of 16 seq 0 0 n rest] varint_decode_encode [of 0 0 n 16 rest]
  by (auto simp: short_u16_varint short_u16_serialize_eq)

text \<open>
  C26: the short length prefix of message vectors is canonical. The visitor accepts exactly the
  encodings of 16-bit lengths, and the decoder that works on a slice (used before a packet is
  parsed) returns the same length together with the number of bytes of that encoding, so the two
  readers of the format can never disagree about where the vector starts.
\<close>

theorem short_u16_canonical:
  "(short_u16_deserialize seq = Ok (n, rest) \<longleftrightarrow> n \<le> u16_max \<and> seq = short_u16_serialize n @ rest)
   \<and> (decode_shortu16_len seq = Ok (n, k) \<longleftrightarrow>
        n \<le> u16_max \<and> k = length (short_u16_serialize n) \<and> take k seq = short_u16_serialize n)"
proof
  have "decode_shortu16_len seq = Ok (n, k) \<longleftrightarrow>
      (\<exists>rest. short_u16_deserialize seq = Ok (n, rest) \<and> k = length seq - length rest)"
    by (auto simp: decode_shortu16_len_def decode_loop_visit short_u16_deserialize_def split: result.splits)
  also have "\<dots> \<longleftrightarrow> n \<le> u16_max \<and> k = length (short_u16_serialize n) \<and> take k seq = short_u16_serialize n"
    by (auto simp: short_u16_iff) (metis append_take_drop_id length_append add_diff_cancel_right')
  finally show "decode_shortu16_len seq = Ok (n, k) \<longleftrightarrow>
        n \<le> u16_max \<and> k = length (short_u16_serialize n) \<and> take k seq = short_u16_serialize n" .
qed (rule short_u16_iff)

lemma read_elements_concat:
  assumes "\<And>x r. x \<in> set xs \<Longrightarrow> de (ser x @ r) = Some (x, r)"
  shows "read_elements de (length xs) (concat (map ser xs) @ rest) = Some (xs, rest)"
  using assms by (induction xs) auto

lemma short_vec_roundtrip:
  assumes "\<And>x r. x \<in> set xs \<Longrightarrow> de (ser x @ r) = Some (x, r)" and "short_vec_serialize ser xs = Some bytes"
  shows "short_vec_deserialize de (bytes @ rest) = Some (xs, rest)"
  using assms short_u16_iff [of "bytes @ rest" "length xs" "concat (map ser xs) @ rest"] read_elements_concat [of xs de ser rest]
  by (auto simp: short_vec_serialize_def short_vec_deserialize_def split: if_splits)

section \<open>Compact payloads\<close>

lemma lockouts_roundtrip:
  assumes "offsets_of_lockouts s ls = Ok os" and "\<forall>l\<in>set ls. lockout_slot l \<le> u64_max"
  shows "lockouts_of_offsets s os = Ok ls"
  using assms
  by (induction s ls arbitrary: os rule: offsets_of_lockouts.induct)
    (auto simp: result_simps arith_defs new_with_confirmation_count_def split: if_splits result.splits)

lemma offsets_roundtrip:
  assumes "lockouts_of_offsets s os = Ok ls" and "\<forall>x\<in>set os. lo_confirmation_count x \<le> u8_max"
  shows "offsets_of_lockouts s ls = Ok os"
  using assms
  by (induction s os arbitrary: ls rule: lockouts_of_offsets.induct)
    (auto simp: result_simps arith_defs new_with_confirmation_count_def split: if_splits result.splits)

lemma offsets_iff_lockouts:
  assumes "lockouts_in_range root ls" and "offsets_in_range os"
  shows "offsets_of_lockouts s ls = Ok os \<longleftrightarrow> lockouts_of_offsets s os = Ok ls"
  using assms lockouts_roundtrip offsets_roundtrip
  unfolding lockouts_in_range_def offsets_in_range_def by metis

lemma compact_vote_state_update_roundtrip:
  assumes "lockouts_in_range (vsu_root u) (vsu_lockouts u)" and "offsets_in_range (cv_lockout_offsets c)"
  shows "compact_vote_state_update_serialize u = Ok c \<longleftrightarrow> compact_vote_state_update_deserialize c = Ok u"
  using assms(1) offsets_iff_lockouts [OF assms]
  unfolding compact_vote_state_update_serialize_def compact_vote_state_update_deserialize_def lockouts_in_range_def
  by (cases u; cases c; cases "vsu_root u") (auto simp: Let_def result_simps split: if_splits)

text \<open>
  C25: the compact form in which tower syncs travel loses nothing. For a tower sync whose root is not
  the value reserved for ``no root'' and a compact message in the range of its types, the message is
  what the sync serialises to exactly when the sync is what the message deserialises to; in
  particular serialising is injective and a received message names one tower.
\<close>

theorem compact_tower_sync_roundtrip:
  assumes "lockouts_in_range (ts_root t) (ts_lockouts t)" and "offsets_in_range (ct_lockout_offsets c)"
  shows "compact_tower_sync_serialize t = Ok c \<longleftrightarrow> compact_tower_sync_deserialize c = Ok t"
  using assms(1) offsets_iff_lockouts [OF assms]
  unfolding compact_tower_sync_serialize_def compact_tower_sync_deserialize_def lockouts_in_range_def
  by (cases t; cases c; cases "ts_root t") (auto simp: Let_def result_simps split: if_splits)

theorem compact_tower_sync_roundtrip_witness: "compact_tower_sync_deserialize example_compact = Ok example_sync"
proof -
  have "compact_tower_sync_serialize example_sync = Ok example_compact"
    by (simp add: compact_tower_sync_serialize_def example_sync_def example_compact_def
        new_with_confirmation_count_def arith_defs)
  moreover have "lockouts_in_range (ts_root example_sync) (ts_lockouts example_sync)"
      "offsets_in_range (ct_lockout_offsets example_compact)"
    by (simp_all add: lockouts_in_range_def offsets_in_range_def example_sync_def example_compact_def
        new_with_confirmation_count_def)
  ultimately show ?thesis using compact_tower_sync_roundtrip [of example_sync example_compact] by simp
qed

end
