(* ===== verification/Account_Locks.thy ===== *)
theory Account_Locks
  imports Instruction_Error "HOL-Library.Multiset"
begin

text \<open>
  The account locks of the bank: \<open>AccountLocks\<close> and the validation of keys
  (\<^verbatim>\<open>accounts-db/src/account_locks.rs\<close>), the keys of a message
  (\<^verbatim>\<open>sdk/program/src/message/account_keys.rs\<close>) and the batch operations of \<open>Accounts\<close>
  (\<^verbatim>\<open>accounts-db/src/accounts.rs\<close>). The table is state that each operation returns updated;
  the mutex around it makes the operations a sequence, which \<open>lock_history\<close> describes.
  A table represents a multiset of held locks (\<open>represents\<close>); the lemmas follow that multiset
  through each operation and the properties are read off it.
\<close>

section \<open>Definitions\<close>

datatype (plugins only: code) transaction_error =
    AccountInUse
  | AccountLoadedTwice
  | AccountNotFound
  | ProgramAccountNotFound
  | InsufficientFundsForFee
  | InvalidAccountForFee
  | AlreadyProcessed
  | BlockhashNotFound
  | Instruction_Error nat instruction_error
  | CallChainTooDeep
  | MissingSignatureForFee
  | InvalidAccountIndex
  | SignatureFailure
  | InvalidProgramForExecution
  | SanitizeFailure
  | ClusterMaintenance
  | Account_Borrow_Outstanding
  | WouldExceedMaxBlockCostLimit
  | UnsupportedVersion
  | InvalidWritableAccount
  | WouldExceedMaxAccountCostLimit
  | WouldExceedAccountDataBlockLimit
  | TooManyAccountLocks
  | AddressLookupTableNotFound
  | InvalidAddressLookupTableOwner
  | InvalidAddressLookupTableData
  | InvalidAddressLookupTableIndex
  | InvalidRentPayingAccount
  | WouldExceedMaxVoteCostLimit
  | WouldExceedAccountDataTotalLimit
  | DuplicateInstruction nat
  | InsufficientFundsForRent nat
  | MaxLoadedAccountsDataSizeExceeded
  | InvalidLoadedAccountsDataSizeLimit
  | ResanitizationNeeded
  | ProgramExecutionTemporarilyRestricted nat
  | UnbalancedTransaction
  | ProgramCacheHitMaxLimit

record loaded_addresses =
  la_writable :: "pubkey list"
  la_readonly :: "pubkey list"

record account_keys =
  static_keys :: "pubkey list"
  dynamic_keys :: "loaded_addresses option"

definition key_segment_iter :: "account_keys \<Rightarrow> pubkey list list" where
  "key_segment_iter ks =
     (case dynamic_keys ks of
        Some dk \<Rightarrow> [static_keys ks, la_writable dk, la_readonly dk]
      | None \<Rightarrow> [static_keys ks, [], []])"

fun get_in_segments :: "pubkey list list \<Rightarrow> nat \<Rightarrow> pubkey option" where
  "get_in_segments [] index = None"
| "get_in_segments (seg # segs) index =
     (if index < length seg then Some (seg ! index) else get_in_segments segs (sat_sub index (length seg)))"

definition account_keys_get :: "account_keys \<Rightarrow> nat \<Rightarrow> pubkey option" where
  "account_keys_get ks index = get_in_segments (key_segment_iter ks) index"

definition account_keys_len :: "account_keys \<Rightarrow> nat" where
  "account_keys_len ks = foldl (\<lambda>len seg. sat_add_u64 len (length seg)) 0 (key_segment_iter ks)"

definition account_keys_iter :: "account_keys \<Rightarrow> pubkey list" where
  "account_keys_iter ks = concat (key_segment_iter ks)"

text \<open>What the locks need of a message: its keys and which of them it writes.\<close>

record svm_message =
  msg_account_keys :: account_keys
  msg_is_writable :: "nat \<Rightarrow> bool"

definition accounts_with_is_writable :: "svm_message \<Rightarrow> (pubkey \<times> bool) list" where
  "accounts_with_is_writable tx =
     map (\<lambda>(index, key). (key, msg_is_writable tx index)) (enumerate 0 (account_keys_iter (msg_account_keys tx)))"

record account_locks =
  write_locks :: "pubkey set"
  readonly_locks :: "pubkey \<Rightarrow> nat option"

definition account_locks_default :: account_locks where
  "account_locks_default = \<lparr>write_locks = {}, readonly_locks = (\<lambda>_. None)\<rparr>"

definition is_locked_readonly :: "account_locks \<Rightarrow> pubkey \<Rightarrow> bool" where
  "is_locked_readonly l key = (case readonly_locks l key of None \<Rightarrow> False | Some c \<Rightarrow> 0 < c)"

definition is_locked_write :: "account_locks \<Rightarrow> pubkey \<Rightarrow> bool" where
  "is_locked_write l key \<longleftrightarrow> key \<in> write_locks l"

definition can_read_lock :: "account_locks \<Rightarrow> pubkey \<Rightarrow> bool" where
  "can_read_lock l key \<longleftrightarrow> \<not> is_locked_write l key"

definition can_write_lock :: "account_locks \<Rightarrow> pubkey \<Rightarrow> bool" where
  "can_write_lock l key \<longleftrightarrow> \<not> is_locked_readonly l key \<and> \<not> is_locked_write l key"

text \<open>Counts are 64 bits wide and the arithmetic is that of a build without overflow checks.\<close>

definition lock_readonly :: "pubkey \<Rightarrow> account_locks \<Rightarrow> account_locks" where
  "lock_readonly key l =
     (let n = (case readonly_locks l key of None \<Rightarrow> 0 | Some c \<Rightarrow> c)
      in l\<lparr>readonly_locks := (readonly_locks l)(key \<mapsto> (n + 1) mod 2 ^ 64)\<rparr>)"

definition lock_write :: "pubkey \<Rightarrow> account_locks \<Rightarrow> account_locks" where
  "lock_write key l = l\<lparr>write_locks := insert key (write_locks l)\<rparr>"

definition unlock_readonly :: "pubkey \<Rightarrow> account_locks \<Rightarrow> account_locks" where
  "unlock_readonly key l =
     (case readonly_locks l key of
        Some n \<Rightarrow>
          let n = (n + 2 ^ 64 - 1) mod 2 ^ 64
          in l\<lparr>readonly_locks := (readonly_locks l)(key := if n = 0 then None else Some n)\<rparr>
      | None \<Rightarrow> l)"

definition unlock_write :: "pubkey \<Rightarrow> account_locks \<Rightarrow> account_locks" where
  "unlock_write key l = l\<lparr>write_locks := write_locks l - {key}\<rparr>"

abbreviation contained :: "pubkey set option \<Rightarrow> pubkey \<Rightarrow> bool" where
  "contained s key \<equiv> (case s of None \<Rightarrow> False | Some s \<Rightarrow> key \<in> s)"

definition try_lock_accounts ::
  "account_locks \<Rightarrow> (pubkey \<times> bool) list \<Rightarrow> pubkey set option \<Rightarrow> pubkey set option \<Rightarrow>
   (transaction_error, unit) result \<times> account_locks" where
  "try_lock_accounts l keys additional_read_locks additional_write_locks =
     (if list_ex (\<lambda>(key, writable).
           if writable then
             \<not> can_write_lock l key \<or> contained additional_read_locks key \<or> contained additional_write_locks key
           else \<not> can_read_lock l key \<or> contained additional_write_locks key) keys
      then (Err AccountInUse, l)
      else (Ok (), fold (\<lambda>(key, writable). if writable then lock_write key else lock_readonly key) keys l))"

definition unlock_keys :: "(pubkey \<times> bool) list \<Rightarrow> account_locks \<Rightarrow> account_locks" where
  "unlock_keys keys l = fold (\<lambda>(k, writable). if writable then unlock_write k else unlock_readonly k) keys l"

fun dup_by_set :: "pubkey set \<Rightarrow> pubkey list \<Rightarrow> bool" where
  "dup_by_set s [] = False"
| "dup_by_set s (key # keys) = (if key \<in> s then True else dup_by_set (insert key s) keys)"

definition USE_ACCOUNT_LOCK_SET_SIZE :: nat where "USE_ACCOUNT_LOCK_SET_SIZE = 32"

definition has_duplicates :: "account_keys \<Rightarrow> bool" where
  "has_duplicates ks =
     (if USE_ACCOUNT_LOCK_SET_SIZE \<le> account_keys_len ks then dup_by_set {} (account_keys_iter ks)
      else list_ex (\<lambda>(idx, key).
             list_ex (\<lambda>jdx. account_keys_get ks jdx = Some key) [idx + 1..<account_keys_len ks])
           (enumerate 0 (account_keys_iter ks)))"

definition validate_account_locks :: "account_keys \<Rightarrow> nat \<Rightarrow> (transaction_error, unit) result" where
  "validate_account_locks ks tx_account_lock_limit =
     (if tx_account_lock_limit < account_keys_len ks then Err TooManyAccountLocks
      else if has_duplicates ks then Err AccountLoadedTwice
      else Ok ())"

fun lock_accounts_inner ::
  "account_locks \<Rightarrow> (transaction_error, (pubkey \<times> bool) list) result list \<Rightarrow> pubkey set option \<Rightarrow> pubkey set option \<Rightarrow>
   (transaction_error, unit) result list \<times> account_locks" where
  "lock_accounts_inner l [] ar aw = ([], l)"
| "lock_accounts_inner l (r # rs) ar aw =
     (let (res, l') = (case r of
          Ok keys \<Rightarrow> try_lock_accounts l keys ar aw
        | Err err \<Rightarrow> (Err err, l)
        | Panic \<Rightarrow> (Panic, l));
          (ress, l'') = lock_accounts_inner l' rs ar aw
      in (res # ress, l''))"

definition lock_accounts ::
  "account_locks \<Rightarrow> svm_message list \<Rightarrow> nat \<Rightarrow> (transaction_error, unit) result list \<times> account_locks" where
  "lock_accounts l txs tx_account_lock_limit =
     lock_accounts_inner l
       (map (\<lambda>tx. rbind (validate_account_locks (msg_account_keys tx) tx_account_lock_limit) (\<lambda>_.
          Ok (accounts_with_is_writable tx))) txs) None None"

definition lock_accounts_with_results ::
  "account_locks \<Rightarrow> svm_message list \<Rightarrow> (transaction_error, unit) result list \<Rightarrow> nat \<Rightarrow> pubkey set option \<Rightarrow>
   pubkey set option \<Rightarrow> (transaction_error, unit) result list \<times> account_locks" where
  "lock_accounts_with_results l txs results tx_account_lock_limit ar aw =
     lock_accounts_inner l
       (map (\<lambda>(tx, result). rbind result (\<lambda>_.
          rbind (validate_account_locks (msg_account_keys tx) tx_account_lock_limit) (\<lambda>_.
          Ok (accounts_with_is_writable tx)))) (zip txs results)) ar aw"

definition unlock_accounts ::
  "account_locks \<Rightarrow> (svm_message \<times> (transaction_error, unit) result) list \<Rightarrow> account_locks" where
  "unlock_accounts l txs_and_results =
     (if \<not> list_ex (\<lambda>(_, res). is_ok res) txs_and_results then l
      else fold (\<lambda>(tx, res) l. if is_ok res then unlock_keys (accounts_with_is_writable tx) l else l)
             txs_and_results l)"

fun lock_accounts_sequential ::
  "bool \<Rightarrow> account_locks \<Rightarrow> (transaction_error, (pubkey \<times> bool) list) result list \<Rightarrow>
   (transaction_error, unit) result list \<times> account_locks" where
  "lock_accounts_sequential account_in_use_set l [] = ([], l)"
| "lock_accounts_sequential account_in_use_set l (r # rs) =
     (let (res, l', in_use) = (case r of
          Ok keys \<Rightarrow>
            if account_in_use_set then (Err AccountInUse, l, account_in_use_set)
            else
              let (locked, l') = try_lock_accounts l keys None None
              in (locked, l', account_in_use_set \<or> locked = Err AccountInUse)
        | Err err \<Rightarrow> (Err err, l, account_in_use_set)
        | Panic \<Rightarrow> (Panic, l, account_in_use_set));
          (ress, l'') = lock_accounts_sequential in_use l' rs
      in (res # ress, l''))"

definition lock_accounts_sequential_with_results ::
  "account_locks \<Rightarrow> svm_message list \<Rightarrow> nat \<Rightarrow> (transaction_error, unit) result list \<times> account_locks" where
  "lock_accounts_sequential_with_results l txs tx_account_lock_limit =
     lock_accounts_sequential False l
       (map (\<lambda>tx. rbind (validate_account_locks (msg_account_keys tx) tx_account_lock_limit) (\<lambda>_.
          Ok (accounts_with_is_writable tx))) txs)"

text \<open>
  A table represents a multiset of locks, one element for each key and mode a transaction holds.
  Transactions that hold locks together must not conflict: a key that one of them writes is not
  held by another.
\<close>

definition represents :: "account_locks \<Rightarrow> (pubkey \<times> bool) multiset \<Rightarrow> bool" where
  "represents l m \<longleftrightarrow>
     write_locks l = {k. (k, True) \<in># m}
     \<and> readonly_locks l = (\<lambda>k. if (k, False) \<in># m then Some (count m (k, False)) else None)"

definition exclusive :: "(pubkey \<times> bool) multiset \<Rightarrow> bool" where
  "exclusive m \<longleftrightarrow> (\<forall>k. (k, True) \<in># m \<longrightarrow> count m (k, True) = 1 \<and> (k, False) \<notin># m)"

definition conflict :: "(pubkey \<times> bool) list \<Rightarrow> (pubkey \<times> bool) list \<Rightarrow> bool" where
  "conflict a b \<longleftrightarrow> (\<exists>(k, w)\<in>set a. \<exists>(k', w')\<in>set b. k = k' \<and> (w \<or> w'))"

text \<open>The keys a batch may lock next to what is held and to the locks set aside for bundles.\<close>

definition lockable :: "(pubkey \<times> bool) multiset \<Rightarrow> pubkey set option \<Rightarrow> pubkey set option \<Rightarrow> pubkey \<times> bool \<Rightarrow> bool" where
  "lockable m ar aw kw \<longleftrightarrow>
     (case kw of (k, w) \<Rightarrow>
        (k, True) \<notin># m \<and> \<not> contained aw k \<and> (w \<longrightarrow> (k, False) \<notin># m \<and> \<not> contained ar k))"

text \<open>
  The tables that sequences of calls reach, with the transactions that hold locks. A transaction
  may be locked once it is validated, so that its keys are distinct; only a transaction that holds
  its locks is unlocked. The number of locks held together stays below \<open>2 ^ 64\<close>, the
  range of a length.
\<close>

inductive lock_history :: "account_locks \<Rightarrow> (pubkey \<times> bool) list list \<Rightarrow> bool" where
  history_start: "lock_history account_locks_default []"
| history_lock: "lock_history l held \<Longrightarrow> distinct (map fst keys) \<Longrightarrow>
    try_lock_accounts l keys ar aw = (Ok (), l') \<Longrightarrow> length (concat held) + length keys < u64_max \<Longrightarrow>
    lock_history l' (keys # held)"
| history_refused: "lock_history l held \<Longrightarrow> try_lock_accounts l keys ar aw = (Err e, l') \<Longrightarrow> lock_history l' held"
| history_unlock: "lock_history l held \<Longrightarrow> keys \<in> set held \<Longrightarrow> lock_history (unlock_keys keys l) (remove1 keys held)"

definition locked_keys :: "svm_message list \<Rightarrow> (transaction_error, unit) result list \<Rightarrow> (pubkey \<times> bool) list" where
  "locked_keys txs results =
     concat (map (\<lambda>(tx, res). if is_ok res then accounts_with_is_writable tx else []) (zip txs results))"

definition example_message :: "pubkey list \<Rightarrow> nat \<Rightarrow> svm_message" where
  "example_message keys writable =
     \<lparr>msg_account_keys = \<lparr>static_keys = keys, dynamic_keys = None\<rparr>, msg_is_writable = (\<lambda>i. i < writable)\<rparr>"

section \<open>Duplicate keys\<close>

lemma get_in_segments: "get_in_segments segs i = (if i < length (concat segs) then Some (concat segs ! i) else None)"
  by (induction segs i rule: get_in_segments.induct) (auto simp: nth_append)

lemma dup_by_set: "dup_by_set s keys \<longleftrightarrow> \<not> distinct keys \<or> set keys \<inter> s \<noteq> {}"
  by (induction s keys rule: dup_by_set.induct) auto

lemma account_keys_len:
  "account_keys_len ks = min (length (account_keys_iter ks)) u64_max"
  by (auto simp: account_keys_len_def account_keys_iter_def key_segment_iter_def arith_defs split: option.split)

lemma bex_enumerate: "(\<exists>x\<in>set (enumerate 0 xs). P x) \<longleftrightarrow> (\<exists>i<length xs. P (i, xs ! i))"
  by (auto simp: in_set_enumerate_eq Bex_def)

lemma has_duplicates:
  assumes "length (account_keys_iter ks) \<le> u64_max"
  shows "has_duplicates ks \<longleftrightarrow> \<not> distinct (account_keys_iter ks)"
proof (cases "USE_ACCOUNT_LOCK_SET_SIZE \<le> account_keys_len ks")
  case True
  then show ?thesis by (simp add: has_duplicates_def dup_by_set)
next
  case False
  let ?xs = "account_keys_iter ks"
  have len: "account_keys_len ks = length ?xs" using assms by (simp add: account_keys_len)
  have "has_duplicates ks \<longleftrightarrow> (\<exists>i<length ?xs. \<exists>j\<in>{i + 1..<length ?xs}. ?xs ! j = ?xs ! i)"
    using False
    by (simp add: has_duplicates_def len bex_enumerate list_ex_iff account_keys_get_def get_in_segments
        account_keys_iter_def [symmetric])
  also have "\<dots> \<longleftrightarrow> \<not> distinct ?xs"
  proof
    assume "\<exists>i<length ?xs. \<exists>j\<in>{i + 1..<length ?xs}. ?xs ! j = ?xs ! i"
    then obtain i j where "i < j" "j < length ?xs" "?xs ! j = ?xs ! i" by (auto simp: Suc_le_eq)
    then show "\<not> distinct ?xs" using nth_eq_iff_index_eq [of ?xs i j] by auto
  next
    assume "\<not> distinct ?xs"
    then obtain i j where ij: "i < length ?xs" "j < length ?xs" "i \<noteq> j" "?xs ! i = ?xs ! j"
      by (auto simp: distinct_conv_nth)
    then have "\<exists>m\<in>{min i j + 1..<length ?xs}. ?xs ! m = ?xs ! min i j"
      by (intro bexI [of _ "max i j"]) (auto simp: min_def max_def)
    then show "\<exists>i<length ?xs. \<exists>j\<in>{i + 1..<length ?xs}. ?xs ! j = ?xs ! i"
      using ij(1) by (intro exI [of _ "min i j"] conjI) simp_all
  qed
  finally show ?thesis .
qed

lemma validate_account_locks_Ok:
  assumes "validate_account_locks ks limit = Ok ()" and "limit < u64_max"
  shows "distinct (account_keys_iter ks)" and "length (account_keys_iter ks) \<le> limit"
  using assms has_duplicates [of ks] by (auto simp: validate_account_locks_def account_keys_len split: if_splits)

lemma keys_of_accounts [simp]: "map fst (accounts_with_is_writable tx) = account_keys_iter (msg_account_keys tx)"
  by (simp add: accounts_with_is_writable_def case_prod_unfold comp_def) 

section \<open>What the table represents\<close>

lemma represents_unique: "represents l m \<Longrightarrow> represents l' m \<Longrightarrow> l = l'"
  by (simp add: represents_def)

lemma represents_empty: "represents l {#} \<longleftrightarrow> l = account_locks_default"
  by (auto simp: represents_def account_locks_default_def)

lemma represents_locked:
  assumes "represents l m"
  shows "is_locked_write l k \<longleftrightarrow> (k, True) \<in># m" "is_locked_readonly l k \<longleftrightarrow> (k, False) \<in># m"
  using assms by (auto simp: represents_def is_locked_write_def is_locked_readonly_def)

lemma lock_represents:
  assumes "represents l m" and "size m < u64_max"
  shows "represents (lock_write k l) (add_mset (k, True) m)" "represents (lock_readonly k l) (add_mset (k, False) m)"
proof -
  have "count m (k, False) < u64_max" using count_le_size [of m "(k, False)"] assms(2) by linarith
  then show "represents (lock_readonly k l) (add_mset (k, False) m)"
    using assms(1) by (auto simp: represents_def lock_readonly_def Let_def fun_eq_iff not_in_iff)
  show "represents (lock_write k l) (add_mset (k, True) m)"
    using assms(1) by (auto simp: represents_def lock_write_def)
qed

lemma lock_keys_represents:
  assumes "represents l m" and "size m + length keys \<le> u64_max"
  shows "represents (fold (\<lambda>(key, writable). if writable then lock_write key else lock_readonly key) keys l) (m + mset keys)"
  using assms
proof (induction keys arbitrary: l m)
  case (Cons kw keys)
  obtain k w where kw: "kw = (k, w)" by (cases kw)
  show ?case
    using Cons.IH [OF lock_represents(1) [OF Cons.prems(1), of k]] Cons.IH [OF lock_represents(2) [OF Cons.prems(1), of k]] Cons.prems(2)
    by (cases w) (simp_all add: kw)
qed simp

lemma unlock_represents:
  assumes "represents l m" and "exclusive m" and "size m < u64_max"
  shows "(k, True) \<in># m \<Longrightarrow> represents (unlock_write k l) (m - {#(k, True)#})"
    and "(k, False) \<in># m \<Longrightarrow> represents (unlock_readonly k l) (m - {#(k, False)#})"
proof -
  assume "(k, True) \<in># m"
  then have "count m (k, True) = 1" using assms(2) by (simp add: exclusive_def)
  then show "represents (unlock_write k l) (m - {#(k, True)#})"
    using assms(1) by (auto simp: represents_def unlock_write_def fun_eq_iff in_diff_count)
next
  assume in_m: "(k, False) \<in># m"
  then obtain c where c: "count m (k, False) = Suc c" by (metis count_eq_zero_iff not0_implies_Suc)
  moreover have "count m (k, False) < u64_max" using count_le_size [of m "(k, False)"] assms(3) by linarith
  ultimately show "represents (unlock_readonly k l) (m - {#(k, False)#})"
    using assms(1) in_m
    by (auto simp: represents_def unlock_readonly_def fun_eq_iff in_diff_count Let_def)
qed

lemma exclusive_subset: "exclusive m \<Longrightarrow> m' \<subseteq># m \<Longrightarrow> exclusive m'"
proof (unfold exclusive_def, intro allI impI)
  fix k assume m: "\<forall>k. (k, True) \<in># m \<longrightarrow> count m (k, True) = 1 \<and> (k, False) \<notin># m" "m' \<subseteq># m" and k: "(k, True) \<in># m'"
  have "count m (k, True) = 1" "(k, False) \<notin># m" using m k by (auto dest: mset_subset_eqD)
  moreover have "count m' (k, True) \<le> count m (k, True)" using m(2) by (rule mset_subset_eq_count)
  moreover have "count m' (k, True) \<noteq> 0" using k by simp
  moreover have "(k, False) \<notin># m'" using m(2) calculation(2) by (blast dest: mset_subset_eqD)
  ultimately show "count m' (k, True) = 1 \<and> (k, False) \<notin># m'" by linarith
qed

lemma unlock_keys_represents:
  assumes "represents l m" and "exclusive m" and "size m < u64_max" and "mset keys \<subseteq># m"
  shows "represents (unlock_keys keys l) (m - mset keys)"
  using assms
proof (induction keys arbitrary: l m)
  case (Cons kw keys)
  obtain k w where kw: "kw = (k, w)" by (cases kw)
  let ?l = "if w then unlock_write k l else unlock_readonly k l"
  have in_m: "(k, w) \<in># m" using Cons.prems(4) by (simp add: kw insert_subset_eq_iff)
  have "represents ?l (m - {#(k, w)#})" using unlock_represents [OF Cons.prems(1-3)] in_m by (cases w) auto
  moreover have "exclusive (m - {#(k, w)#})" by (rule exclusive_subset [OF Cons.prems(2)]) simp
  moreover have "size (m - {#(k, w)#}) < u64_max" using Cons.prems(3) size_Diff_submset [of "{#(k, w)#}" m] in_m by simp
  moreover have "mset keys \<subseteq># m - {#(k, w)#}" using Cons.prems(4) by (simp add: kw insert_subset_eq_iff)
  ultimately have "represents (unlock_keys keys ?l) (m - {#(k, w)#} - mset keys)" by (rule Cons.IH)
  then show ?case by (cases w) (simp_all add: kw unlock_keys_def)
qed (simp add: unlock_keys_def)

section \<open>Taking the locks of a transaction\<close>

lemma try_lock_accounts_eq:
  assumes "represents l m"
  shows "try_lock_accounts l keys ar aw =
    (if \<forall>kw\<in>set keys. lockable m ar aw kw
     then (Ok (), fold (\<lambda>(key, writable). if writable then lock_write key else lock_readonly key) keys l)
     else (Err AccountInUse, l))"
proof -
  have "(case kw of (key, writable) \<Rightarrow>
      if writable then \<not> can_write_lock l key \<or> contained ar key \<or> contained aw key
      else \<not> can_read_lock l key \<or> contained aw key) \<longleftrightarrow> \<not> lockable m ar aw kw" for kw
    unfolding lockable_def can_write_lock_def can_read_lock_def represents_locked [OF assms]
    by (cases kw; cases "snd kw") auto
  then show ?thesis by (simp add: try_lock_accounts_def list_ex_iff)
qed

lemma exclusive_add:
  assumes "exclusive m" and "distinct (map fst keys)" and "\<forall>kw\<in>set keys. lockable m ar aw kw"
  shows "exclusive (m + mset keys)"
proof (unfold exclusive_def, intro allI impI)
  fix k assume "(k, True) \<in># m + mset keys"
  then consider (old) "(k, True) \<in># m" | (new) "(k, True) \<in> set keys" by auto
  then show "count (m + mset keys) (k, True) = 1 \<and> (k, False) \<notin># m + mset keys"
  proof cases
    case old
    then have "k \<notin> fst ` set keys" using assms(3) by (auto simp: lockable_def)
    then have "(k, w) \<notin> set keys" for w by force
    then have "count (mset keys) (k, True) = 0" "(k, False) \<notin># mset keys" by (simp_all add: count_eq_zero_iff)
    then show ?thesis using old assms(1) by (simp add: exclusive_def)
  next
    case new
    then have "(k, True) \<notin># m" "(k, False) \<notin># m" using assms(3) by (auto simp: lockable_def)
    moreover have "(k, False) \<notin> set keys" using assms(2) new eq_key_imp_eq_value by fastforce
    moreover have "distinct keys" using assms(2) by (simp add: distinct_map)
    ultimately show ?thesis using new by (simp add: not_in_iff distinct_count_atmost_1)
  qed
qed

section \<open>Histories of locking and unlocking\<close>

lemma mset_concat_subset: "x \<in> set xs \<Longrightarrow> mset x \<subseteq># mset (concat xs)"
  by (induction xs) (auto intro: subset_mset.add_increasing)

lemma mset_concat_remove1: "x \<in> set xs \<Longrightarrow> mset (concat (remove1 x xs)) = mset (concat xs) - mset x"
  by (induction xs) (auto simp: mset_concat_subset)

lemma lock_history_represents:
  assumes "lock_history l held"
  shows "represents l (mset (concat held)) \<and> exclusive (mset (concat held)) \<and> length (concat held) < u64_max"
  using assms
proof induction
  case history_start
  then show ?case by (simp add: represents_empty exclusive_def)
next
  case (history_lock l held keys ar aw l')
  have rep: "represents l (mset (concat held))" using history_lock.IH by simp
  then have ok: "\<forall>kw\<in>set keys. lockable (mset (concat held)) ar aw kw"
    and l': "l' = fold (\<lambda>(key, writable). if writable then lock_write key else lock_readonly key) keys l"
    using history_lock.hyps(3) by (auto simp: try_lock_accounts_eq split: if_splits)
  have "represents l' (mset (concat held) + mset keys)"
    unfolding l' by (rule lock_keys_represents [OF rep]) (use history_lock.hyps(4) in simp)
  moreover have "exclusive (mset (concat held) + mset keys)"
    using exclusive_add history_lock ok by blast
  ultimately show ?case using history_lock.hyps(4) by (simp add: union_commute)
next
  case (history_refused l held keys ar aw e l')
  then show ?case by (auto simp: try_lock_accounts_eq split: if_splits)
next
  case (history_unlock l held keys)
  have "represents (unlock_keys keys l) (mset (concat held) - mset keys)"
    by (rule unlock_keys_represents) (use history_unlock mset_concat_subset in auto)
  moreover have "exclusive (mset (concat held) - mset keys)"
    using exclusive_subset history_unlock by (meson diff_subset_eq_self)
  moreover have "length (concat (remove1 keys held)) \<le> length (concat held)"
    by (metis mset_concat_remove1 history_unlock.hyps(2) size_mset size_Diff_submset mset_concat_subset diff_le_self)
  ultimately show ?case using history_unlock by (simp add: mset_concat_remove1)
qed

lemma mset_pair_subset:
  assumes "i < length xs" "j < length xs" "i \<noteq> j"
  shows "mset (xs ! i) + mset (xs ! j) \<subseteq># mset (concat xs)"
  using assms
proof (induction xs arbitrary: i j)
  case (Cons x xs)
  show ?case
  proof (cases "i = 0 \<or> j = 0")
    case True
    then show ?thesis
      using Cons.prems mset_concat_subset [of "xs ! (i + j - 1)" xs]
      by (cases i; cases j) (auto simp: union_commute)
  next
    case False
    then obtain i' j' where "i = Suc i'" "j = Suc j'" by (meson not0_implies_Suc)
    then show ?thesis using Cons by (auto intro: subset_mset.add_increasing)
  qed
qed simp

lemma exclusive_no_conflict:
  assumes "exclusive m" and "mset a + mset b \<subseteq># m"
  shows "\<not> conflict a b"
proof
  assume "conflict a b"
  then obtain k w w' where a: "(k, w) \<in> set a" and b: "(k, w') \<in> set b" and ww: "w \<or> w'"
    by (auto simp: conflict_def)
  have sub: "mset a \<subseteq># m" "mset b \<subseteq># m" using assms(2) by (meson mset_subset_eq_add_left mset_subset_eq_add_right subset_mset.order_trans)+
  have "(k, w) \<in># m" "(k, w') \<in># m" using a b sub by (auto dest: mset_subset_eqD)
  then have one: "count m (k, True) = 1" "w" "w'" using assms(1) ww by (cases w; cases w'; auto simp: exclusive_def)+
  have "count (mset a + mset b) (k, True) \<le> count m (k, True)" by (rule mset_subset_eq_count [OF assms(2)])
  moreover have "count (mset a) (k, True) > 0" "count (mset b) (k, True) > 0" using a b one by simp_all
  ultimately show False using one(1) by (simp only: count_union)
qed

lemma lockable_held:
  "(\<forall>kw\<in>set keys. lockable (mset (concat held)) None None kw) \<longleftrightarrow> (\<forall>h\<in>set held. \<not> conflict keys h)"
  unfolding lockable_def conflict_def by (auto split: prod.splits) (metis (full_types))+

lemma lockable_all:
  "(\<forall>kw\<in>set keys. lockable (mset (concat held)) ar aw kw) \<longleftrightarrow>
     (\<forall>h\<in>set held. \<not> conflict keys h) \<and> (\<forall>(k, w)\<in>set keys. \<not> contained aw k \<and> (w \<longrightarrow> \<not> contained ar k))"
  unfolding lockable_held [symmetric] by (auto simp: lockable_def)

text \<open>
  C20: the table of account locks keeps transactions that run together apart. In every table that
  locking, refused locking and unlocking can reach: no two transactions that hold locks conflict
  (share a key that one of them writes); each of them still holds each of its locks in the mode it
  asked for, so that unlocking it never meets the debug assertions; the table is empty once nothing is
  held, so that no lock leaks; and a transaction is granted its locks exactly when it conflicts with none
  of the holders and with none of the locks set aside for bundles (a key set aside for writing is neither
  read nor written, one set aside for reading is not written), and is otherwise refused with
  \<open>AccountInUse\<close>, the table unchanged.
\<close>

theorem account_locks_exclusive:
  assumes "lock_history l held"
  shows "(\<forall>i<length held. \<forall>j<length held. i \<noteq> j \<longrightarrow> \<not> conflict (held ! i) (held ! j))
    \<and> (\<forall>keys\<in>set held. \<forall>(k, w)\<in>set keys. if w then is_locked_write l k else is_locked_readonly l k)
    \<and> (held = [] \<longrightarrow> l = account_locks_default)
    \<and> (\<forall>keys ar aw.
         if (\<forall>h\<in>set held. \<not> conflict keys h) \<and>
            (\<forall>(k, w)\<in>set keys. \<not> contained aw k \<and> (w \<longrightarrow> \<not> contained ar k))
         then fst (try_lock_accounts l keys ar aw) = Ok ()
         else try_lock_accounts l keys ar aw = (Err AccountInUse, l))"
proof (intro conjI)
  let ?m = "mset (concat held)"
  have rep: "represents l ?m" and ex: "exclusive ?m" using lock_history_represents [OF assms] by auto
  show "\<forall>i<length held. \<forall>j<length held. i \<noteq> j \<longrightarrow> \<not> conflict (held ! i) (held ! j)"
    using exclusive_no_conflict [OF ex] mset_pair_subset by blast
  show "\<forall>keys\<in>set held. \<forall>(k, w)\<in>set keys. if w then is_locked_write l k else is_locked_readonly l k"
    unfolding represents_locked [OF rep] by fastforce
  show "held = [] \<longrightarrow> l = account_locks_default" using rep represents_empty [of l] by auto
  show "\<forall>keys ar aw.
         if (\<forall>h\<in>set held. \<not> conflict keys h) \<and>
            (\<forall>(k, w)\<in>set keys. \<not> contained aw k \<and> (w \<longrightarrow> \<not> contained ar k))
         then fst (try_lock_accounts l keys ar aw) = Ok ()
         else try_lock_accounts l keys ar aw = (Err AccountInUse, l)"
    unfolding try_lock_accounts_eq [OF rep] lockable_all by simp
qed

text \<open>Two readers of account 1, one of which also writes account 2.\<close>

theorem account_locks_exclusive_witness:
  "\<exists>l. lock_history l [[(1, False)], [(1, False), (2, True)]]
     \<and> fst (try_lock_accounts l [(2, False)] None None) \<noteq> Ok ()
     \<and> fst (try_lock_accounts l [(1, False)] None None) = Ok ()
     \<and> fst (try_lock_accounts l [(1, False)] None (Some {1})) = Err AccountInUse"
proof -
  let ?l1 = "snd (try_lock_accounts account_locks_default [(1, False), (2, True)] None None)"
  let ?l2 = "snd (try_lock_accounts ?l1 [(1, False)] None None)"
  have "lock_history ?l1 [[(1, False), (2, True)]]"
    by (rule history_lock [OF history_start, of "[(1, False), (2, True)]" None None])
      (simp_all add: try_lock_accounts_def account_locks_default_def can_write_lock_def can_read_lock_def
        is_locked_readonly_def is_locked_write_def)
  then have h: "lock_history ?l2 [[(1, False)], [(1, False), (2, True)]]"
    by (rule history_lock [of _ _ "[(1, False)]" None None])
      (simp_all add: try_lock_accounts_def account_locks_default_def can_write_lock_def can_read_lock_def
        is_locked_readonly_def is_locked_write_def lock_write_def lock_readonly_def)
  have grant: "if (\<forall>h\<in>set [[(1, False)], [(1, False), (2, True)]]. \<not> conflict keys h) \<and>
        (\<forall>(k, w)\<in>set keys. \<not> contained aw k \<and> (w \<longrightarrow> \<not> contained ar k))
      then fst (try_lock_accounts ?l2 keys ar aw) = Ok ()
      else try_lock_accounts ?l2 keys ar aw = (Err AccountInUse, ?l2)" for keys ar aw
    using account_locks_exclusive [OF h] by blast
  have "fst (try_lock_accounts ?l2 [(2, False)] None None) \<noteq> Ok ()" "fst (try_lock_accounts ?l2 [(1, False)] None None) = Ok ()"
    "fst (try_lock_accounts ?l2 [(1, False)] None (Some {1})) = Err AccountInUse"
    using grant [of "[(2, False)]" None None] grant [of "[(1, False)]" None None] grant [of "[(1, False)]" "Some {1}" None]
    by (simp_all add: conflict_def)
  then show ?thesis using h by blast
qed

section \<open>Batches\<close>

lemma lock_accounts_inner_represents:
  assumes "lock_accounts_inner l rs ar aw = (results, l')" and "represents l m" and "exclusive m"
    and "list_all2 (\<lambda>tx r. \<forall>keys. r = Ok keys \<longrightarrow> keys = accounts_with_is_writable tx \<and> distinct (map fst keys)) txs rs"
    and "size m + length (concat (map accounts_with_is_writable txs)) < u64_max"
  shows "represents l' (m + mset (locked_keys txs results)) \<and> exclusive (m + mset (locked_keys txs results))
    \<and> length results = length txs"
  using assms
proof (induction l rs ar aw arbitrary: results l' m txs rule: lock_accounts_inner.induct)
  case (2 l r rs ar aw)
  obtain tx txs' where txs: "txs = tx # txs'" using "2.prems"(4) by (cases txs) auto
  obtain res l1 where head: "(case r of Ok keys \<Rightarrow> try_lock_accounts l keys ar aw
        | Err err \<Rightarrow> (Err err, l) | Panic \<Rightarrow> (Panic, l)) = (res, l1)" by fastforce
  obtain ress where results: "results = res # ress" and rest: "lock_accounts_inner l1 rs ar aw = (ress, l')"
    using "2.prems"(1) head by (auto split: prod.splits)
  let ?k = "if is_ok res then accounts_with_is_writable tx else []"
  have "represents l1 (m + mset ?k) \<and> exclusive (m + mset ?k)"
  proof (cases "is_ok res")
    case True
    then obtain keys where r: "r = Ok keys" using head by (cases r) (auto simp: is_ok_def)
    have keys: "keys = accounts_with_is_writable tx" "distinct (map fst keys)" using "2.prems"(4) r txs by auto
    have ok: "\<forall>kw\<in>set keys. lockable m ar aw kw"
      and l1: "l1 = fold (\<lambda>(key, writable). if writable then lock_write key else lock_readonly key) keys l"
      using head True by (auto simp: r try_lock_accounts_eq [OF "2.prems"(2)] is_ok_def split: if_splits)
    show ?thesis
      using lock_keys_represents [OF "2.prems"(2), of keys] exclusive_add [OF "2.prems"(3) keys(2) ok] "2.prems"(5) True
      by (simp add: l1 keys(1) [symmetric] txs)
  next
    case False
    then have "l1 = l"
      using head by (cases r) (auto simp: try_lock_accounts_eq [OF "2.prems"(2)] is_ok_def split: if_splits)
    then show ?thesis using False "2.prems"(2,3) by simp
  qed
  moreover have "size (m + mset ?k) + length (concat (map accounts_with_is_writable txs')) < u64_max"
    using "2.prems"(5) by (simp add: txs)
  ultimately have "represents l' (m + mset ?k + mset (locked_keys txs' ress))
      \<and> exclusive (m + mset ?k + mset (locked_keys txs' ress)) \<and> length ress = length txs'"
    using "2.IH" [OF head [symmetric] refl rest] "2.prems"(4) txs by auto
  then show ?case by (auto simp: results txs locked_keys_def ac_simps)
qed (auto simp: locked_keys_def)

lemma unlock_accounts_represents:
  assumes "represents l m" and "exclusive m" and "size m < u64_max" and "mset (locked_keys txs results) \<subseteq># m"
  shows "represents (fold (\<lambda>(tx, res) l. if is_ok res then unlock_keys (accounts_with_is_writable tx) l else l) (zip txs results) l)
     (m - mset (locked_keys txs results))"
  using assms
proof (induction txs results arbitrary: l m rule: list_induct2')
  case (4 tx txs res results)
  show ?case
  proof (cases "is_ok res")
    case True
    let ?k = "mset (accounts_with_is_writable tx)"
    have sub: "?k + mset (locked_keys txs results) \<subseteq># m" using "4.prems"(4) True by (simp add: locked_keys_def)
    then have k: "?k \<subseteq># m" by (meson mset_subset_eq_add_left subset_mset.order_trans)
    have "represents (unlock_keys (accounts_with_is_writable tx) l) (m - ?k)"
      by (rule unlock_keys_represents [OF "4.prems"(1-3) k])
    moreover have "exclusive (m - ?k)" by (rule exclusive_subset [OF "4.prems"(2)]) simp
    moreover have "size (m - ?k) < u64_max" using "4.prems"(3) size_Diff_submset [OF k] by simp
    moreover have "mset (locked_keys txs results) \<subseteq># m - ?k" using sub by (simp add: subset_mset.le_diff_conv2 [OF k] union_commute)
    ultimately have "represents (fold (\<lambda>(tx, res) l. if is_ok res then unlock_keys (accounts_with_is_writable tx) l else l)
        (zip txs results) (unlock_keys (accounts_with_is_writable tx) l)) (m - ?k - mset (locked_keys txs results))"
      by (rule "4.IH")
    moreover have "m - mset (locked_keys (tx # txs) (res # results)) = m - ?k - mset (locked_keys txs results)"
      using True by (simp add: locked_keys_def)
    ultimately show ?thesis using True by simp
  next
    case False
    then show ?thesis using 4 by (simp add: locked_keys_def)
  qed
qed (auto simp: locked_keys_def)

lemma unlock_accounts_fold:
  "unlock_accounts l trs = fold (\<lambda>(tx, res) l. if is_ok res then unlock_keys (accounts_with_is_writable tx) l else l) trs l"
proof (cases "list_ex (\<lambda>(_, res). is_ok res) trs")
  case False
  then have "fold (\<lambda>(tx, res) l. if is_ok res then unlock_keys (accounts_with_is_writable tx) l else l) trs l = l"
    by (induction trs) auto
  with False show ?thesis by (simp add: unlock_accounts_def)
qed (simp add: unlock_accounts_def)

text \<open>
  C28: unlocking a batch undoes locking it. Whatever table the batch meets, whichever of its
  transactions were refused or failed validation, releasing the batch with the results that
  locking returned gives back the very table it started from, and one result is returned for each
  transaction.
\<close>

theorem lock_accounts_roundtrip:
  assumes "lock_history l held" and "limit < u64_max"
    and "length (concat held) + length (concat (map accounts_with_is_writable txs)) < u64_max"
    and "lock_accounts l txs limit = (results, l')"
  shows "unlock_accounts l' (zip txs results) = l \<and> length results = length txs"
proof -
  let ?m = "mset (concat held)"
  have rep: "represents l ?m" and ex: "exclusive ?m" using lock_history_represents [OF assms(1)] by auto
  let ?rs = "map (\<lambda>tx. rbind (validate_account_locks (msg_account_keys tx) limit) (\<lambda>_. Ok (accounts_with_is_writable tx))) txs"
  have "list_all2 (\<lambda>tx r. \<forall>keys. r = Ok keys \<longrightarrow> keys = accounts_with_is_writable tx \<and> distinct (map fst keys)) txs ?rs"
    using validate_account_locks_Ok(1) [OF _ assms(2)] by (auto simp: list_all2_conv_all_nth result_simps)
  then have after: "represents l' (?m + mset (locked_keys txs results))" "exclusive (?m + mset (locked_keys txs results))"
      and len: "length results = length txs"
    using lock_accounts_inner_represents [OF assms(4) [unfolded lock_accounts_def] rep ex] assms(3) by auto
  have "length (concat (map (\<lambda>(tx, res). if is_ok res then accounts_with_is_writable tx else []) (zip txs results)))
      \<le> length (concat (map accounts_with_is_writable txs))"
    using len by (induction txs results rule: list_induct2') (auto simp: trans_le_add2)
  then have small: "size (?m + mset (locked_keys txs results)) < u64_max" using assms(3) by (simp add: locked_keys_def)
  have "represents (unlock_accounts l' (zip txs results)) ?m"
    using unlock_accounts_represents [OF after small, of txs results] by (simp add: unlock_accounts_fold)
  then show ?thesis using represents_unique rep len by blast
qed

lemmas lock_eval = lock_accounts_def validate_account_locks_def has_duplicates_def account_keys_len_def account_keys_get_def
  account_keys_iter_def key_segment_iter_def accounts_with_is_writable_def example_message_def arith_defs
  USE_ACCOUNT_LOCK_SET_SIZE_def try_lock_accounts_def account_locks_default_def can_write_lock_def can_read_lock_def
  is_locked_readonly_def is_locked_write_def lock_write_def lock_readonly_def

theorem lock_accounts_roundtrip_witness:
  "\<exists>l'. lock_accounts account_locks_default [example_message [1, 2] 1, example_message [3, 1] 0, example_message [4, 4] 0] 64
        = ([Ok (), Err AccountInUse, Err AccountLoadedTwice], l')
     \<and> unlock_accounts l' (zip [example_message [1, 2] 1, example_message [3, 1] 0, example_message [4, 4] 0]
          [Ok (), Err AccountInUse, Err AccountLoadedTwice]) = account_locks_default"
proof -
  let ?txs = "[example_message [1, 2] 1, example_message [3, 1] 0, example_message [4, 4] 0]"
  let ?l = "snd (lock_accounts account_locks_default ?txs 64)"
  have run: "lock_accounts account_locks_default ?txs 64 = ([Ok (), Err AccountInUse, Err AccountLoadedTwice], ?l)"
    by (simp add: lock_eval upt_rec)
  have "length (concat []) + length (concat (map accounts_with_is_writable ?txs)) < u64_max"
    by (simp add: lock_eval)
  then have "unlock_accounts ?l (zip ?txs [Ok (), Err AccountInUse, Err AccountLoadedTwice]) = account_locks_default"
    using lock_accounts_roundtrip [OF history_start _ _ run] by simp
  with run show ?thesis by blast
qed

text \<open>In sequential locking nothing is locked after the first transaction that had to wait.\<close>

lemma lock_accounts_sequential_stopped:
  "lock_accounts_sequential True l rs = (results, l') \<Longrightarrow> l' = l \<and> Ok () \<notin> set results"
  by (induction rs arbitrary: results) (auto split: prod.splits result.splits)

end
