(* ===== verification/Transaction_Container.thy ===== *)
theory Transaction_Container
  imports Account_Locks
begin

text \<open>
  The transactions a scheduler holds: \<open>TransactionState\<close> and its transitions
  (\<^verbatim>\<open>transaction_state.rs\<close>), priorities and id generators (\<^verbatim>\<open>transaction_priority_id.rs\<close>,
  \<^verbatim>\<open>transaction_id_generator.rs\<close>, \<^verbatim>\<open>batch_id_generator.rs\<close>) and \<open>TransactionStateContainer\<close>
  (\<^verbatim>\<open>transaction_state_container.rs\<close>), all under \<^verbatim>\<open>core/src/banking_stage/transaction_scheduler\<close>.
  The double-ended priority queue belongs to a library: its operations are the parameter \<open>hp\<close>, and
  \<open>heap_laws\<close> states what it promises over the multiset of its elements. The lemmas show how each
  operation moves an id between the queue, the popped entries and the pending ids while
  \<open>container_inv\<close> holds.
\<close>

section \<open>Transaction states\<close>

type_synonym transaction_id = nat

datatype scheduler_error = DisconnectedSendChannel string | DisconnectedRecvChannel string

record max_age =
  sanitized_epoch :: nat
  alt_invalidation_slot :: nat

record sanitized_transaction_ttl =
  ttl_transaction :: svm_message
  ttl_max_age :: max_age

text \<open>The flags of the packet a transaction came in, as far as the scheduler reads them.\<close>

record packet_meta =
  meta_forwarded :: bool
  meta_from_staked_node :: bool

datatype transaction_state =
    Unprocessed sanitized_transaction_ttl packet_meta nat nat bool
  | Pending packet_meta nat nat bool
  | Transitioning

definition transaction_state_new ::
  "sanitized_transaction_ttl \<Rightarrow> packet_meta \<Rightarrow> nat \<Rightarrow> nat \<Rightarrow> transaction_state" where
  "transaction_state_new ttl packet priority cost =
     Unprocessed ttl packet priority cost (\<not> meta_forwarded packet \<and> meta_from_staked_node packet)"

fun state_priority :: "transaction_state \<Rightarrow> (scheduler_error, nat) result" where
  "state_priority (Unprocessed ttl packet priority cost fwd) = Ok priority"
| "state_priority (Pending packet priority cost fwd) = Ok priority"
| "state_priority Transitioning = Panic"

fun state_cost :: "transaction_state \<Rightarrow> (scheduler_error, nat) result" where
  "state_cost (Unprocessed ttl packet priority cost fwd) = Ok cost"
| "state_cost (Pending packet priority cost fwd) = Ok cost"
| "state_cost Transitioning = Panic"

fun should_forward :: "transaction_state \<Rightarrow> (scheduler_error, bool) result" where
  "should_forward (Unprocessed ttl packet priority cost fwd) = Ok fwd"
| "should_forward (Pending packet priority cost fwd) = Ok fwd"
| "should_forward Transitioning = Panic"

fun mark_forwarded :: "transaction_state \<Rightarrow> (scheduler_error, transaction_state) result" where
  "mark_forwarded (Unprocessed ttl packet priority cost fwd) = Ok (Unprocessed ttl packet priority cost False)"
| "mark_forwarded (Pending packet priority cost fwd) = Ok (Pending packet priority cost False)"
| "mark_forwarded Transitioning = Panic"

fun state_packet :: "transaction_state \<Rightarrow> (scheduler_error, packet_meta) result" where
  "state_packet (Unprocessed ttl packet priority cost fwd) = Ok packet"
| "state_packet (Pending packet priority cost fwd) = Ok packet"
| "state_packet Transitioning = Panic"

fun transition_to_pending ::
  "transaction_state \<Rightarrow> (scheduler_error, sanitized_transaction_ttl \<times> transaction_state) result" where
  "transition_to_pending (Unprocessed ttl packet priority cost fwd) = Ok (ttl, Pending packet priority cost fwd)"
| "transition_to_pending (Pending packet priority cost fwd) = Panic"
| "transition_to_pending Transitioning = Panic"

fun transition_to_unprocessed ::
  "sanitized_transaction_ttl \<Rightarrow> transaction_state \<Rightarrow> (scheduler_error, transaction_state) result" where
  "transition_to_unprocessed ttl (Unprocessed ttl' packet priority cost fwd) = Panic"
| "transition_to_unprocessed ttl (Pending packet priority cost fwd) = Ok (Unprocessed ttl packet priority cost fwd)"
| "transition_to_unprocessed ttl Transitioning = Panic"

fun transaction_ttl :: "transaction_state \<Rightarrow> (scheduler_error, sanitized_transaction_ttl) result" where
  "transaction_ttl (Unprocessed ttl packet priority cost fwd) = Ok ttl"
| "transaction_ttl (Pending packet priority cost fwd) = Panic"
| "transaction_ttl Transitioning = Panic"

section \<open>Priorities\<close>

datatype transaction_priority_id = Transaction_Priority_Id (pid_priority: nat) (pid_id: transaction_id)

instantiation transaction_priority_id :: linorder
begin

definition less_eq_transaction_priority_id :: "transaction_priority_id \<Rightarrow> transaction_priority_id \<Rightarrow> bool" where
  "a \<le> b \<longleftrightarrow> pid_priority a < pid_priority b \<or> pid_priority a = pid_priority b \<and> pid_id a \<le> pid_id b"

definition less_transaction_priority_id :: "transaction_priority_id \<Rightarrow> transaction_priority_id \<Rightarrow> bool" where
  "a < b \<longleftrightarrow> pid_priority a < pid_priority b \<or> pid_priority a = pid_priority b \<and> pid_id a < pid_id b"

instance
  by standard
    (auto simp: less_eq_transaction_priority_id_def less_transaction_priority_id_def transaction_priority_id.expand)

end

definition transaction_id_default :: nat where "transaction_id_default = u64_max"

text \<open>The reverse-sequential generators: the id and the next state, which wraps at zero.\<close>

definition id_generator_next :: "nat \<Rightarrow> nat \<times> nat" where
  "id_generator_next next_id = (next_id, (next_id + 2 ^ 64 - 1) mod 2 ^ 64)"

section \<open>The container\<close>

text \<open>The operations of the priority queue, which a library provides.\<close>

record 'q heap_ops =
  hp_with_capacity :: "nat \<Rightarrow> 'q"
  hp_is_empty :: "'q \<Rightarrow> bool"
  hp_len :: "'q \<Rightarrow> nat"
  hp_capacity :: "'q \<Rightarrow> nat"
  hp_pop_max :: "'q \<Rightarrow> transaction_priority_id option \<times> 'q"
  hp_push :: "transaction_priority_id \<Rightarrow> 'q \<Rightarrow> 'q"
  hp_push_pop_min :: "transaction_priority_id \<Rightarrow> 'q \<Rightarrow> transaction_priority_id \<times> 'q"
  hp_peek_min :: "'q \<Rightarrow> transaction_priority_id option"
  hp_peek_max :: "'q \<Rightarrow> transaction_priority_id option"

record 'q container =
  priority_queue :: 'q
  id_to_transaction_state :: "transaction_id \<Rightarrow> transaction_state option"

definition container_with_capacity :: "'q heap_ops \<Rightarrow> nat \<Rightarrow> 'q container" where
  "container_with_capacity hp capacity =
     \<lparr>priority_queue = hp_with_capacity hp capacity, id_to_transaction_state = (\<lambda>_. None)\<rparr>"

definition container_is_empty :: "'q heap_ops \<Rightarrow> 'q container \<Rightarrow> bool" where
  "container_is_empty hp c = hp_is_empty hp (priority_queue c)"

definition remaining_queue_capacity :: "'q heap_ops \<Rightarrow> 'q container \<Rightarrow> nat" where
  "remaining_queue_capacity hp c = hp_capacity hp (priority_queue c) - hp_len hp (priority_queue c)"

definition container_pop :: "'q heap_ops \<Rightarrow> 'q container \<Rightarrow> transaction_priority_id option \<times> 'q container" where
  "container_pop hp c =
     (let (r, q) = hp_pop_max hp (priority_queue c) in (r, c\<lparr>priority_queue := q\<rparr>))"

definition get_transaction_ttl ::
  "'q container \<Rightarrow> transaction_id \<Rightarrow> (scheduler_error, sanitized_transaction_ttl option) result" where
  "get_transaction_ttl c i =
     (case id_to_transaction_state c i of
        None \<Rightarrow> Ok None
      | Some state \<Rightarrow> rbind (transaction_ttl state) (\<lambda>ttl. Ok (Some ttl)))"

definition remove_by_id :: "transaction_id \<Rightarrow> 'q container \<Rightarrow> (scheduler_error, 'q container) result" where
  "remove_by_id i c =
     (case id_to_transaction_state c i of
        None \<Rightarrow> Panic
      | Some _ \<Rightarrow> Ok (c\<lparr>id_to_transaction_state := (id_to_transaction_state c)(i := None)\<rparr>))"

definition push_id_into_queue ::
  "'q heap_ops \<Rightarrow> transaction_priority_id \<Rightarrow> 'q container \<Rightarrow> (scheduler_error, bool \<times> 'q container) result" where
  "push_id_into_queue hp priority_id c =
     (if remaining_queue_capacity hp c = 0 then
        let (popped_id, q) = hp_push_pop_min hp priority_id (priority_queue c)
        in rbind (remove_by_id (pid_id popped_id) (c\<lparr>priority_queue := q\<rparr>)) (\<lambda>c. Ok (True, c))
      else Ok (False, c\<lparr>priority_queue := hp_push hp priority_id (priority_queue c)\<rparr>))"

definition insert_new_transaction ::
  "'q heap_ops \<Rightarrow> transaction_id \<Rightarrow> sanitized_transaction_ttl \<Rightarrow> packet_meta \<Rightarrow> nat \<Rightarrow> nat \<Rightarrow> 'q container \<Rightarrow>
   (scheduler_error, bool \<times> 'q container) result" where
  "insert_new_transaction hp transaction_id ttl packet priority cost c =
     (let priority_id = Transaction_Priority_Id priority transaction_id;
          c = c\<lparr>id_to_transaction_state := (id_to_transaction_state c)(transaction_id \<mapsto>
                transaction_state_new ttl packet priority cost)\<rparr>
      in push_id_into_queue hp priority_id c)"

definition retry_transaction ::
  "'q heap_ops \<Rightarrow> transaction_id \<Rightarrow> sanitized_transaction_ttl \<Rightarrow> 'q container \<Rightarrow> (scheduler_error, 'q container) result" where
  "retry_transaction hp transaction_id ttl c =
     (case id_to_transaction_state c transaction_id of
        None \<Rightarrow> Panic
      | Some state \<Rightarrow>
          rbind (state_priority state) (\<lambda>priority.
          let priority_id = Transaction_Priority_Id priority transaction_id in
          rbind (transition_to_unprocessed ttl state) (\<lambda>state.
          rbind (push_id_into_queue hp priority_id
            (c\<lparr>id_to_transaction_state := (id_to_transaction_state c)(transaction_id \<mapsto> state)\<rparr>)) (\<lambda>(_, c).
          Ok c))))"

datatype min_max_result = NoElements | OneElement nat | MinMax nat nat

definition get_min_max_priority :: "'q heap_ops \<Rightarrow> 'q container \<Rightarrow> min_max_result" where
  "get_min_max_priority hp c =
     (case hp_peek_min hp (priority_queue c) of
        Some mn \<Rightarrow>
          (case hp_peek_max hp (priority_queue c) of
             Some mx \<Rightarrow> MinMax (pid_priority mn) (pid_priority mx)
           | None \<Rightarrow> OneElement (pid_priority mn))
      | None \<Rightarrow> NoElements)"

section \<open>Laws of the queue and the invariant of a container\<close>

text \<open>
  What the double-ended priority queue promises, over the multiset of its elements: the extremal
  elements, and a capacity that changes only when more elements are pushed than it has room for.
\<close>

definition heap_laws :: "'q heap_ops \<Rightarrow> ('q \<Rightarrow> transaction_priority_id multiset) \<Rightarrow> bool" where
  "heap_laws hp items \<longleftrightarrow>
     (\<forall>k. items (hp_with_capacity hp k) = {#} \<and> k \<le> hp_capacity hp (hp_with_capacity hp k))
     \<and> (\<forall>q. hp_is_empty hp q \<longleftrightarrow> items q = {#}) \<and> (\<forall>q. hp_len hp q = size (items q))
     \<and> (\<forall>q. size (items q) \<le> hp_capacity hp q)
     \<and> (\<forall>q q'. hp_pop_max hp q = (None, q') \<longrightarrow> items q = {#} \<and> q' = q)
     \<and> (\<forall>q x q'. hp_pop_max hp q = (Some x, q') \<longrightarrow>
           items q = add_mset x (items q') \<and> (\<forall>y\<in>#items q. y \<le> x) \<and> hp_capacity hp q' = hp_capacity hp q)
     \<and> (\<forall>q x. size (items q) < hp_capacity hp q \<longrightarrow>
           items (hp_push hp x q) = add_mset x (items q) \<and> hp_capacity hp (hp_push hp x q) = hp_capacity hp q)
     \<and> (\<forall>q x y q'. hp_push_pop_min hp x q = (y, q') \<longrightarrow>
           add_mset y (items q') = add_mset x (items q) \<and> (\<forall>z\<in>#items q'. y \<le> z) \<and> hp_capacity hp q' = hp_capacity hp q)"

text \<open>
  A transaction that may be scheduled names each account once and no more than 256 of them. The
  ids in the map are, each exactly once: those in the queue, those of the popped entries \<open>U\<close> that
  are still unprocessed, and the pending ids \<open>P\<close>. There are fewer than \<open>2 ^ 24\<close> of them.
\<close>

definition good_tx :: "svm_message \<Rightarrow> bool" where
  "good_tx tx \<longleftrightarrow> distinct (account_keys_iter (msg_account_keys tx)) \<and> length (account_keys_iter (msg_account_keys tx)) \<le> 256"

fun is_idle :: "transaction_state option \<Rightarrow> bool" where
  "is_idle (Some (Unprocessed ttl packet priority cost fwd)) = good_tx (ttl_transaction ttl)"
| "is_idle _ = False"

fun is_pending :: "transaction_state option \<Rightarrow> bool" where
  "is_pending (Some (Pending packet priority cost fwd)) = True"
| "is_pending _ = False"

definition container_inv ::
  "('q \<Rightarrow> transaction_priority_id multiset) \<Rightarrow> 'q container \<Rightarrow> transaction_priority_id multiset \<Rightarrow>
   transaction_id multiset \<Rightarrow> bool" where
  "container_inv items c U P \<longleftrightarrow>
     (\<forall>i. count (image_mset pid_id (items (priority_queue c) + U) + P) i =
        (if id_to_transaction_state c i = None then 0 else 1))
     \<and> (\<forall>p\<in>#items (priority_queue c) + U. is_idle (id_to_transaction_state c (pid_id p)))
     \<and> (\<forall>i\<in>#P. is_pending (id_to_transaction_state c i))
     \<and> size (items (priority_queue c)) + size U + size P < 2 ^ 24"

section \<open>The queue\<close>

lemma heap_lawsD:
  assumes "heap_laws hp items"
  shows "hp_is_empty hp q \<longleftrightarrow> items q = {#}" and "hp_len hp q = size (items q)" and "size (items q) \<le> hp_capacity hp q"
    and "items (hp_with_capacity hp k) = {#}"
    and "size (items q) < hp_capacity hp q \<Longrightarrow> items (hp_push hp x q) = add_mset x (items q)"
    and "hp_push_pop_min hp x q = (y, q') \<Longrightarrow> add_mset y (items q') = add_mset x (items q)"
    and "hp_push_pop_min hp x q = (y, q') \<Longrightarrow> z \<in># items q' \<Longrightarrow> y \<le> z"
    and "hp_pop_max hp q = (Some x, q') \<Longrightarrow> items q = add_mset x (items q')"
    and "hp_pop_max hp q = (Some x, q') \<Longrightarrow> y \<in># items q \<Longrightarrow> y \<le> x"
    and "hp_pop_max hp q = (None, q') \<Longrightarrow> items q = {#}"
  using assms unfolding heap_laws_def by blast+

section \<open>The ids of a container\<close>

lemma container_inv_idle: "container_inv items c U P \<Longrightarrow> p \<in># items (priority_queue c) + U \<Longrightarrow> is_idle (id_to_transaction_state c (pid_id p))"
  and container_inv_pending: "container_inv items c U P \<Longrightarrow> i \<in># P \<Longrightarrow> is_pending (id_to_transaction_state c i)"
  unfolding container_inv_def by blast+

lemma is_idle_iff: "is_idle s \<longleftrightarrow> (\<exists>ttl packet priority cost fwd. s = Some (Unprocessed ttl packet priority cost fwd) \<and> good_tx (ttl_transaction ttl))"
  by (cases s rule: is_idle.cases) auto

lemma is_pending_iff: "is_pending s \<longleftrightarrow> (\<exists>packet priority cost fwd. s = Some (Pending packet priority cost fwd))"
  by (cases s rule: is_pending.cases) auto

text \<open>The effect of changing the state of one id and the place it is accounted for.\<close>

lemma container_inv_update:
  assumes inv: "container_inv items c U P"
    and ids: "\<And>j. j \<noteq> i \<Longrightarrow> count (image_mset pid_id (items q + U') + P') j = count (image_mset pid_id (items (priority_queue c) + U) + P) j"
    and at: "count (image_mset pid_id (items q + U') + P') i = (if s = None then 0 else 1)"
    and idle: "\<And>p. p \<in># items q + U' \<Longrightarrow> pid_id p \<noteq> i \<Longrightarrow> p \<in># items (priority_queue c) + U"
    and pending: "\<And>j. j \<in># P' \<Longrightarrow> j \<noteq> i \<Longrightarrow> j \<in># P"
    and idle_i: "i \<in># image_mset pid_id (items q + U') \<Longrightarrow> is_idle s" and pending_i: "i \<in># P' \<Longrightarrow> is_pending s"
    and size: "size (items q) + size U' + size P' < 2 ^ 24"
  shows "container_inv items (c\<lparr>priority_queue := q, id_to_transaction_state := (id_to_transaction_state c)(i := s)\<rparr>) U' P'"
  unfolding container_inv_def
proof (intro conjI allI ballI)
  fix j
  show "count (image_mset pid_id (items (priority_queue (c\<lparr>priority_queue := q, id_to_transaction_state := (id_to_transaction_state c)(i := s)\<rparr>)) + U') + P') j =
      (if id_to_transaction_state (c\<lparr>priority_queue := q, id_to_transaction_state := (id_to_transaction_state c)(i := s)\<rparr>) j = None then 0 else 1)"
    using inv ids [of j] at unfolding container_inv_def by (cases "j = i") simp_all
next
  fix p assume "p \<in># items (priority_queue (c\<lparr>priority_queue := q, id_to_transaction_state := (id_to_transaction_state c)(i := s)\<rparr>)) + U'"
  then have p: "p \<in># items q + U'" by simp
  then show "is_idle (id_to_transaction_state (c\<lparr>priority_queue := q, id_to_transaction_state := (id_to_transaction_state c)(i := s)\<rparr>) (pid_id p))"
    using idle_i idle [OF p] container_inv_idle [OF inv] by (cases "pid_id p = i") auto
next
  fix j assume "j \<in># P'"
  then show "is_pending (id_to_transaction_state (c\<lparr>priority_queue := q, id_to_transaction_state := (id_to_transaction_state c)(i := s)\<rparr>) j)"
    using pending_i pending [of j] container_inv_pending [OF inv] by (cases "j = i") auto
qed (use size in simp)

lemma container_inv_count:
  assumes "container_inv items c U P"
  shows "count (image_mset pid_id (items (priority_queue c) + U) + P) i \<le> 1"
    and "i \<in># image_mset pid_id (items (priority_queue c) + U) + P \<longleftrightarrow> id_to_transaction_state c i \<noteq> None"
proof -
  have c: "count (image_mset pid_id (items (priority_queue c) + U) + P) i = (if id_to_transaction_state c i = None then 0 else 1)"
    using assms by (auto simp: container_inv_def)
  then show "count (image_mset pid_id (items (priority_queue c) + U) + P) i \<le> 1" by simp
  show "i \<in># image_mset pid_id (items (priority_queue c) + U) + P \<longleftrightarrow> id_to_transaction_state c i \<noteq> None"
    using c by (metis count_eq_zero_iff zero_neq_one)
qed

section \<open>Operations of the container\<close>

lemma container_inv_requeue:
  assumes "container_inv items c U P" and "items q + U' = items (priority_queue c) + U"
  shows "container_inv items (c\<lparr>priority_queue := q\<rparr>) U' P"
proof -
  have "size (items q) + size U' = size (items (priority_queue c)) + size U"
    using arg_cong [OF assms(2), of size] by simp
  then show ?thesis using assms unfolding container_inv_def by simp
qed

lemma container_pop_inv:
  assumes laws: "heap_laws hp items" and "container_inv items c U P" and "\<not> container_is_empty hp c"
  shows "\<exists>p c'. container_pop hp c = (Some p, c') \<and> container_inv items c' (add_mset p U) P
    \<and> id_to_transaction_state c' = id_to_transaction_state c
    \<and> items (priority_queue c) = add_mset p (items (priority_queue c')) \<and> (\<forall>p'\<in>#items (priority_queue c). p' \<le> p)"
proof -
  obtain r q where pop: "hp_pop_max hp (priority_queue c) = (r, q)" by fastforce
  have ne: "items (priority_queue c) \<noteq> {#}"
    using assms(3) heap_lawsD(1) [OF laws] by (simp add: container_is_empty_def)
  then obtain p where r: "r = Some p" using heap_lawsD(10) [OF laws] pop by (cases r) auto
  have "items (priority_queue c) = add_mset p (items q)" using heap_lawsD(8) [OF laws] pop r by simp
  then have "container_inv items (c\<lparr>priority_queue := q\<rparr>) (add_mset p U) P"
    by (intro container_inv_requeue [OF assms(2)]) simp
  then show ?thesis
    using pop r heap_lawsD(8,9) [OF laws] by (auto simp: container_pop_def)
qed

lemma remove_idle_inv:
  assumes inv: "container_inv items c (add_mset p U) P"
  shows "\<exists>c'. remove_by_id (pid_id p) c = Ok c' \<and> container_inv items c' U P \<and> priority_queue c' = priority_queue c"
proof -
  let ?i = "pid_id p"
  have one: "count (image_mset pid_id (items (priority_queue c) + U) + P) ?i = 0"
    using container_inv_count(1) [OF inv, of ?i] by simp
  then have none: "?i \<notin># image_mset pid_id (items (priority_queue c) + U)" "?i \<notin># P" by (auto simp: count_eq_zero_iff)
  have "container_inv items (c\<lparr>priority_queue := priority_queue c, id_to_transaction_state := (id_to_transaction_state c)(?i := None)\<rparr>) U P"
    by (rule container_inv_update [OF inv]) (use one none inv in \<open>auto simp: container_inv_def\<close>)
  moreover have "id_to_transaction_state c ?i \<noteq> None" using container_inv_count(2) [OF inv, of ?i] by simp
  ultimately show ?thesis by (auto simp: remove_by_id_def)
qed

lemma remove_pending_inv:
  assumes inv: "container_inv items c U (add_mset i P)"
  shows "\<exists>c'. remove_by_id i c = Ok c' \<and> container_inv items c' U P \<and> priority_queue c' = priority_queue c"
proof -
  have one: "count (image_mset pid_id (items (priority_queue c) + U) + P) i = 0"
    using container_inv_count(1) [OF inv, of i] by simp
  then have none: "i \<notin># image_mset pid_id (items (priority_queue c) + U)" "i \<notin># P" by (auto simp: count_eq_zero_iff)
  have "container_inv items (c\<lparr>priority_queue := priority_queue c, id_to_transaction_state := (id_to_transaction_state c)(i := None)\<rparr>) U P"
    by (rule container_inv_update [OF inv]) (use one none inv in \<open>auto simp: container_inv_def\<close>)
  moreover have "id_to_transaction_state c i \<noteq> None" using container_inv_count(2) [OF inv, of i] by simp
  ultimately show ?thesis by (auto simp: remove_by_id_def)
qed

lemma push_inv:
  assumes laws: "heap_laws hp items" and inv: "container_inv items c (add_mset p U) P"
  shows "\<exists>b c'. push_id_into_queue hp p c = Ok (b, c') \<and> container_inv items c' U P"
proof (cases "remaining_queue_capacity hp c = 0")
  case True
  obtain y q where min: "hp_push_pop_min hp p (priority_queue c) = (y, q)" by fastforce
  have "add_mset y (items q) = add_mset p (items (priority_queue c))" by (rule heap_lawsD(6) [OF laws min])
  then have "container_inv items (c\<lparr>priority_queue := q\<rparr>) (add_mset y U) P"
    by (intro container_inv_requeue [OF inv]) simp
  from remove_idle_inv [OF this] show ?thesis using True min by (auto simp: push_id_into_queue_def)
next
  case False
  then have "size (items (priority_queue c)) < hp_capacity hp (priority_queue c)"
    using heap_lawsD(2) [OF laws] by (simp add: remaining_queue_capacity_def)
  then have "items (hp_push hp p (priority_queue c)) = add_mset p (items (priority_queue c))"
    by (rule heap_lawsD(5) [OF laws])
  then have "container_inv items (c\<lparr>priority_queue := hp_push hp p (priority_queue c)\<rparr>) U P"
    by (intro container_inv_requeue [OF inv]) simp
  then show ?thesis using False by (auto simp: push_id_into_queue_def)
qed

lemma to_pending_inv:
  assumes inv: "container_inv items c (add_mset p U) P" and s: "is_pending s"
  shows "container_inv items (c\<lparr>id_to_transaction_state := (id_to_transaction_state c)(pid_id p := s)\<rparr>) U (add_mset (pid_id p) P)"
proof -
  let ?i = "pid_id p"
  have one: "count (image_mset pid_id (items (priority_queue c) + U) + P) ?i = 0"
    using container_inv_count(1) [OF inv, of ?i] by simp
  then have none: "?i \<notin># image_mset pid_id (items (priority_queue c) + U)" "?i \<notin># P" by (auto simp: count_eq_zero_iff)
  have "s \<noteq> None" using s by (cases s) auto
  then have "container_inv items (c\<lparr>priority_queue := priority_queue c, id_to_transaction_state := (id_to_transaction_state c)(?i := s)\<rparr>) U (add_mset ?i P)"
    by (intro container_inv_update [OF inv]) (use one none inv s in \<open>auto simp: container_inv_def\<close>)
  then show ?thesis by simp
qed

lemma to_idle_inv:
  assumes inv: "container_inv items c U (add_mset (pid_id p) P)" and s: "is_idle s"
  shows "container_inv items (c\<lparr>id_to_transaction_state := (id_to_transaction_state c)(pid_id p := s)\<rparr>) (add_mset p U) P"
proof -
  let ?i = "pid_id p"
  have one: "count (image_mset pid_id (items (priority_queue c) + U) + P) ?i = 0"
    using container_inv_count(1) [OF inv, of ?i] by simp
  then have none: "?i \<notin># image_mset pid_id (items (priority_queue c) + U)" "?i \<notin># P" by (auto simp: count_eq_zero_iff)
  have "s \<noteq> None" using s by (cases s) auto
  then have "container_inv items (c\<lparr>priority_queue := priority_queue c, id_to_transaction_state := (id_to_transaction_state c)(?i := s)\<rparr>) (add_mset p U) P"
    by (intro container_inv_update [OF inv]) (use one none inv s in \<open>auto simp: container_inv_def\<close>)
  then show ?thesis by simp
qed

lemma retry_inv:
  assumes laws: "heap_laws hp items" and inv: "container_inv items c U (add_mset i P)" and good: "good_tx (ttl_transaction ttl)"
  shows "\<exists>c'. retry_transaction hp i ttl c = Ok c' \<and> container_inv items c' U P"
proof -
  obtain packet priority cost fwd where s: "id_to_transaction_state c i = Some (Pending packet priority cost fwd)"
    using container_inv_pending [OF inv, of i] by (auto simp: is_pending_iff)
  let ?p = "Transaction_Priority_Id priority i" and ?s = "Unprocessed ttl packet priority cost fwd"
  have "container_inv items (c\<lparr>id_to_transaction_state := (id_to_transaction_state c)(i \<mapsto> ?s)\<rparr>) (add_mset ?p U) P"
    using to_idle_inv [of items c U ?p P "Some ?s"] inv good by simp
  from push_inv [OF laws this] show ?thesis by (auto simp: retry_transaction_def s)
qed

lemma insert_inv:
  assumes laws: "heap_laws hp items" and inv: "container_inv items c U P" and fresh: "id_to_transaction_state c i = None"
    and good: "good_tx (ttl_transaction ttl)" and size: "size (items (priority_queue c)) + size U + size P + 1 < 2 ^ 24"
  shows "\<exists>b c'. insert_new_transaction hp i ttl packet priority cost c = Ok (b, c') \<and> container_inv items c' U P"
proof -
  let ?p = "Transaction_Priority_Id priority i" and ?s = "Some (transaction_state_new ttl packet priority cost)"
  have none: "i \<notin># image_mset pid_id (items (priority_queue c) + U) + P" using fresh container_inv_count(2) [OF inv] by blast
  then have cnt: "count (image_mset pid_id (items (priority_queue c) + U) + P) i = 0" by (simp only: count_eq_zero_iff not_False_eq_True)
  have "is_idle ?s" using good by (simp add: transaction_state_new_def)
  then have "container_inv items (c\<lparr>priority_queue := priority_queue c, id_to_transaction_state := (id_to_transaction_state c)(i := ?s)\<rparr>) (add_mset ?p U) P"
    by (intro container_inv_update [OF inv]) (use none cnt size in auto)
  from push_inv [OF laws this] show ?thesis by (auto simp: insert_new_transaction_def Let_def)
qed

end
