(* ===== verification/Thread_Aware_Locks.thy ===== *)
theory Thread_Aware_Locks
  imports Prelude "HOL-Library.Multiset"
begin

text \<open>
  The account locks of the transaction scheduler
  (\<^verbatim>\<open>core/src/banking_stage/transaction_scheduler/thread_aware_account_locks.rs\<close>): sets of threads as
  64-bit words with the operations of \<open>ThreadSet\<close> and its iterator, and \<open>ThreadAwareAccountLocks\<close> with
  locking, unlocking and the choice of schedulable threads. Every assertion, panic and index of the
  source is a \<open>Panic\<close>; counts wrap at 32 bits. A table represents a multiset of locks
  (\<open>thread_represents\<close>); the lemmas follow that multiset through each operation, read a thread
  set as the set of its bits, and so relate the table to the list of transactions in flight.
\<close>

unbundle bit_operations_syntax

section \<open>Definitions\<close>

definition MAX_THREADS :: nat where "MAX_THREADS = 64"

type_synonym thread_id = nat
type_synonym thread_set = "64 word"

text \<open>\<open>u64::count_ones\<close> and \<open>u64::trailing_zeros\<close>.\<close>

definition count_ones :: "64 word \<Rightarrow> nat" where
  "count_ones w = length (filter (bit w) [0..<64])"

definition trailing_zeros :: "64 word \<Rightarrow> nat" where
  "trailing_zeros w = length (takeWhile (\<lambda>i. \<not> bit w i) [0..<64])"

text \<open>The amount of a shift is taken modulo the width, as in a build without overflow checks.\<close>

definition as_flag :: "thread_id \<Rightarrow> thread_set" where
  "as_flag thread_id = push_bit (thread_id mod 64) 1"

definition ts_none :: thread_set where "ts_none = 0"

definition ts_any :: "nat \<Rightarrow> thread_set" where
  "ts_any num_threads = (if num_threads = MAX_THREADS then - 1 else as_flag num_threads - 1)"

definition ts_only :: "thread_id \<Rightarrow> thread_set" where
  "ts_only thread_id = as_flag thread_id"

definition ts_num_threads :: "thread_set \<Rightarrow> nat" where
  "ts_num_threads s = count_ones s"

definition only_one_contained :: "thread_set \<Rightarrow> thread_id option" where
  "only_one_contained s = (if ts_num_threads s = 1 then Some (trailing_zeros s) else None)"

definition ts_is_empty :: "thread_set \<Rightarrow> bool" where
  "ts_is_empty s \<longleftrightarrow> s = ts_none"

definition ts_contains :: "thread_set \<Rightarrow> thread_id \<Rightarrow> bool" where
  "ts_contains s thread_id \<longleftrightarrow> s AND as_flag thread_id \<noteq> 0"

definition ts_insert :: "thread_id \<Rightarrow> thread_set \<Rightarrow> thread_set" where
  "ts_insert thread_id s = s OR as_flag thread_id"

definition ts_remove :: "thread_id \<Rightarrow> thread_set \<Rightarrow> thread_set" where
  "ts_remove thread_id s = s AND NOT (as_flag thread_id)"

function contained_threads_iter :: "thread_set \<Rightarrow> thread_id list" where
  "contained_threads_iter s =
     (if s = 0 then [] else trailing_zeros s # contained_threads_iter (s AND (s - 1)))"
  by pat_completeness auto
termination
proof (relation "measure unat")
  fix s :: thread_set assume "s \<noteq> 0"
  then have "unat (s - 1) < unat s" by (simp add: unat_minus_one unat_gt_0)
  moreover have "s AND (s - 1) \<le> s - 1" by (rule word_and_le1)
  ultimately show "(s AND (s - 1), s) \<in> measure unat" by (simp add: word_le_nat_alt)
qed simp

declare contained_threads_iter.simps [simp del]

record account_write_locks =
  aw_thread_id :: thread_id
  aw_lock_count :: nat

record account_read_locks =
  ar_thread_set :: thread_set
  ar_lock_counts :: "nat list"

record thread_locks =
  tl_write_locks :: "account_write_locks option"
  tl_read_locks :: "account_read_locks option"

definition thread_locks_default :: thread_locks where
  "thread_locks_default = \<lparr>tl_write_locks = None, tl_read_locks = None\<rparr>"

record thread_aware_account_locks =
  num_threads :: nat
  locks :: "pubkey \<Rightarrow> thread_locks option"

definition thread_aware_new :: "nat \<Rightarrow> ('e, thread_aware_account_locks) result" where
  "thread_aware_new n =
     rbind (assert_that (0 < n)) (\<lambda>_.
     rbind (assert_that (n \<le> MAX_THREADS)) (\<lambda>_.
     Ok \<lparr>num_threads = n, locks = (\<lambda>_. None)\<rparr>))"

definition schedulable_threads ::
  "bool \<Rightarrow> thread_aware_account_locks \<Rightarrow> pubkey \<Rightarrow> ('e, thread_set) result" where
  "schedulable_threads write st account =
     (case locks st account of
        None \<Rightarrow> Ok (ts_any (num_threads st))
      | Some l \<Rightarrow>
          (case (tl_write_locks l, tl_read_locks l) of
             (None, Some read_locks) \<Rightarrow>
               if write then
                 Ok (case only_one_contained (ar_thread_set read_locks) of Some t \<Rightarrow> ts_only t | None \<Rightarrow> ts_none)
               else Ok (ts_any (num_threads st))
           | (Some write_locks, None) \<Rightarrow> Ok (ts_only (aw_thread_id write_locks))
           | (Some write_locks, Some read_locks) \<Rightarrow>
               rbind (assert_that (only_one_contained (ar_thread_set read_locks) = Some (aw_thread_id write_locks))) (\<lambda>_.
               Ok (ar_thread_set read_locks))
           | (None, None) \<Rightarrow> Panic))"

definition read_schedulable_threads :: "thread_aware_account_locks \<Rightarrow> pubkey \<Rightarrow> ('e, thread_set) result" where
  "read_schedulable_threads st account = schedulable_threads False st account"

definition write_schedulable_threads :: "thread_aware_account_locks \<Rightarrow> pubkey \<Rightarrow> ('e, thread_set) result" where
  "write_schedulable_threads st account = schedulable_threads True st account"

text \<open>One of the two loops of \<open>accounts_schedulable_threads\<close>; \<open>None\<close> is its early return.\<close>

fun restrict_threads ::
  "(pubkey \<Rightarrow> ('e, thread_set) result) \<Rightarrow> pubkey list \<Rightarrow> thread_set \<Rightarrow> ('e, thread_set option) result" where
  "restrict_threads f [] schedulable = Ok (Some schedulable)"
| "restrict_threads f (account # accounts) schedulable =
     rbind (f account) (\<lambda>s.
     let schedulable = schedulable AND s
     in if ts_is_empty schedulable then Ok None else restrict_threads f accounts schedulable)"

definition accounts_schedulable_threads ::
  "thread_aware_account_locks \<Rightarrow> pubkey list \<Rightarrow> pubkey list \<Rightarrow> ('e, thread_set option) result" where
  "accounts_schedulable_threads st write_account_locks read_account_locks =
     rbind (restrict_threads (write_schedulable_threads st) write_account_locks (ts_any (num_threads st))) (\<lambda>r.
     case r of
       None \<Rightarrow> Ok None
     | Some schedulable \<Rightarrow> restrict_threads (read_schedulable_threads st) read_account_locks schedulable)"

text \<open>The entry of an account, created empty when there is none.\<close>

abbreviation entry_or_default :: "thread_aware_account_locks \<Rightarrow> pubkey \<Rightarrow> thread_locks" where
  "entry_or_default st account \<equiv> (case locks st account of Some l \<Rightarrow> l | None \<Rightarrow> thread_locks_default)"

definition write_lock_account ::
  "thread_id \<Rightarrow> thread_aware_account_locks \<Rightarrow> pubkey \<Rightarrow> ('e, thread_aware_account_locks) result" where
  "write_lock_account thread_id st account =
     (let entry = entry_or_default st account in
      rbind (case tl_read_locks entry of
          Some read_locks \<Rightarrow> assert_that (only_one_contained (ar_thread_set read_locks) = Some thread_id)
        | None \<Rightarrow> Ok ()) (\<lambda>_.
      case tl_write_locks entry of
        Some write_locks \<Rightarrow>
          rbind (assert_that (aw_thread_id write_locks = thread_id)) (\<lambda>_.
          Ok (st\<lparr>locks := (locks st)(account \<mapsto> entry\<lparr>tl_write_locks :=
            Some (write_locks\<lparr>aw_lock_count := (aw_lock_count write_locks + 1) mod 2 ^ 32\<rparr>)\<rparr>)\<rparr>))
      | None \<Rightarrow>
          Ok (st\<lparr>locks := (locks st)(account \<mapsto> entry\<lparr>tl_write_locks :=
            Some \<lparr>aw_thread_id = thread_id, aw_lock_count = 1\<rparr>\<rparr>)\<rparr>)))"

definition write_unlock_account ::
  "thread_id \<Rightarrow> thread_aware_account_locks \<Rightarrow> pubkey \<Rightarrow> ('e, thread_aware_account_locks) result" where
  "write_unlock_account thread_id st account =
     (case locks st account of
        None \<Rightarrow> Panic
      | Some entry \<Rightarrow>
          (case tl_write_locks entry of
             None \<Rightarrow> Panic
           | Some write_locks \<Rightarrow>
               rbind (assert_that (aw_thread_id write_locks = thread_id)) (\<lambda>_.
               let lock_count = (aw_lock_count write_locks + 2 ^ 32 - 1) mod 2 ^ 32
               in if lock_count = 0 then
                    if tl_read_locks entry = None then Ok (st\<lparr>locks := (locks st)(account := None)\<rparr>)
                    else Ok (st\<lparr>locks := (locks st)(account \<mapsto> entry\<lparr>tl_write_locks := None\<rparr>)\<rparr>)
                  else Ok (st\<lparr>locks := (locks st)(account \<mapsto> entry\<lparr>tl_write_locks :=
                    Some (write_locks\<lparr>aw_lock_count := lock_count\<rparr>)\<rparr>)\<rparr>))))"

definition read_lock_account ::
  "thread_id \<Rightarrow> thread_aware_account_locks \<Rightarrow> pubkey \<Rightarrow> ('e, thread_aware_account_locks) result" where
  "read_lock_account thread_id st account =
     (let entry = entry_or_default st account in
      rbind (case tl_write_locks entry of
          Some write_locks \<Rightarrow> assert_that (aw_thread_id write_locks = thread_id)
        | None \<Rightarrow> Ok ()) (\<lambda>_.
      rbind (assert_that (thread_id < MAX_THREADS)) (\<lambda>_.
      case tl_read_locks entry of
        Some read_locks \<Rightarrow>
          Ok (st\<lparr>locks := (locks st)(account \<mapsto> entry\<lparr>tl_read_locks :=
            Some \<lparr>ar_thread_set = ts_insert thread_id (ar_thread_set read_locks),
                  ar_lock_counts = (ar_lock_counts read_locks)[thread_id :=
                    (ar_lock_counts read_locks ! thread_id + 1) mod 2 ^ 32]\<rparr>\<rparr>)\<rparr>)
      | None \<Rightarrow>
          Ok (st\<lparr>locks := (locks st)(account \<mapsto> entry\<lparr>tl_read_locks :=
            Some \<lparr>ar_thread_set = ts_only thread_id,
                  ar_lock_counts = (replicate MAX_THREADS 0)[thread_id := 1]\<rparr>\<rparr>)\<rparr>))))"

definition read_unlock_account ::
  "thread_id \<Rightarrow> thread_aware_account_locks \<Rightarrow> pubkey \<Rightarrow> ('e, thread_aware_account_locks) result" where
  "read_unlock_account thread_id st account =
     (case locks st account of
        None \<Rightarrow> Panic
      | Some entry \<Rightarrow>
          (case tl_read_locks entry of
             None \<Rightarrow> Panic
           | Some read_locks \<Rightarrow>
               rbind (assert_that (ts_contains (ar_thread_set read_locks) thread_id)) (\<lambda>_.
               rbind (assert_that (thread_id < MAX_THREADS)) (\<lambda>_.
               let lock_count = (ar_lock_counts read_locks ! thread_id + 2 ^ 32 - 1) mod 2 ^ 32;
                   counts = (ar_lock_counts read_locks)[thread_id := lock_count];
                   threads = (if lock_count = 0 then ts_remove thread_id (ar_thread_set read_locks)
                              else ar_thread_set read_locks)
               in if lock_count = 0 \<and> ts_is_empty threads then
                    if tl_write_locks entry = None then Ok (st\<lparr>locks := (locks st)(account := None)\<rparr>)
                    else Ok (st\<lparr>locks := (locks st)(account \<mapsto> entry\<lparr>tl_read_locks := None\<rparr>)\<rparr>)
                  else Ok (st\<lparr>locks := (locks st)(account \<mapsto> entry\<lparr>tl_read_locks :=
                    Some \<lparr>ar_thread_set = threads, ar_lock_counts = counts\<rparr>\<rparr>)\<rparr>)))))"

text \<open>A loop that applies a fallible operation to each account.\<close>

fun for_each :: "('s \<Rightarrow> 'a \<Rightarrow> ('e, 's) result) \<Rightarrow> 'a list \<Rightarrow> 's \<Rightarrow> ('e, 's) result" where
  "for_each f [] st = Ok st"
| "for_each f (x # xs) st = rbind (f st x) (for_each f xs)"

definition thread_lock_accounts ::
  "thread_aware_account_locks \<Rightarrow> pubkey list \<Rightarrow> pubkey list \<Rightarrow> thread_id \<Rightarrow> ('e, thread_aware_account_locks) result" where
  "thread_lock_accounts st write_account_locks read_account_locks thread_id =
     rbind (assert_that (thread_id < num_threads st)) (\<lambda>_.
     rbind (for_each (write_lock_account thread_id) write_account_locks st) (\<lambda>st.
     for_each (read_lock_account thread_id) read_account_locks st))"

definition thread_unlock_accounts ::
  "thread_aware_account_locks \<Rightarrow> pubkey list \<Rightarrow> pubkey list \<Rightarrow> thread_id \<Rightarrow> ('e, thread_aware_account_locks) result" where
  "thread_unlock_accounts st write_account_locks read_account_locks thread_id =
     rbind (for_each (write_unlock_account thread_id) write_account_locks st) (\<lambda>st.
     for_each (read_unlock_account thread_id) read_account_locks st)"

definition thread_try_lock_accounts ::
  "thread_aware_account_locks \<Rightarrow> pubkey list \<Rightarrow> pubkey list \<Rightarrow> thread_set \<Rightarrow> (thread_set \<Rightarrow> ('e, thread_id) result) \<Rightarrow>
   ('e, thread_id option \<times> thread_aware_account_locks) result" where
  "thread_try_lock_accounts st write_account_locks read_account_locks allowed_threads thread_selector =
     rbind (accounts_schedulable_threads st write_account_locks read_account_locks) (\<lambda>r.
     case r of
       None \<Rightarrow> Ok (None, st)
     | Some s \<Rightarrow>
         let schedulable_threads = s AND allowed_threads
         in if ts_is_empty schedulable_threads then Ok (None, st)
            else
              rbind (thread_selector schedulable_threads) (\<lambda>thread_id.
              rbind (thread_lock_accounts st write_account_locks read_account_locks thread_id) (\<lambda>st.
              Ok (Some thread_id, st))))"

text \<open>
  The table represents a multiset of locks: the account, the thread it is locked for, and whether
  for writing. In a safe multiset all locks of an account are on one thread as soon as one of
  them is a write lock.
\<close>

type_synonym thread_lock = "pubkey \<times> thread_id \<times> bool"

definition entry_represents :: "thread_lock multiset \<Rightarrow> pubkey \<Rightarrow> thread_locks \<Rightarrow> bool" where
  "entry_represents m a l \<longleftrightarrow>
     (tl_write_locks l \<noteq> None \<or> tl_read_locks l \<noteq> None)
     \<and> (case tl_write_locks l of
          None \<Rightarrow> \<forall>t. (a, t, True) \<notin># m
        | Some wl \<Rightarrow> 0 < aw_lock_count wl
            \<and> (\<forall>t. count m (a, t, True) = (if t = aw_thread_id wl then aw_lock_count wl else 0)))
     \<and> (case tl_read_locks l of
          None \<Rightarrow> \<forall>t. (a, t, False) \<notin># m
        | Some rl \<Rightarrow> length (ar_lock_counts rl) = 64
            \<and> (\<forall>t<64. ar_lock_counts rl ! t = count m (a, t, False))
            \<and> (\<forall>t. bit (ar_thread_set rl) t \<longleftrightarrow> (a, t, False) \<in># m)
            \<and> (\<exists>t. bit (ar_thread_set rl) t))"

definition thread_represents :: "thread_aware_account_locks \<Rightarrow> thread_lock multiset \<Rightarrow> bool" where
  "thread_represents st m \<longleftrightarrow>
     (\<forall>a. case locks st a of None \<Rightarrow> \<forall>t w. (a, t, w) \<notin># m | Some l \<Rightarrow> entry_represents m a l)"

definition thread_safe :: "nat \<Rightarrow> thread_lock multiset \<Rightarrow> bool" where
  "thread_safe n m \<longleftrightarrow>
     (\<forall>(a, t, w)\<in>#m. t < n) \<and> (\<forall>(a, t, w)\<in>#m. \<forall>(a', t', w')\<in>#m. a = a' \<and> (w \<or> w') \<longrightarrow> t = t')"

definition allows :: "thread_lock multiset \<Rightarrow> pubkey \<Rightarrow> bool \<Rightarrow> thread_id \<Rightarrow> bool" where
  "allows m a w t \<longleftrightarrow> (\<forall>(a', t', w')\<in>#m. a = a' \<and> (w \<or> w') \<longrightarrow> t' = t)"

definition tags :: "thread_id \<Rightarrow> bool \<Rightarrow> pubkey list \<Rightarrow> thread_lock multiset" where
  "tags t w accounts = mset (map (\<lambda>a. (a, t, w)) accounts)"

definition locks_of :: "thread_id \<times> pubkey list \<times> pubkey list \<Rightarrow> thread_lock multiset" where
  "locks_of h = (case h of (t, ws, rs) \<Rightarrow> tags t True ws + tags t False rs)"

definition grants :: "thread_lock multiset \<Rightarrow> nat \<Rightarrow> pubkey list \<Rightarrow> pubkey list \<Rightarrow> thread_id \<Rightarrow> bool" where
  "grants m n ws rs t \<longleftrightarrow> t < n \<and> (\<forall>a\<in>set ws. allows m a True t) \<and> (\<forall>a\<in>set rs. allows m a False t)"

definition selects_member :: "nat \<Rightarrow> (thread_set \<Rightarrow> ('e, thread_id) result) \<Rightarrow> bool" where
  "selects_member n thread_selector \<longleftrightarrow>
     (\<forall>s. (\<exists>t. bit s t) \<and> (\<forall>t. bit s t \<longrightarrow> t < n) \<longrightarrow> (\<exists>t'. thread_selector s = Ok t' \<and> bit s t'))"

text \<open>
  A transaction in flight is the thread it was scheduled on with the accounts it writes and reads.
  Two of them conflict when they are on different threads and share an account that one of them
  writes. A history is a sequence of granted, refused and released requests; the selector is any
  function that returns a member of the set it is given, and the number of locks held together
  stays below \<open>2 ^ 32\<close>, the range of a lock count.
\<close>

type_synonym in_flight = "thread_id \<times> pubkey list \<times> pubkey list"

fun threads_conflict :: "in_flight \<Rightarrow> in_flight \<Rightarrow> bool" where
  "threads_conflict (t, ws, rs) (t', ws', rs') \<longleftrightarrow>
     t \<noteq> t' \<and> (set ws \<inter> (set ws' \<union> set rs') \<noteq> {} \<or> set rs \<inter> set ws' \<noteq> {})"

fun lock_size :: "in_flight \<Rightarrow> nat" where
  "lock_size (t, ws, rs) = length ws + length rs"

inductive thread_history :: "nat \<Rightarrow> thread_aware_account_locks \<Rightarrow> in_flight list \<Rightarrow> bool" for n where
  threads_start: "thread_aware_new n = (Ok st :: (unit, _) result) \<Longrightarrow> thread_history n st []"
| threads_lock: "thread_history n st held \<Longrightarrow>
    thread_try_lock_accounts st ws rs allowed sel = (Ok (Some t, st') :: (unit, _) result) \<Longrightarrow> selects_member n sel \<Longrightarrow>
    sum_list (map lock_size held) + (length ws + length rs) < 2 ^ 32 \<Longrightarrow> thread_history n st' ((t, ws, rs) # held)"
| threads_unlock: "thread_history n st held \<Longrightarrow> (t, ws, rs) \<in> set held \<Longrightarrow>
    thread_unlock_accounts st ws rs t = (Ok st' :: (unit, _) result) \<Longrightarrow> thread_history n st' (remove1 (t, ws, rs) held)"

definition held_locks :: "in_flight list \<Rightarrow> thread_lock multiset" where
  "held_locks held = sum_list (map locks_of held)"

definition history_inv :: "nat \<Rightarrow> thread_aware_account_locks \<Rightarrow> in_flight list \<Rightarrow> bool" where
  "history_inv n st held \<longleftrightarrow> num_threads st = n \<and> n \<le> 64 \<and> thread_represents st (held_locks held)
     \<and> thread_safe n (held_locks held) \<and> size (held_locks held) < 2 ^ 32 \<and> (\<forall>h\<in>set held. fst h < n)"

definition table_inv :: "nat \<Rightarrow> thread_aware_account_locks \<Rightarrow> in_flight multiset \<Rightarrow> bool" where
  "table_inv n st F \<longleftrightarrow> (\<exists>held. mset held = F \<and> history_inv n st held)"

section \<open>Sets of threads as sets of bits\<close>

lemma thread_set_eqI: "(\<And>t. t < 64 \<Longrightarrow> bit (s :: thread_set) t \<longleftrightarrow> bit s' t) \<Longrightarrow> s = s'"
  by (rule bit_word_eqI) simp

lemma bit_thread_lt: "bit (s :: thread_set) t \<Longrightarrow> t < 64"
  using bit_imp_le_length [of s t] by simp

lemma bit_as_flag: "bit (as_flag t) i \<longleftrightarrow> i = t mod 64"
proof -
  have "t mod 64 < 64" by simp
  then show ?thesis unfolding as_flag_def by (auto simp: bit_exp_iff)
qed

lemma ts_is_empty: "ts_is_empty s \<longleftrightarrow> (\<forall>t. \<not> bit s t)"
  by (metis ts_is_empty_def ts_none_def bit_0_eq bot_apply bot_bool_def bit_eqI)

lemma bit_ts_any: "n \<le> 64 \<Longrightarrow> bit (ts_any n) t \<longleftrightarrow> t < n"
proof (cases "n = 64")
  case True
  then show ?thesis using bit_thread_lt [of "- 1" t] by (auto simp: ts_any_def MAX_THREADS_def)
next
  case False
  assume "n \<le> 64"
  then have "ts_any n = mask n" using False
    by (simp add: ts_any_def MAX_THREADS_def as_flag_def mask_eq_exp_minus_1 push_bit_eq_mult)
  then show ?thesis using \<open>n \<le> 64\<close> False by (auto simp: bit_mask_iff)
qed

lemma bit_ts_only: "t < 64 \<Longrightarrow> bit (ts_only t) i \<longleftrightarrow> i = t"
  by (simp add: ts_only_def bit_as_flag)

lemma bit_ts_none [simp]: "\<not> bit ts_none i"
  by (simp add: ts_none_def)

lemma ts_contains: "t < 64 \<Longrightarrow> ts_contains s t \<longleftrightarrow> bit s t"
proof -
  assume t: "t < 64"
  have "s AND as_flag t = 0 \<longleftrightarrow> (\<forall>i. \<not> (bit s i \<and> bit (as_flag t) i))"
    using ts_is_empty [of "s AND as_flag t"] by (simp add: ts_is_empty_def ts_none_def bit_and_iff)
  then show ?thesis using t by (auto simp: ts_contains_def bit_as_flag)
qed

lemma bit_ts_insert: "t < 64 \<Longrightarrow> bit (ts_insert t s) i \<longleftrightarrow> i = t \<or> bit s i"
  by (auto simp: ts_insert_def bit_or_iff bit_as_flag)

lemma bit_ts_remove: "t < 64 \<Longrightarrow> bit (ts_remove t s) i \<longleftrightarrow> i \<noteq> t \<and> bit s i"
  using bit_thread_lt [of s i] by (auto simp: ts_remove_def bit_and_iff bit_not_iff bit_as_flag)

lemmas thread_bits = bit_ts_any bit_ts_only ts_contains bit_ts_insert bit_ts_remove bit_and_iff

lemma threads_split: "k < 64 \<Longrightarrow> [0..<64] = [0..<k] @ k # [Suc k..<64]"
  using upt_add_eq_append [of 0 k "64 - k"] by (simp add: upt_conv_Cons)

lemma trailing_zeros:
  assumes "bit s k" and "\<And>i. i < k \<Longrightarrow> \<not> bit s i"
  shows "trailing_zeros s = k"
proof -
  have k: "k < 64" using assms(1) by (rule bit_thread_lt)
  have "takeWhile (\<lambda>i. \<not> bit s i) [0..<64] = [0..<k] @ takeWhile (\<lambda>i. \<not> bit s i) (k # [Suc k..<64])"
    unfolding threads_split [OF k] by (rule takeWhile_append2) (use assms(2) in simp)
  then show ?thesis using assms(1) by (simp add: trailing_zeros_def)
qed

lemma lowest_bit:
  assumes "s \<noteq> 0"
  obtains k where "bit s k" and "\<And>i. i < k \<Longrightarrow> \<not> bit s i" and "trailing_zeros s = k"
proof -
  obtain j where "bit s j" using assms ts_is_empty [of s] by (auto simp: ts_is_empty_def ts_none_def)
  then have "bit s (LEAST i. bit s i)" "\<And>i. i < (LEAST i. bit s i) \<Longrightarrow> \<not> bit s i"
    by (rule LeastI) (rule not_less_Least)
  then show thesis using that trailing_zeros by blast
qed

lemma only_one_contained: "only_one_contained s = Some t \<longleftrightarrow> (\<forall>i. bit s i \<longleftrightarrow> i = t)"
proof
  assume "only_one_contained s = Some t"
  then have one: "length (filter (bit s) [0..<64]) = 1" and t: "trailing_zeros s = t"
    by (auto simp: only_one_contained_def ts_num_threads_def count_ones_def split: if_splits)
  obtain x where x: "filter (bit s) [0..<64] = [x]" using one by (auto simp: length_Suc_conv)
  have "bit s i \<longleftrightarrow> i \<in> set (filter (bit s) [0..<64])" for i using bit_thread_lt [of s i] by auto
  then have "bit s i \<longleftrightarrow> i = x" for i by (simp add: x)
  then show "\<forall>i. bit s i \<longleftrightarrow> i = t" using trailing_zeros [of s x] t by auto
next
  assume a: "\<forall>i. bit s i \<longleftrightarrow> i = t"
  then have "t < 64" using bit_thread_lt by blast
  have "filter (bit s) [0..<64] = [t]"
    using a by (simp add: threads_split [OF \<open>t < 64\<close>] filter_empty_conv)
  then show "only_one_contained s = Some t"
    using trailing_zeros [of s t] a by (simp add: only_one_contained_def ts_num_threads_def count_ones_def)
qed

text \<open>Clearing the lowest bit.\<close>

lemma bit_clear_lowest:
  assumes "bit s k" and "\<And>i. i < k \<Longrightarrow> \<not> bit s i"
  shows "bit (s AND (s - 1)) i \<longleftrightarrow> bit (s :: thread_set) i \<and> i \<noteq> k"
proof -
  have k: "k < 64" using assms(1) by (rule bit_thread_lt)
  have "unset_bit k s = s - 2 ^ k" using assms(1) by (simp add: unset_bit_eq)
  moreover have "unset_bit k s AND mask k = 0"
    by (rule bit_eqI) (auto simp: bit_and_iff bit_mask_iff bit_unset_bit_iff assms(2))
  ultimately have "s - 1 = unset_bit k s OR mask k"
    using disjunctive_add_eq_or [of "unset_bit k s" "mask k"] by (simp add: mask_eq_exp_minus_1 algebra_simps)
  then show ?thesis
    using assms bit_thread_lt [of s i] by (auto simp: bit_and_iff bit_or_iff bit_mask_iff bit_unset_bit_iff)
qed

lemma contained_threads_iter_bits: "contained_threads_iter s = filter (bit s) [0..<64]"
proof (induction s rule: contained_threads_iter.induct)
  case (1 s)
  show ?case
  proof (cases "s = 0")
    case False
    obtain k where k: "bit s k" "\<And>i. i < k \<Longrightarrow> \<not> bit s i" "trailing_zeros s = k"
      using lowest_bit [OF False] by blast
    have "k < 64" using k(1) by (rule bit_thread_lt)
    note split = threads_split [OF this]
    have "filter (bit (s AND (s - 1))) [0..<64] = filter (bit s) [Suc k..<64]"
    proof -
      have "bit (s AND (s - 1)) = (\<lambda>i. bit s i \<and> i \<noteq> k)" by (rule ext) (rule bit_clear_lowest [OF k(1,2)])
      moreover have "filter (\<lambda>i. bit s i \<and> i \<noteq> k) [Suc k..<64] = filter (bit s) [Suc k..<64]"
        by (rule filter_cong) auto
      ultimately show ?thesis using k(2) by (simp add: split)
    qed
    moreover have "filter (bit s) [0..<64] = k # filter (bit s) [Suc k..<64]" by (simp add: split k)
    ultimately show ?thesis using 1 False k(3) by (simp add: contained_threads_iter.simps [of s])
  qed (simp add: contained_threads_iter.simps)
qed

text \<open>
  C29: iterating over a thread set by clearing its lowest bit until none is left terminates and
  yields the members of the set, in ascending order and each once.
\<close>

theorem contained_threads_iter_eq: "contained_threads_iter s = filter (\<lambda>t. ts_contains s t) [0..<MAX_THREADS]"
  unfolding contained_threads_iter_bits MAX_THREADS_def by (rule filter_cong) (simp_all add: ts_contains)

section \<open>What the table represents\<close>

lemma thread_representsD:
  assumes "thread_represents st m"
  shows "locks st a = None \<Longrightarrow> (a, t, w) \<notin># m" and "locks st a = Some l \<Longrightarrow> entry_represents m a l"
  using assms by (auto simp: thread_represents_def dest: spec [of _ a])

lemma thread_represents_empty: "thread_represents st {#} \<longleftrightarrow> locks st = (\<lambda>_. None)"
proof
  assume rep: "thread_represents st {#}"
  show "locks st = (\<lambda>_. None)"
  proof
    fix a show "locks st a = None"
    proof (cases "locks st a")
      case (Some l)
      then have "entry_represents {#} a l" using rep thread_representsD(2) by blast
      then show ?thesis by (auto simp: entry_represents_def split: option.splits if_splits)
    qed
  qed
qed (simp add: thread_represents_def)

lemma allows_write: "allows m a True t \<longleftrightarrow> (\<forall>t' w'. (a, t', w') \<in># m \<longrightarrow> t' = t)"
  and allows_read: "allows m a False t \<longleftrightarrow> (\<forall>t'. (a, t', True) \<in># m \<longrightarrow> t' = t)"
  unfolding allows_def by auto

lemma thread_safe_lt: "thread_safe n m \<Longrightarrow> (a, t, w) \<in># m \<Longrightarrow> t < n"
  and thread_safe_eq: "thread_safe n m \<Longrightarrow> (a, t, w) \<in># m \<Longrightarrow> (a, t', w') \<in># m \<Longrightarrow> w \<or> w' \<Longrightarrow> t = t'"
  unfolding thread_safe_def by fastforce+

lemma schedulable_threads_bits:
  assumes rep: "thread_represents st m" and safe: "thread_safe (num_threads st) m" and n: "num_threads st \<le> 64"
  shows "\<exists>s. schedulable_threads w st a = Ok s \<and> (\<forall>t. bit s t \<longleftrightarrow> t < num_threads st \<and> allows m a w t)"
proof (cases "locks st a")
  case None
  then show ?thesis
    using thread_representsD(1) [OF rep None] n
    by (auto simp: schedulable_threads_def thread_bits allows_def)
next
  case (Some l)
  have e: "entry_represents m a l" by (rule thread_representsD(2) [OF rep Some])
  have lt: "(a, t, v) \<in># m \<Longrightarrow> t < num_threads st \<and> t < 64" for t v using thread_safe_lt [OF safe] n by fastforce
  show ?thesis
  proof (cases "tl_write_locks l")
    case wn: None
    then obtain rl where rl: "tl_read_locks l = Some rl" using e by (auto simp: entry_represents_def)
    have bits: "bit (ar_thread_set rl) t \<longleftrightarrow> (a, t, False) \<in># m" and nw: "(a, t, True) \<notin># m" for t
      using e wn rl by (auto simp: entry_represents_def)
    obtain t0 where t0: "(a, t0, False) \<in># m" using e wn rl by (auto simp: entry_represents_def)
    show ?thesis
    proof (cases "only_one_contained (ar_thread_set rl)")
      case none: None
      then have "\<not> allows m a True t" for t
        using only_one_contained [of "ar_thread_set rl" t] t0 bits by (auto simp: allows_write)
      then show ?thesis
        using wn rl Some none nw n by (cases w) (auto simp: schedulable_threads_def allows_read thread_bits)
    next
      case one: (Some t1)
      then have t1: "(a, t, False) \<in># m \<longleftrightarrow> t = t1" for t using only_one_contained bits by blast
      then have "allows m a True t \<longleftrightarrow> t = t1" for t using nw by (auto simp: allows_write) (metis (full_types))+
      then show ?thesis
        using wn rl Some one nw n lt [of t1 False] t1 [of t1] by (cases w) (auto simp: schedulable_threads_def allows_read thread_bits)
    qed
  next
    case ws: (Some wl)
    let ?t = "aw_thread_id wl"
    have c: "0 < aw_lock_count wl" "\<And>t. count m (a, t, True) = (if t = ?t then aw_lock_count wl else 0)"
      using e ws by (auto simp: entry_represents_def)
    have wt: "(a, t, True) \<in># m \<longleftrightarrow> t = ?t" for t using c by (metis count_eq_zero_iff less_irrefl)
    have al: "allows m a w t \<longleftrightarrow> t = ?t" for t
      using wt thread_safe_eq [OF safe, of a ?t True] unfolding allows_def by fastforce
    show ?thesis
    proof (cases "tl_read_locks l")
      case None
      then show ?thesis using ws Some al lt [of ?t True] wt [of ?t] by (auto simp: schedulable_threads_def thread_bits)
    next
      case (Some rl)
      have bits: "\<forall>t. bit (ar_thread_set rl) t \<longleftrightarrow> (a, t, False) \<in># m" and "\<exists>t. bit (ar_thread_set rl) t"
        using e Some by (auto simp: entry_represents_def)
      then have "\<forall>t. bit (ar_thread_set rl) t \<longleftrightarrow> t = ?t"
        using thread_safe_eq [OF safe, of a ?t True] wt by metis
      then show ?thesis
        using only_one_contained [of "ar_thread_set rl" ?t] ws Some \<open>locks st a = Some l\<close> al lt [of ?t True] wt [of ?t]
        by (auto simp: schedulable_threads_def assert_that_def)
    qed
  qed
qed

section \<open>Locking and unlocking one account\<close>

text \<open>An update of the entry of one account leaves the other accounts as they are.\<close>

lemma represents_update:
  assumes "thread_represents st m" and "\<And>b t w. b \<noteq> a \<Longrightarrow> count m' (b, t, w) = count m (b, t, w)"
    and "case e of None \<Rightarrow> \<forall>t w. (a, t, w) \<notin># m' | Some l \<Rightarrow> entry_represents m' a l"
  shows "thread_represents (st\<lparr>locks := (locks st)(a := e)\<rparr>) m'"
proof -
  have same: "(b, t, w) \<in># m' \<longleftrightarrow> (b, t, w) \<in># m" if "b \<noteq> a" for b t w
    using assms(2) [OF that] by (metis count_eq_zero_iff)
  have "case locks st b of None \<Rightarrow> \<forall>t w. (b, t, w) \<notin># m' | Some l \<Rightarrow> entry_represents m' b l" if "b \<noteq> a" for b
    using assms(1) unfolding thread_represents_def entry_represents_def same [OF that] assms(2) [OF that] by blast
  then show ?thesis using assms(3) by (auto simp: thread_represents_def)
qed

lemma entry_or_default_represents:
  assumes "thread_represents st m"
  shows "case tl_write_locks (entry_or_default st a) of
          None \<Rightarrow> \<forall>t. (a, t, True) \<notin># m
        | Some wl \<Rightarrow> 0 < aw_lock_count wl
            \<and> (\<forall>t. count m (a, t, True) = (if t = aw_thread_id wl then aw_lock_count wl else 0))"
    and "case tl_read_locks (entry_or_default st a) of
          None \<Rightarrow> \<forall>t. (a, t, False) \<notin># m
        | Some rl \<Rightarrow> length (ar_lock_counts rl) = 64
            \<and> (\<forall>t<64. ar_lock_counts rl ! t = count m (a, t, False))
            \<and> (\<forall>t. bit (ar_thread_set rl) t \<longleftrightarrow> (a, t, False) \<in># m)
            \<and> (\<exists>t. bit (ar_thread_set rl) t)"
  using thread_representsD [OF assms, of a]
  by (cases "locks st a"; simp add: thread_locks_default_def entry_represents_def)+

lemma count_pred: "0 < c \<Longrightarrow> c < 2 ^ 32 \<Longrightarrow> (c + 2 ^ 32 - 1) mod 2 ^ 32 = c - (1 :: nat)"
  by (simp add: mod_if)

lemma write_lock_represents:
  assumes rep: "thread_represents st m" and al: "allows m a True t" and size: "size m + 1 < 2 ^ 32"
  shows "\<exists>st'. write_lock_account t st a = Ok st' \<and> thread_represents st' (add_mset (a, t, True) m)
     \<and> num_threads st' = num_threads st"
proof -
  let ?e = "entry_or_default st a"
  note w = entry_or_default_represents(1) [OF rep, of a] and r = entry_or_default_represents(2) [OF rep, of a]
  have ot: "(a, t', v) \<in># m \<Longrightarrow> t' = t" for t' v using al by (auto simp: allows_write)
  have one: "only_one_contained (ar_thread_set rl) = Some t" if "tl_read_locks ?e = Some rl" for rl
    using r ot that by (auto simp: only_one_contained)
  have small: "count m x + 1 < 2 ^ 32" for x using count_le_size [of m x] size by linarith
  show ?thesis
  proof (cases "tl_write_locks ?e")
    case None
    let ?e' = "?e\<lparr>tl_write_locks := Some \<lparr>aw_thread_id = t, aw_lock_count = 1\<rparr>\<rparr>"
    have "entry_represents (add_mset (a, t, True) m) a ?e'"
      using None w r by (auto simp: entry_represents_def not_in_iff split: option.splits)
    then have "thread_represents (st\<lparr>locks := (locks st)(a \<mapsto> ?e')\<rparr>) (add_mset (a, t, True) m)"
      by (intro represents_update [OF rep]) auto
    moreover have "write_lock_account t st a = Ok (st\<lparr>locks := (locks st)(a \<mapsto> ?e')\<rparr>)"
      using one None by (auto simp: write_lock_account_def Let_def assert_that_def split: option.split)
    ultimately show ?thesis by auto
  next
    case (Some wl)
    then have wl: "0 < aw_lock_count wl" "aw_thread_id wl = t" "count m (a, t, True) = aw_lock_count wl"
      and other: "t' \<noteq> t \<Longrightarrow> count m (a, t', True) = 0" for t'
      using w ot [of _ True] by (auto split: if_splits simp: count_eq_zero_iff) (metis count_eq_zero_iff less_irrefl)+
    let ?e' = "?e\<lparr>tl_write_locks := Some (wl\<lparr>aw_lock_count := (aw_lock_count wl + 1) mod 2 ^ 32\<rparr>)\<rparr>"
    have "entry_represents (add_mset (a, t, True) m) a ?e'"
      using Some r wl other small [of "(a, t, True)"] by (auto simp: entry_represents_def split: option.splits)
    then have "thread_represents (st\<lparr>locks := (locks st)(a \<mapsto> ?e')\<rparr>) (add_mset (a, t, True) m)"
      by (intro represents_update [OF rep]) auto
    moreover have "write_lock_account t st a = Ok (st\<lparr>locks := (locks st)(a \<mapsto> ?e')\<rparr>)"
      using one Some wl by (auto simp: write_lock_account_def Let_def assert_that_def split: option.split)
    ultimately show ?thesis by auto
  qed
qed

lemma read_lock_represents:
  assumes rep: "thread_represents st m" and al: "allows m a False t" and size: "size m + 1 < 2 ^ 32" and t: "t < 64"
  shows "\<exists>st'. read_lock_account t st a = Ok st' \<and> thread_represents st' (add_mset (a, t, False) m)
     \<and> num_threads st' = num_threads st"
proof -
  let ?e = "entry_or_default st a"
  note w = entry_or_default_represents(1) [OF rep, of a] and r = entry_or_default_represents(2) [OF rep, of a]
  have ot: "(a, t', True) \<in># m \<Longrightarrow> t' = t" for t' using al by (auto simp: allows_read)
  have wt: "aw_thread_id wl = t" if "tl_write_locks ?e = Some wl" for wl
    using w that ot [of "aw_thread_id wl"] by (auto simp: count_greater_zero_iff [symmetric] simp del: count_greater_zero_iff)
  have small: "count m x + 1 < 2 ^ 32" for x using count_le_size [of m x] size by linarith
  define rl' where "rl' = (case tl_read_locks ?e of
      Some rl \<Rightarrow> \<lparr>ar_thread_set = ts_insert t (ar_thread_set rl),
                  ar_lock_counts = (ar_lock_counts rl)[t := (ar_lock_counts rl ! t + 1) mod 2 ^ 32]\<rparr>
    | None \<Rightarrow> \<lparr>ar_thread_set = ts_only t, ar_lock_counts = (replicate MAX_THREADS 0)[t := 1]\<rparr>)"
  let ?e' = "?e\<lparr>tl_read_locks := Some rl'\<rparr>"
  have bits: "\<forall>i. bit (ar_thread_set rl') i \<longleftrightarrow> (a, i, False) \<in># add_mset (a, t, False) m"
    using r t by (auto simp: rl'_def thread_bits split: option.splits)
  have counts: "length (ar_lock_counts rl') = 64" "\<forall>i<64. ar_lock_counts rl' ! i = count (add_mset (a, t, False) m) (a, i, False)"
    using r t small [of "(a, t, False)"]
    by (auto simp: rl'_def MAX_THREADS_def nth_list_update not_in_iff split: option.splits)
  have "entry_represents (add_mset (a, t, False) m) a ?e'"
    using w bits counts by (auto simp: entry_represents_def split: option.splits)
  then have "thread_represents (st\<lparr>locks := (locks st)(a \<mapsto> ?e')\<rparr>) (add_mset (a, t, False) m)"
    by (intro represents_update [OF rep]) auto
  moreover have "read_lock_account t st a = Ok (st\<lparr>locks := (locks st)(a \<mapsto> ?e')\<rparr>)"
    using wt t by (auto simp: read_lock_account_def Let_def assert_that_def MAX_THREADS_def rl'_def split: option.split)
  ultimately show ?thesis by auto
qed

lemma write_unlock_represents:
  assumes rep: "thread_represents st m" and inm: "(a, t, True) \<in># m" and size: "size m < 2 ^ 32"
  shows "\<exists>st'. write_unlock_account t st a = Ok st' \<and> thread_represents st' (m - {#(a, t, True)#})
     \<and> num_threads st' = num_threads st"
proof -
  let ?m = "m - {#(a, t, True)#}"
  obtain l where l: "locks st a = Some l" using thread_representsD(1) [OF rep] inm by (cases "locks st a") auto
  have e: "entry_represents m a l" by (rule thread_representsD(2) [OF rep l])
  then obtain wl where wl: "tl_write_locks l = Some wl" using inm by (cases "tl_write_locks l") (auto simp: entry_represents_def)
  have c: "count m (a, i, True) = (if i = aw_thread_id wl then aw_lock_count wl else 0)" for i
    using e wl by (auto simp: entry_represents_def)
  have t: "aw_thread_id wl = t" "0 < aw_lock_count wl"
    using c [of t] inm by (auto simp: count_greater_zero_iff [symmetric] simp del: count_greater_zero_iff split: if_splits)
  have "aw_lock_count wl < 2 ^ 32" using c [of t] t(1) count_le_size [of m "(a, t, True)"] size by simp
  note lc = count_pred [OF t(2) this]
  define e' where "e' = (if aw_lock_count wl = 1 then
      if tl_read_locks l = None then None else Some (l\<lparr>tl_write_locks := None\<rparr>)
    else Some (l\<lparr>tl_write_locks := Some (wl\<lparr>aw_lock_count := aw_lock_count wl - 1\<rparr>)\<rparr>))"
  have c': "count ?m (a, i, True) = (if i = t then aw_lock_count wl - 1 else 0)" "count ?m (a, i, False) = count m (a, i, False)" for i
    using c [of i] t by auto
  have in': "(a, i, True) \<in># ?m \<longleftrightarrow> i = t \<and> aw_lock_count wl \<noteq> 1" "(a, i, False) \<in># ?m \<longleftrightarrow> (a, i, False) \<in># m" for i
    unfolding count_greater_zero_iff [symmetric] c' using t(2) by auto
  have "case e' of None \<Rightarrow> \<forall>t w. (a, t, w) \<notin># ?m | Some l \<Rightarrow> entry_represents ?m a l"
    using e wl t by (auto simp: e'_def entry_represents_def in' c' all_bool_eq split: option.splits)
  then have "thread_represents (st\<lparr>locks := (locks st)(a := e')\<rparr>) ?m"
    by (intro represents_update [OF rep]) auto
  moreover have "write_unlock_account t st a = Ok (st\<lparr>locks := (locks st)(a := e')\<rparr>)"
    unfolding write_unlock_account_def l wl option.case lc Let_def using t by (auto simp: assert_that_def e'_def)
  ultimately show ?thesis by auto
qed

lemma read_unlock_represents:
  assumes rep: "thread_represents st m" and inm: "(a, t, False) \<in># m" and size: "size m < 2 ^ 32" and t: "t < 64"
  shows "\<exists>st'. read_unlock_account t st a = Ok st' \<and> thread_represents st' (m - {#(a, t, False)#})
     \<and> num_threads st' = num_threads st"
proof -
  let ?m = "m - {#(a, t, False)#}"
  obtain l where l: "locks st a = Some l" using thread_representsD(1) [OF rep] inm by (cases "locks st a") auto
  have e: "entry_represents m a l" by (rule thread_representsD(2) [OF rep l])
  then obtain rl where rl: "tl_read_locks l = Some rl" using inm by (cases "tl_read_locks l") (auto simp: entry_represents_def)
  have len: "length (ar_lock_counts rl) = 64" and c: "\<And>i. i < 64 \<Longrightarrow> ar_lock_counts rl ! i = count m (a, i, False)"
    and b: "\<And>i. bit (ar_thread_set rl) i \<longleftrightarrow> (a, i, False) \<in># m"
    using e rl by (auto simp: entry_represents_def)
  let ?c = "ar_lock_counts rl ! t"
  have pos: "0 < ?c" and lt: "?c < 2 ^ 32" using c [OF t] inm count_le_size [of m "(a, t, False)"] size by auto
  note lc = count_pred [OF pos lt]
  define s where "s = (if ?c - 1 = 0 then ts_remove t (ar_thread_set rl) else ar_thread_set rl)"
  have c': "count ?m (a, i, False) = (if i = t then ?c - 1 else count m (a, i, False))" "count ?m (a, i, True) = count m (a, i, True)" for i
    using c [OF t] by auto
  have in': "(a, i, True) \<in># ?m \<longleftrightarrow> (a, i, True) \<in># m" for i
    unfolding count_greater_zero_iff [symmetric] c' by simp
  have s: "bit s i \<longleftrightarrow> (a, i, False) \<in># ?m" for i
    unfolding count_greater_zero_iff [symmetric] c' using inm t b [of i] by (auto simp: s_def thread_bits)
  have gone: "?c - 1 = 0 \<and> ts_is_empty s \<longleftrightarrow> (\<forall>i. (a, i, False) \<notin># ?m)"
  proof -
    have "?c - 1 = 0 \<longleftrightarrow> (a, t, False) \<notin># ?m" using c'(1) [of t] count_eq_zero_iff [of ?m "(a, t, False)"] by metis
    then show ?thesis using s by (auto simp: ts_is_empty)
  qed
  define e' where "e' = (if ?c - 1 = 0 \<and> ts_is_empty s then
      if tl_write_locks l = None then None else Some (l\<lparr>tl_read_locks := None\<rparr>)
    else Some (l\<lparr>tl_read_locks := Some \<lparr>ar_thread_set = s, ar_lock_counts = (ar_lock_counts rl)[t := ?c - 1]\<rparr>\<rparr>))"
  have "case e' of None \<Rightarrow> \<forall>t w. (a, t, w) \<notin># ?m | Some l \<Rightarrow> entry_represents ?m a l"
  proof (cases "?c - 1 = 0 \<and> ts_is_empty s")
    case True
    then show ?thesis using e gone unfolding e'_def by (auto simp: entry_represents_def in' c'(2) all_bool_eq split: option.splits)
  next
    case False
    then have ne: "\<exists>i. bit s i" using gone s by blast
    have e'_eq: "e' = Some (l\<lparr>tl_read_locks := Some \<lparr>ar_thread_set = s, ar_lock_counts = (ar_lock_counts rl)[t := ?c - 1]\<rparr>\<rparr>)"
      using False by (simp only: e'_def if_False)
    have "\<forall>i<64. (ar_lock_counts rl)[t := ?c - 1] ! i = count ?m (a, i, False)"
      using c len by (simp add: c' nth_list_update)
    then show ?thesis
      using e ne len s unfolding e'_eq by (auto simp: entry_represents_def in' c'(2) split: option.splits)
  qed
  then have "thread_represents (st\<lparr>locks := (locks st)(a := e')\<rparr>) ?m"
    by (intro represents_update [OF rep]) auto
  moreover have "read_unlock_account t st a = Ok (st\<lparr>locks := (locks st)(a := e')\<rparr>)"
    unfolding read_unlock_account_def l rl option.case lc Let_def s_def [symmetric]
    using t b inm by (auto simp: assert_that_def e'_def MAX_THREADS_def thread_bits)
  ultimately show ?thesis by auto
qed

section \<open>Locking and unlocking the accounts of a transaction\<close>

lemma for_each_invariant:
  assumes "I xs st" and "\<And>x xs st. I (x # xs) st \<Longrightarrow> \<exists>st'. f st x = Ok st' \<and> I xs st'"
  shows "\<exists>st'. for_each f xs st = Ok st' \<and> I [] st'"
  using assms(1)
proof (induction xs arbitrary: st)
  case (Cons x xs)
  then show ?case using assms(2) [OF Cons.prems] by auto
qed simp

lemma tags_simps [simp]: "tags t w [] = {#}" "tags t w (a # as) = add_mset (a, t, w) (tags t w as)"
  by (simp_all add: tags_def)

lemma in_tags [simp]: "(a, t', w') \<in># tags t w as \<longleftrightarrow> a \<in> set as \<and> t' = t \<and> w' = w"
  by (auto simp: tags_def)

lemma size_tags [simp]: "size (tags t w as) = length as"
  by (simp add: tags_def)

lemma allows_subset: "allows m a w t \<Longrightarrow> m' \<subseteq># m \<Longrightarrow> allows m' a w t"
  unfolding allows_def by (blast dest: mset_subset_eqD)

lemma allows_same_thread: "allows m a w t \<Longrightarrow> (\<And>x. x \<in># m' \<Longrightarrow> fst (snd x) = t) \<Longrightarrow> allows (m + m') a w t"
  unfolding allows_def by fastforce

lemma lock_all:
  assumes step: "\<And>st m a. thread_represents st m \<Longrightarrow> allows m a w t \<Longrightarrow> size m + 1 < 2 ^ 32 \<Longrightarrow>
      \<exists>st'. f st a = Ok st' \<and> thread_represents st' (add_mset (a, t, w) m) \<and> num_threads st' = num_threads st"
    and "thread_represents st m" and "size m + length ws < 2 ^ 32" and "\<forall>a\<in>set ws. allows m a w t"
  shows "\<exists>st'. for_each f ws st = Ok st' \<and> thread_represents st' (m + tags t w ws) \<and> num_threads st' = num_threads st"
proof -
  let ?M = "m + tags t w ws" and ?n = "num_threads st"
  let ?I = "\<lambda>xs st. num_threads st = ?n \<and> (\<forall>a\<in>set xs. allows ?M a w t)
     \<and> (\<exists>m'. thread_represents st m' \<and> m' + tags t w xs = ?M)"
  have "\<exists>st'. for_each f ws st = Ok st' \<and> ?I [] st'"
  proof (rule for_each_invariant)
    show "?I ws st" using assms(2,4) by (auto intro!: allows_same_thread)
    fix x xs st assume I: "?I (x # xs) st"
    then obtain m' where m': "thread_represents st m'" "m' + tags t w (x # xs) = ?M" by blast
    have al: "allows m' x w t" by (rule allows_subset [of ?M]) (use I in simp, unfold m'(2) [symmetric], simp)
    have "size m' + length (x # xs) = size m + length ws" using arg_cong [OF m'(2), of size] by simp
    then have "size m' + 1 < 2 ^ 32" using assms(3) by simp
    from step [OF m'(1) al this] obtain st'
      where st': "f st x = Ok st'" "thread_represents st' (add_mset (x, t, w) m')" "num_threads st' = num_threads st"
      by blast
    moreover have "add_mset (x, t, w) m' + tags t w xs = ?M" using m'(2) by simp
    ultimately show "\<exists>st'. f st x = Ok st' \<and> ?I xs st'" using I by auto
  qed
  then show ?thesis by auto
qed

lemma unlock_all:
  assumes step: "\<And>st m a. thread_represents st m \<Longrightarrow> (a, t, w) \<in># m \<Longrightarrow> size m < 2 ^ 32 \<Longrightarrow>
      \<exists>st'. f st a = Ok st' \<and> thread_represents st' (m - {#(a, t, w)#}) \<and> num_threads st' = num_threads st"
    and "thread_represents st (m + tags t w xs)" and "size m + length xs < 2 ^ 32"
  shows "\<exists>st'. for_each f xs st = Ok st' \<and> thread_represents st' m \<and> num_threads st' = num_threads st"
proof -
  let ?n = "num_threads st"
  let ?I = "\<lambda>xs st. num_threads st = ?n \<and> thread_represents st (m + tags t w xs) \<and> size m + length xs < 2 ^ 32"
  have "\<exists>st'. for_each f xs st = Ok st' \<and> ?I [] st'"
  proof (rule for_each_invariant)
    show "?I xs st" using assms by simp
    fix x xs st assume I: "?I (x # xs) st"
    then show "\<exists>st'. f st x = Ok st' \<and> ?I xs st'" using step [of st "m + tags t w (x # xs)" x] by auto
  qed
  then show ?thesis by auto
qed

lemma thread_lock_represents:
  assumes "thread_represents st m" and "t < num_threads st" and "num_threads st \<le> 64"
    and "size m + (length ws + length rs) < 2 ^ 32"
    and "\<forall>a\<in>set ws. allows m a True t" and "\<forall>a\<in>set rs. allows m a False t"
  shows "\<exists>st'. thread_lock_accounts st ws rs t = (Ok st' :: ('e, _) result) \<and> thread_represents st' (m + locks_of (t, ws, rs))
    \<and> num_threads st' = num_threads st"
proof -
  obtain st1 where st1: "for_each (write_lock_account t) ws st = (Ok st1 :: ('e, _) result)"
      "thread_represents st1 (m + tags t True ws)" "num_threads st1 = num_threads st"
    using lock_all [OF write_lock_represents assms(1) _ assms(5)] assms(4) by auto
  moreover have "\<forall>a\<in>set rs. allows (m + tags t True ws) a False t"
    using assms(6) by (auto intro!: allows_same_thread)
  ultimately obtain st2 where "for_each (read_lock_account t) rs st1 = (Ok st2 :: ('e, _) result)"
      "thread_represents st2 (m + tags t True ws + tags t False rs)" "num_threads st2 = num_threads st"
    using lock_all [OF read_lock_represents st1(2), of t rs] assms(2,3,4) by auto
  then show ?thesis using st1 assms(2) by (auto simp: thread_lock_accounts_def assert_that_def locks_of_def ac_simps)
qed

lemma thread_unlock_represents:
  assumes "thread_represents st (m + locks_of (t, ws, rs))" and "t < 64" and "size m + (length ws + length rs) < 2 ^ 32"
  shows "\<exists>st'. thread_unlock_accounts st ws rs t = (Ok st' :: ('e, _) result) \<and> thread_represents st' m \<and> num_threads st' = num_threads st"
proof -
  have "thread_represents st ((m + tags t False rs) + tags t True ws)"
    using assms(1) by (simp add: locks_of_def ac_simps)
  from unlock_all [OF write_unlock_represents this] assms(3) obtain st1 where st1:
      "for_each (write_unlock_account t) ws st = (Ok st1 :: ('e, _) result)" "thread_represents st1 (m + tags t False rs)"
      "num_threads st1 = num_threads st" by auto
  from unlock_all [OF read_unlock_represents [OF _ _ _ assms(2)] st1(2)] assms(3) obtain st2 where
      "for_each (read_unlock_account t) rs st1 = (Ok st2 :: ('e, _) result)" "thread_represents st2 m" "num_threads st2 = num_threads st1" by auto
  with st1 show ?thesis by (auto simp: thread_unlock_accounts_def)
qed

section \<open>Which threads are schedulable\<close>

lemma restrict_threads_bits:
  assumes "\<And>a. \<exists>s. f a = Ok s \<and> (\<forall>t. bit s t \<longleftrightarrow> P a t)"
  shows "\<exists>r. restrict_threads f as s = Ok r
    \<and> (\<forall>t. bit s t \<and> (\<forall>a\<in>set as. P a t) \<longleftrightarrow> (\<exists>s'. r = Some s' \<and> bit s' t))"
proof (induction as arbitrary: s)
  case (Cons a as)
  obtain s1 where s1: "f a = Ok s1" "\<And>t. bit s1 t \<longleftrightarrow> P a t" using assms by blast
  show ?case
  proof (cases "ts_is_empty (s AND s1)")
    case True
    then show ?thesis using s1 by (auto simp: ts_is_empty bit_and_iff)
  next
    case False
    then show ?thesis using s1 Cons.IH [of "s AND s1"] by (auto simp: bit_and_iff)
  qed
qed simp

lemma accounts_schedulable_bits:
  assumes rep: "thread_represents st m" and safe: "thread_safe (num_threads st) m" and n: "num_threads st \<le> 64"
  shows "\<exists>r. accounts_schedulable_threads st ws rs = (Ok r :: ('e, _) result)
    \<and> (\<forall>t. grants m (num_threads st) ws rs t \<longleftrightarrow> (\<exists>s. r = Some s \<and> bit s t))"
proof -
  have f: "\<exists>s. write_schedulable_threads st a = (Ok s :: ('e, _) result) \<and> (\<forall>t. bit s t \<longleftrightarrow> t < num_threads st \<and> allows m a True t)"
    and g: "\<exists>s. read_schedulable_threads st a = (Ok s :: ('e, _) result) \<and> (\<forall>t. bit s t \<longleftrightarrow> t < num_threads st \<and> allows m a False t)" for a
    using schedulable_threads_bits [OF assms] by (auto simp: write_schedulable_threads_def read_schedulable_threads_def)
  obtain r1 where r1: "restrict_threads (write_schedulable_threads st) ws (ts_any (num_threads st)) = (Ok r1 :: ('e, _) result)"
      "\<forall>t. t < num_threads st \<and> (\<forall>a\<in>set ws. t < num_threads st \<and> allows m a True t) \<longleftrightarrow> (\<exists>s. r1 = Some s \<and> bit s t)"
    using restrict_threads_bits [of "write_schedulable_threads st" "\<lambda>a t. t < num_threads st \<and> allows m a True t"
        ws "ts_any (num_threads st)", OF f] unfolding bit_ts_any [OF n]
    by (elim exE conjE) (rule that)
  show ?thesis
  proof (cases r1)
    case None
    then show ?thesis using r1 by (auto simp: accounts_schedulable_threads_def grants_def)
  next
    case (Some s1)
    obtain r2 where r2: "restrict_threads (read_schedulable_threads st) rs s1 = (Ok r2 :: ('e, _) result)"
        "\<forall>t. bit s1 t \<and> (\<forall>a\<in>set rs. t < num_threads st \<and> allows m a False t) \<longleftrightarrow> (\<exists>s. r2 = Some s \<and> bit s t)"
      using restrict_threads_bits [of "read_schedulable_threads st" "\<lambda>a t. t < num_threads st \<and> allows m a False t"
        rs s1, OF g] by (elim exE conjE) (rule that)
    have "bit s1 t \<longleftrightarrow> t < num_threads st \<and> (\<forall>a\<in>set ws. allows m a True t)" for t using r1(2) Some by auto
    then show ?thesis using r1(1) r2 Some by (auto simp: accounts_schedulable_threads_def grants_def)
  qed
qed

lemma thread_try_lock_represents:
  assumes rep: "thread_represents st m" and safe: "thread_safe (num_threads st) m" and n: "num_threads st \<le> 64"
    and sel: "selects_member (num_threads st) (sel :: _ \<Rightarrow> ('e, _) result)" and size: "size m + (length ws + length rs) < 2 ^ 32"
  shows "if \<exists>t. grants m (num_threads st) ws rs t \<and> bit allowed t
    then \<exists>t st'. thread_try_lock_accounts st ws rs allowed sel = Ok (Some t, st')
      \<and> grants m (num_threads st) ws rs t \<and> bit allowed t
      \<and> thread_represents st' (m + locks_of (t, ws, rs)) \<and> num_threads st' = num_threads st
    else thread_try_lock_accounts st ws rs allowed sel = Ok (None, st)"
proof -
  obtain r where r: "accounts_schedulable_threads st ws rs = (Ok r :: ('e, _) result)"
      "\<forall>t. grants m (num_threads st) ws rs t \<longleftrightarrow> (\<exists>s. r = Some s \<and> bit s t)"
    using accounts_schedulable_bits [OF rep safe n, where ws = ws and rs = rs and 'e = 'e]
    by (elim exE conjE) (rule that)
  show ?thesis
  proof (cases "\<exists>t. grants m (num_threads st) ws rs t \<and> bit allowed t")
    case True
    then obtain s t0 where s: "r = Some s" "bit s t0" "bit allowed t0" using r(2) by blast
    then have "\<exists>t. bit (s AND allowed) t" by (auto simp: bit_and_iff)
    moreover have "\<forall>t. bit (s AND allowed) t \<longrightarrow> t < num_threads st" using r(2) s(1) by (auto simp: bit_and_iff grants_def)
    ultimately obtain t where t: "sel (s AND allowed) = Ok t" "bit (s AND allowed) t" using sel by (auto simp: selects_member_def)
    then have g: "grants m (num_threads st) ws rs t" "bit allowed t" using r(2) s by (auto simp: bit_and_iff)
    then obtain st' where "thread_lock_accounts st ws rs t = (Ok st' :: ('e, _) result)" "thread_represents st' (m + locks_of (t, ws, rs))"
        "num_threads st' = num_threads st"
      using thread_lock_represents [OF rep _ n size, where t = t and 'e = 'e] by (auto simp: grants_def)
    moreover have "\<not> ts_is_empty (s AND allowed)" using t(2) by (auto simp: ts_is_empty)
    ultimately show ?thesis using True g r(1) s(1) t(1) by (auto simp: thread_try_lock_accounts_def)
  next
    case False
    then show ?thesis
      using r by (cases r) (auto simp: thread_try_lock_accounts_def ts_is_empty bit_and_iff)
  qed
qed

lemma in_locks_of [simp]: "(a, t', w) \<in># locks_of (t, ws, rs) \<longleftrightarrow> t' = t \<and> a \<in> set (if w then ws else rs)"
  by (auto simp: locks_of_def)

lemma thread_safe_iff:
  "thread_safe n m \<longleftrightarrow> (\<forall>a t w. (a, t, w) \<in># m \<longrightarrow> t < n)
     \<and> (\<forall>a t w t' w'. (a, t, w) \<in># m \<longrightarrow> (a, t', w') \<in># m \<longrightarrow> w \<or> w' \<longrightarrow> t = t')"
  unfolding thread_safe_def by fast

lemma grants_safe:
  assumes safe: "thread_safe n m" and "grants m n ws rs t"
  shows "thread_safe n (m + locks_of (t, ws, rs))"
proof -
  have t: "t < n" and w: "a \<in> set ws \<Longrightarrow> (a, t', v) \<in># m \<Longrightarrow> t' = t"
    and r: "a \<in> set rs \<Longrightarrow> (a, t', True) \<in># m \<Longrightarrow> t' = t" for a t' v
    using assms(2) by (auto simp: grants_def allows_write allows_read)
  have old_new: "t1 = t2" if "(a, t1, v1) \<in># m" "(a, t2, v2) \<in># locks_of (t, ws, rs)" "v1 \<or> v2" for a t1 v1 t2 v2
    using that w [of a t1 v1] r [of a t1] by (cases v2) auto
  show ?thesis
    unfolding thread_safe_iff union_iff
  proof (intro conjI allI impI)
    fix a t1 v assume "(a, t1, v) \<in># m \<or> (a, t1, v) \<in># locks_of (t, ws, rs)"
    then show "t1 < n" using t thread_safe_lt [OF safe] by auto
  next
    fix a t1 v1 t2 v2
    assume "(a, t1, v1) \<in># m \<or> (a, t1, v1) \<in># locks_of (t, ws, rs)"
      and "(a, t2, v2) \<in># m \<or> (a, t2, v2) \<in># locks_of (t, ws, rs)" and "v1 \<or> v2"
    then show "t1 = t2"
      using thread_safe_eq [OF safe, of a t1 v1 t2 v2] old_new [of a t1 v1 t2 v2] old_new [of a t2 v2 t1 v1] by auto
  qed
qed

section \<open>Histories\<close>

lemma held_locks_simps [simp]: "held_locks [] = {#}" "held_locks (h # held) = locks_of h + held_locks held"
  by (simp_all add: held_locks_def)

lemma size_locks_of: "size (locks_of h) = lock_size h"
  by (cases h) (simp add: locks_of_def)

lemma size_held_locks: "size (held_locks held) = sum_list (map lock_size held)"
  by (induction held) (simp_all add: size_locks_of)

lemma held_locks_remove1: "h \<in> set held \<Longrightarrow> held_locks held = held_locks (remove1 h held) + locks_of h"
  by (induction held) (auto simp: ac_simps)

lemma in_held_locks: "x \<in># held_locks held \<longleftrightarrow> (\<exists>h\<in>set held. x \<in># locks_of h)"
  by (induction held) auto

lemma thread_safe_subset: "thread_safe n m \<Longrightarrow> m' \<subseteq># m \<Longrightarrow> thread_safe n m'"
  unfolding thread_safe_iff by (meson mset_subset_eqD)

lemma history_unlock_step:
  assumes inv: "history_inv n st held" and h: "(t, ws, rs) \<in> set held"
  shows "\<exists>st'. thread_unlock_accounts st ws rs t = (Ok st' :: ('e, _) result) \<and> history_inv n st' (remove1 (t, ws, rs) held)"
proof -
  let ?m = "held_locks (remove1 (t, ws, rs) held)"
  note m = held_locks_remove1 [OF h]
  have "thread_represents st (?m + locks_of (t, ws, rs))" "size (?m + locks_of (t, ws, rs)) < 2 ^ 32" and t: "t < 64"
    using inv h unfolding history_inv_def m by fastforce+
  then obtain st' where "thread_unlock_accounts st ws rs t = (Ok st' :: ('e, _) result)" "thread_represents st' ?m"
      "num_threads st' = num_threads st"
    using thread_unlock_represents [of st ?m t ws rs, where 'e = 'e] by (auto simp: size_locks_of)
  moreover have "thread_safe n ?m" by (rule thread_safe_subset [of n "held_locks held"]) (use inv m in \<open>auto simp: history_inv_def\<close>)
  ultimately show ?thesis using inv m set_remove1_subset [of "(t, ws, rs)" held] by (auto simp: history_inv_def)
qed

lemma grants_conflict:
  "grants (held_locks held) n ws rs t \<longleftrightarrow> t < n \<and> (\<forall>h\<in>set held. \<not> threads_conflict (t, ws, rs) h)"
proof -
  let ?ok = "\<lambda>h. (\<forall>a\<in>set ws. \<forall>t' w'. (a, t', w') \<in># locks_of h \<longrightarrow> t' = t)
    \<and> (\<forall>a\<in>set rs. \<forall>t'. (a, t', True) \<in># locks_of h \<longrightarrow> t' = t)"
  have "?ok h \<longleftrightarrow> \<not> threads_conflict (t, ws, rs) h" for h
    by (cases h) (auto simp: all_bool_eq)
  moreover have "(\<forall>a\<in>set ws. allows (held_locks held) a True t) \<and> (\<forall>a\<in>set rs. allows (held_locks held) a False t)
    \<longleftrightarrow> (\<forall>h\<in>set held. ?ok h)"
    unfolding allows_write allows_read in_held_locks by blast
  ultimately show ?thesis by (simp only: grants_def)
qed

lemma history_lock_step:
  assumes inv: "history_inv n st held" and sel: "selects_member n (sel :: _ \<Rightarrow> ('e, _) result)"
    and size: "sum_list (map lock_size held) + (length ws + length rs) < 2 ^ 32"
  shows "if \<exists>t<n. bit allowed t \<and> (\<forall>h\<in>set held. \<not> threads_conflict (t, ws, rs) h)
    then \<exists>t st'. thread_try_lock_accounts st ws rs allowed sel = Ok (Some t, st') \<and> t < n \<and> bit allowed t
      \<and> (\<forall>h\<in>set held. \<not> threads_conflict (t, ws, rs) h) \<and> history_inv n st' ((t, ws, rs) # held)
    else thread_try_lock_accounts st ws rs allowed sel = Ok (None, st)"
proof -
  let ?m = "held_locks held"
  have n: "num_threads st = n" and rep: "thread_represents st ?m" and safe: "thread_safe (num_threads st) ?m"
    and le: "num_threads st \<le> 64" and hd: "\<forall>h\<in>set held. fst h < n"
    using inv by (auto simp: history_inv_def)
  have small: "size ?m + (length ws + length rs) < 2 ^ 32" using size by (simp add: size_held_locks)
  have next_inv: "history_inv n st' ((t, ws, rs) # held)"
    if "grants ?m n ws rs t" "thread_represents st' (?m + locks_of (t, ws, rs))" "num_threads st' = n" for t st'
  proof -
    have "thread_safe n (?m + locks_of (t, ws, rs))" using grants_safe safe that(1) n by blast
    then show ?thesis using that small le n hd
      by (auto simp: history_inv_def size_locks_of union_commute grants_def)
  qed
  show ?thesis
    using thread_try_lock_represents [OF rep safe le sel [folded n] small, of allowed] next_inv
    unfolding n grants_conflict by (auto split: if_splits)
qed

lemma thread_history_inv: "thread_history n st held \<Longrightarrow> history_inv n st held"
proof (induction rule: thread_history.induct)
  case (threads_start st)
  then show ?case
    by (auto simp: history_inv_def thread_aware_new_def assert_that_def MAX_THREADS_def thread_represents_empty
        thread_safe_def result_simps split: if_splits)
next
  case (threads_lock st held ws rs allowed sel t st')
  then show ?case using history_lock_step [OF threads_lock.IH threads_lock.hyps(3,4), of allowed] by (auto split: if_splits)
next
  case (threads_unlock st held t ws rs st')
  then show ?case using history_unlock_step [OF threads_unlock.IH threads_unlock.hyps(2), where 'e = unit] by auto
qed

lemma history_inv_separate:
  assumes "history_inv n st held" and h: "h \<in> set held" "h' \<in> set held"
  shows "\<not> threads_conflict h h'"
proof
  assume c: "threads_conflict h h'"
  have safe: "thread_safe n (held_locks held)" using assms(1) by (simp add: history_inv_def)
  obtain t ws rs t' ws' rs' where eq: "h = (t, ws, rs)" "h' = (t', ws', rs')" by (metis prod_cases3)
  from c obtain a w w' where "(a, t, w) \<in># locks_of h" "(a, t', w') \<in># locks_of h'" "w \<or> w'" "t \<noteq> t'"
    unfolding eq by (auto split: if_splits) (metis (full_types))+
  then show False using thread_safe_eq [OF safe, of a t w t' w'] h by (auto simp: in_held_locks)
qed

text \<open>
  C9: the scheduler's locks keep transactions on different threads apart. In every state that granting and
  releasing requests can reach, no two transactions in flight on different threads share an account
  that one of them writes; releasing any of them succeeds (none of the assertions and panics of the
  unlocking code can be met); and when nothing is in flight the table is empty, so no lock is ever
  leaked.
\<close>

theorem thread_aware_locks_safe:
  assumes "thread_history n st held"
  shows "(\<forall>h\<in>set held. \<forall>h'\<in>set held. \<not> threads_conflict h h')
    \<and> (\<forall>(t, ws, rs)\<in>set held. \<exists>st'. thread_unlock_accounts st ws rs t = (Ok st' :: (unit, _) result))
    \<and> (held = [] \<longrightarrow> locks st = (\<lambda>_. None))"
proof -
  have inv: "history_inv n st held" by (rule thread_history_inv [OF assms])
  then have "\<forall>h\<in>set held. \<forall>h'\<in>set held. \<not> threads_conflict h h'" using history_inv_separate by blast
  moreover have "\<forall>(t, ws, rs)\<in>set held. \<exists>st'. thread_unlock_accounts st ws rs t = (Ok st' :: (unit, _) result)"
    using history_unlock_step [OF inv, where 'e = unit] by blast
  moreover have "held = [] \<longrightarrow> locks st = (\<lambda>_. None)"
    using inv thread_represents_empty [of st] by (auto simp: history_inv_def)
  ultimately show ?thesis by blast
qed

text \<open>The selector that takes the first thread, and a table in which one transaction is in flight.\<close>

lemma selects_first: "selects_member n (\<lambda>s. Ok (trailing_zeros s) :: (unit, thread_id) result)"
  unfolding selects_member_def using lowest_bit by (metis bit_0_eq bot_apply bot_bool_def)

lemma one_in_flight:
  obtains st t where "t < 2" and "thread_history 2 st [(t, [1], [2])]"
proof -
  let ?st = "\<lparr>num_threads = 2, locks = (\<lambda>_. None)\<rparr>"
  have start: "thread_history 2 ?st []"
    by (rule threads_start) (simp add: thread_aware_new_def assert_that_def MAX_THREADS_def)
  have "\<exists>t<2. bit (ts_any 2) t" by (intro exI [of _ 0]) (simp add: bit_ts_any)
  then obtain t st' where "thread_try_lock_accounts ?st [1] [2] (ts_any 2) (\<lambda>s. Ok (trailing_zeros s) :: (unit, _) result) = Ok (Some t, st')"
      "t < 2"
    using history_lock_step [OF thread_history_inv [OF start] selects_first, of "[1]" "[2]" "ts_any 2"] by (auto split: if_splits)
  then show thesis using that threads_lock [OF start _ selects_first] by force
qed

theorem thread_aware_locks_safe_witness:
  "\<exists>st t. thread_history 2 st [(t, [1], [2])]
     \<and> (\<exists>st'. thread_unlock_accounts st [1] [2] t = (Ok st' :: (unit, _) result))"
proof -
  obtain st t where h: "thread_history 2 st [(t, [1], [2])]" by (rule one_in_flight)
  then show ?thesis using thread_aware_locks_safe [OF h] by auto
qed

text \<open>
  C11: the bit-set table implements its specification, the list of transactions in flight. Whatever accounts
  a transaction asks for, whichever threads the caller allows and whichever member the selector
  picks, the request never panics; it is refused, leaving the table as it was, exactly when every
  allowed thread would conflict with something in flight on another thread; otherwise the thread
  it returns is allowed and conflict-free.
\<close>

theorem thread_try_lock_refines:
  assumes "thread_history n st held" and "selects_member n (sel :: thread_set \<Rightarrow> (unit, thread_id) result)"
    and "sum_list (map lock_size held) + (length ws + length rs) < 2 ^ 32"
  shows "case thread_try_lock_accounts st ws rs allowed sel of
      Ok (Some t, st') \<Rightarrow> t < n \<and> ts_contains allowed t \<and> (\<forall>h\<in>set held. \<not> threads_conflict (t, ws, rs) h)
    | Ok (None, st') \<Rightarrow> st' = st
        \<and> (\<forall>t<n. ts_contains allowed t \<longrightarrow> (\<exists>h\<in>set held. threads_conflict (t, ws, rs) h))
    | _ \<Rightarrow> False"
proof -
  have inv: "history_inv n st held" by (rule thread_history_inv [OF assms(1)])
  then have "t < n \<Longrightarrow> ts_contains allowed t \<longleftrightarrow> bit allowed t" for t by (auto simp: history_inv_def thread_bits)
  then show ?thesis using history_lock_step [OF inv assms(2,3), of allowed] by (auto split: if_splits)
qed

theorem thread_try_lock_refines_witness:
  "\<exists>st t. thread_history 2 st [(t, [1], [2])]
     \<and> thread_try_lock_accounts st [2] [] (ts_only (1 - t)) (\<lambda>s. Ok (trailing_zeros s) :: (unit, _) result) = Ok (None, st)"
proof -
  obtain st t where t: "t < 2" and h: "thread_history 2 st [(t, [1], [2])]" by (rule one_in_flight)
  have "1 - t \<noteq> t" using t by presburger
  moreover have "ts_contains (ts_only (1 - t)) t' \<longleftrightarrow> t' = 1 - t" if "t' < 2" for t'
    using that by (simp add: thread_bits)
  ultimately have "thread_try_lock_accounts st [2] [] (ts_only (1 - t)) (\<lambda>s. Ok (trailing_zeros s) :: (unit, _) result) = Ok (None, st)"
    using thread_try_lock_refines [OF h selects_first, of "[2]" "[]" "ts_only (1 - t)"]
    by (auto split: result.splits option.splits) (metis not_None_eq)
  with h show ?thesis by blast
qed

section \<open>The interface of the lock table\<close>

text \<open>
  What a scheduler needs of its lock table: an invariant that names the transactions in flight, a
  request that either is granted for an allowed thread without a conflict or is refused because
  there is none, and a release that undoes a grant.
\<close>

locale lock_table =
  fixes invar :: "nat \<Rightarrow> 's \<Rightarrow> in_flight multiset \<Rightarrow> bool"
    and try_lock :: "'s \<Rightarrow> pubkey list \<Rightarrow> pubkey list \<Rightarrow> thread_set \<Rightarrow> (thread_set \<Rightarrow> ('e, thread_id) result) \<Rightarrow>
      ('e, thread_id option \<times> 's) result"
    and unlock :: "'s \<Rightarrow> pubkey list \<Rightarrow> pubkey list \<Rightarrow> thread_id \<Rightarrow> ('e, 's) result"
  assumes try_lock: "invar n st F \<Longrightarrow> selects_member n sel \<Longrightarrow>
      (\<Sum>h\<in>#F. lock_size h) + (length ws + length rs) < 2 ^ 32 \<Longrightarrow>
      (\<exists>t st'. try_lock st ws rs allowed sel = Ok (Some t, st') \<and> t < n \<and> bit allowed t
         \<and> (\<forall>h\<in>#F. \<not> threads_conflict (t, ws, rs) h) \<and> invar n st' (add_mset (t, ws, rs) F))
      \<or> try_lock st ws rs allowed sel = Ok (None, st)
         \<and> (\<forall>t<n. bit allowed t \<longrightarrow> (\<exists>h\<in>#F. threads_conflict (t, ws, rs) h))"
    and unlock: "invar n st (add_mset (t, ws, rs) F) \<Longrightarrow> \<exists>st'. unlock st ws rs t = Ok st' \<and> invar n st' F"
    and separate: "invar n st F \<Longrightarrow> h \<in># F \<Longrightarrow> h' \<in># F \<Longrightarrow> \<not> threads_conflict h h'"
    and in_range: "invar n st F \<Longrightarrow> h \<in># F \<Longrightarrow> fst h < n"
begin

text \<open>Releasing the transactions of a batch one after the other.\<close>

lemma unlock_each:
  assumes "invar n st (image_mset (\<lambda>x. (t, ws x, rs x)) (mset xs) + F)"
  shows "\<exists>st'. for_each (\<lambda>st x. unlock st (ws x) (rs x) t) xs st = Ok st' \<and> invar n st' F"
proof -
  let ?I = "\<lambda>xs st. invar n st (image_mset (\<lambda>x. (t, ws x, rs x)) (mset xs) + F)"
  have "\<exists>st'. for_each (\<lambda>st x. unlock st (ws x) (rs x) t) xs st = Ok st' \<and> ?I [] st'"
    using assms by (rule for_each_invariant) (auto dest: unlock)
  then show ?thesis by simp
qed

text \<open>With nothing in flight every allowed thread can be granted.\<close>

lemma try_lock_idle:
  assumes "invar n st {#}" and "selects_member n sel" and "length ws + length rs < 2 ^ 32" and "t < n" and "bit allowed t"
  shows "\<exists>t st'. try_lock st ws rs allowed sel = Ok (Some t, st')"
  using try_lock [OF assms(1,2), of ws rs allowed] assms(3-5) by auto

end

lemma sum_list_mset: "sum_list (map f xs) = (\<Sum>x\<in>#mset xs. f x)"
  by (induction xs) simp_all

lemma table_inv_mset: "table_inv n st (mset held) \<longleftrightarrow> history_inv n st held"
proof -
  have "history_inv n st held' \<longleftrightarrow> history_inv n st held" if "mset held' = mset held" for held'
  proof -
    have "held_locks held' = held_locks held"
      using that by (simp add: held_locks_def sum_list_mset)
    then show ?thesis using mset_eq_setD [OF that] by (simp add: history_inv_def)
  qed
  then show ?thesis unfolding table_inv_def by blast
qed

interpretation tl: lock_table table_inv thread_try_lock_accounts thread_unlock_accounts
proof
  fix n st F allowed and ws rs :: "pubkey list" and sel :: "thread_set \<Rightarrow> ('e, thread_id) result"
  assume inv: "table_inv n st F" and sel: "selects_member n sel"
    and size: "(\<Sum>h\<in>#F. lock_size h) + (length ws + length rs) < 2 ^ 32"
  obtain held where held: "F = mset held" "history_inv n st held" using inv by (auto simp: table_inv_def)
  have "sum_list (map lock_size held) + (length ws + length rs) < 2 ^ 32"
    using size by (simp add: held(1) sum_list_mset)
  note step = history_lock_step [OF held(2) sel this, of allowed]
  show "(\<exists>t st'. thread_try_lock_accounts st ws rs allowed sel = Ok (Some t, st') \<and> t < n \<and> bit allowed t
         \<and> (\<forall>h\<in>#F. \<not> threads_conflict (t, ws, rs) h) \<and> table_inv n st' (add_mset (t, ws, rs) F))
      \<or> thread_try_lock_accounts st ws rs allowed sel = Ok (None, st)
         \<and> (\<forall>t<n. bit allowed t \<longrightarrow> (\<exists>h\<in>#F. threads_conflict (t, ws, rs) h))"
  proof (cases "\<exists>t<n. bit allowed t \<and> (\<forall>h\<in>set held. \<not> threads_conflict (t, ws, rs) h)")
    case True
    then obtain t st' where "thread_try_lock_accounts st ws rs allowed sel = Ok (Some t, st')" "t < n" "bit allowed t"
        "\<forall>h\<in>set held. \<not> threads_conflict (t, ws, rs) h" "history_inv n st' ((t, ws, rs) # held)"
      using step by auto
    moreover have "table_inv n st' (add_mset (t, ws, rs) F)"
      using calculation(5) table_inv_mset [of n st' "(t, ws, rs) # held"] held(1) by simp
    ultimately show ?thesis unfolding held(1) set_mset_mset by blast
  next
    case False
    then show ?thesis using step unfolding held(1) set_mset_mset by auto
  qed
next
  fix n st t F and ws rs :: "pubkey list" assume "table_inv n st (add_mset (t, ws, rs) F)"
  moreover obtain held where "F = mset held" by (metis ex_mset)
  ultimately have "history_inv n st ((t, ws, rs) # held)" using table_inv_mset [of n st "(t, ws, rs) # held"] by simp
  from history_unlock_step [OF this, of t ws rs, where 'e = 'e]
  show "\<exists>st'. thread_unlock_accounts st ws rs t = (Ok st' :: ('e, _) result) \<and> table_inv n st' F"
    using \<open>F = mset held\<close> table_inv_mset by auto
next
  fix n st F h h' assume "table_inv n st F" "h \<in># F" "h' \<in># F"
  then show "\<not> threads_conflict h h'" by (auto simp: table_inv_def dest: history_inv_separate)
next
  fix n st F h assume "table_inv n st F" "h \<in># F"
  then show "fst h < n" by (auto simp: table_inv_def history_inv_def)
qed

end
