(* ===== verification/Greedy_Scheduler.thy ===== *)
theory Greedy_Scheduler
  imports Transaction_Container Thread_Aware_Locks
begin

text \<open>
  The greedy transaction scheduler of the banking stage
  (\<^verbatim>\<open>core/src/banking_stage/transaction_scheduler/greedy_scheduler.rs\<close>) with what it uses: the
  in-flight tracker (\<^verbatim>\<open>in_flight_tracker.rs\<close>), the set of accounts of the current batches
  (\<^verbatim>\<open>read_write_account_set.rs\<close>), the batches and the choice of a thread (\<^verbatim>\<open>prio_graph_scheduler.rs\<close>),
  and the messages to and from the workers (\<^verbatim>\<open>scheduler_messages.rs\<close>). Every assertion, panic,
  \<open>unwrap\<close> and index of the source is a \<open>Panic\<close>; a closed channel is an \<open>Err\<close>.
\<close>

section \<open>Batches in flight\<close>

record batch_entry =
  be_thread_id :: thread_id
  be_num_transactions :: nat
  be_total_cus :: nat

record in_flight_tracker =
  num_in_flight_per_thread :: "nat list"
  cus_in_flight_per_thread :: "nat list"
  tr_batches :: "nat \<Rightarrow> batch_entry option"
  batch_id_generator :: nat

definition tracker_new :: "nat \<Rightarrow> in_flight_tracker" where
  "tracker_new n =
     \<lparr>num_in_flight_per_thread = replicate n 0, cus_in_flight_per_thread = replicate n 0,
      tr_batches = (\<lambda>_. None), batch_id_generator = 0\<rparr>"

text \<open>Sums and differences are 64 bits wide and wrap, as in a build without overflow checks.\<close>

definition add_u64 :: "nat \<Rightarrow> nat \<Rightarrow> nat" where "add_u64 a b = (a + b) mod 2 ^ 64"

definition sub_u64 :: "nat \<Rightarrow> nat \<Rightarrow> nat" where "sub_u64 a b = (a + 2 ^ 64 - b mod 2 ^ 64) mod 2 ^ 64"

definition track_batch ::
  "nat \<Rightarrow> nat \<Rightarrow> thread_id \<Rightarrow> in_flight_tracker \<Rightarrow> (scheduler_error, nat \<times> in_flight_tracker) result" where
  "track_batch num_transactions total_cus thread_id tr =
     (let (batch_id, g) = id_generator_next (batch_id_generator tr);
          nums = num_in_flight_per_thread tr; cus = cus_in_flight_per_thread tr in
      rbind (assert_that (thread_id < length nums)) (\<lambda>_.
      rbind (assert_that (thread_id < length cus)) (\<lambda>_.
      Ok (batch_id,
        \<lparr>num_in_flight_per_thread = nums[thread_id := add_u64 (nums ! thread_id) num_transactions],
         cus_in_flight_per_thread = cus[thread_id := add_u64 (cus ! thread_id) total_cus],
         tr_batches = (tr_batches tr)(batch_id \<mapsto>
           \<lparr>be_thread_id = thread_id, be_num_transactions = num_transactions, be_total_cus = total_cus\<rparr>),
         batch_id_generator = g\<rparr>))))"

definition tracker_complete_batch :: "nat \<Rightarrow> in_flight_tracker \<Rightarrow> (scheduler_error, thread_id \<times> in_flight_tracker) result" where
  "tracker_complete_batch batch_id tr =
     (case tr_batches tr batch_id of
        None \<Rightarrow> Panic
      | Some e \<Rightarrow>
          let thread_id = be_thread_id e; nums = num_in_flight_per_thread tr; cus = cus_in_flight_per_thread tr in
          rbind (assert_that (thread_id < length nums)) (\<lambda>_.
          rbind (assert_that (thread_id < length cus)) (\<lambda>_.
          Ok (thread_id,
            tr\<lparr>num_in_flight_per_thread := nums[thread_id := sub_u64 (nums ! thread_id) (be_num_transactions e)],
               cus_in_flight_per_thread := cus[thread_id := sub_u64 (cus ! thread_id) (be_total_cus e)],
               tr_batches := (tr_batches tr)(batch_id := None)\<rparr>))))"

section \<open>Accounts of the current batches\<close>

record read_write_account_set =
  read_set :: "pubkey set"
  write_set :: "pubkey set"

definition account_set_clear :: read_write_account_set where
  "account_set_clear = \<lparr>read_set = {}, write_set = {}\<rparr>"

definition can_read :: "read_write_account_set \<Rightarrow> pubkey \<Rightarrow> bool" where
  "can_read s key \<longleftrightarrow> key \<notin> write_set s"

definition can_write :: "read_write_account_set \<Rightarrow> pubkey \<Rightarrow> bool" where
  "can_write s key \<longleftrightarrow> key \<notin> write_set s \<and> key \<notin> read_set s"

definition add_read :: "pubkey \<Rightarrow> read_write_account_set \<Rightarrow> bool \<times> read_write_account_set" where
  "add_read key s = (can_read s key, s\<lparr>read_set := insert key (read_set s)\<rparr>)"

definition add_write :: "pubkey \<Rightarrow> read_write_account_set \<Rightarrow> bool \<times> read_write_account_set" where
  "add_write key s = (can_write s key, s\<lparr>write_set := insert key (write_set s)\<rparr>)"

definition check_locks :: "read_write_account_set \<Rightarrow> svm_message \<Rightarrow> bool" where
  "check_locks s message =
     list_all (\<lambda>(key, writable). if writable then can_write s key else can_read s key)
       (accounts_with_is_writable message)"

definition take_locks :: "svm_message \<Rightarrow> read_write_account_set \<Rightarrow> bool \<times> read_write_account_set" where
  "take_locks message s =
     foldl (\<lambda>(all_available, s) (key, writable).
         let (available, s) = (if writable then add_write key s else add_read key s)
         in (all_available \<and> available, s))
       (True, s) (accounts_with_is_writable message)"

section \<open>Batches being filled\<close>

record batches =
  bt_ids :: "transaction_id list list"
  bt_transactions :: "svm_message list list"
  bt_max_ages :: "max_age list list"
  bt_total_cus :: "nat list"

definition batches_new :: "nat \<Rightarrow> batches" where
  "batches_new n =
     \<lparr>bt_ids = replicate n [], bt_transactions = replicate n [], bt_max_ages = replicate n [], bt_total_cus = replicate n 0\<rparr>"

text \<open>\<open>take_batch\<close>, for an index below the number of threads.\<close>

definition take_batch ::
  "thread_id \<Rightarrow> batches \<Rightarrow> (transaction_id list \<times> svm_message list \<times> max_age list \<times> nat) \<times> batches" where
  "take_batch thread_id b =
     ((bt_ids b ! thread_id, bt_transactions b ! thread_id, bt_max_ages b ! thread_id, bt_total_cus b ! thread_id),
      \<lparr>bt_ids = (bt_ids b)[thread_id := []], bt_transactions = (bt_transactions b)[thread_id := []],
       bt_max_ages = (bt_max_ages b)[thread_id := []], bt_total_cus = (bt_total_cus b)[thread_id := 0]\<rparr>)"

text \<open>The first minimum, as \<open>Iterator::min_by\<close> returns it.\<close>

definition min_by :: "('a \<Rightarrow> 'a \<Rightarrow> bool) \<Rightarrow> 'a list \<Rightarrow> 'a option" where
  "min_by gt xs =
     (case xs of [] \<Rightarrow> None | x # xs \<Rightarrow> Some (foldl (\<lambda>a b. if gt a b then b else a) x xs))"

definition select_thread ::
  "nat list \<Rightarrow> nat list \<Rightarrow> svm_message list list \<Rightarrow> nat list \<Rightarrow> thread_set \<Rightarrow> (scheduler_error, thread_id) result" where
  "select_thread batch_cus_per_thread in_flight_cus_per_thread batches_per_thread in_flight_per_thread thread_set =
     (let threads = contained_threads_iter thread_set in
      rbind (assert_that (list_all (\<lambda>t. t < length batch_cus_per_thread \<and> t < length in_flight_cus_per_thread
         \<and> t < length batches_per_thread \<and> t < length in_flight_per_thread) threads)) (\<lambda>_.
      case min_by (\<lambda>(_, cus, num) (_, cus', num'). cus' < cus \<or> cus' = cus \<and> num' < num)
          (map (\<lambda>t. (t, add_u64 (batch_cus_per_thread ! t) (in_flight_cus_per_thread ! t),
                     add_u64 (length (batches_per_thread ! t)) (in_flight_per_thread ! t))) threads) of
        None \<Rightarrow> Panic
      | Some (t, _) \<Rightarrow> Ok t))"

section \<open>Messages between the scheduler and its workers\<close>

record consume_work =
  cw_batch_id :: nat
  cw_ids :: "transaction_id list"
  cw_transactions :: "svm_message list"
  cw_max_ages :: "max_age list"

record finished_consume_work =
  fw_work :: consume_work
  fw_retryable_indexes :: "nat list"

datatype transaction_scheduling_error = Filtered | UnschedulableConflicts

record transaction_scheduling_info =
  si_thread_id :: thread_id
  si_transaction :: svm_message
  si_max_age :: max_age
  si_cost :: nat

record scheduling_summary =
  sum_num_scheduled :: nat
  sum_num_unschedulable :: nat
  sum_num_filtered_out :: nat
  sum_filter_time_us :: nat

definition scheduling_summary_default :: scheduling_summary where
  "scheduling_summary_default =
     \<lparr>sum_num_scheduled = 0, sum_num_unschedulable = 0, sum_num_filtered_out = 0, sum_filter_time_us = 0\<rparr>"

section \<open>The greedy scheduler\<close>

record greedy_config =
  target_scheduled_cus :: nat
  max_scanned_transactions_per_scheduling_pass :: nat
  target_transactions_per_batch :: nat

text \<open>
  The channels belong to a library: the scheduler keeps the number of its senders, the works it
  sends are returned as a list of pairs of thread and work, and the parameter \<open>connected\<close> tells
  for which threads the other end of the channel is alive, which decides whether sending succeeds.
\<close>

record greedy_scheduler =
  gs_tracker :: in_flight_tracker
  gs_locks :: thread_aware_account_locks
  gs_num_senders :: nat
  gs_working_set :: read_write_account_set
  gs_unschedulables :: "transaction_priority_id list"
  gs_config :: greedy_config

definition greedy_new :: "nat \<Rightarrow> greedy_config \<Rightarrow> (scheduler_error, greedy_scheduler) result" where
  "greedy_new n config =
     rbind (assert_that (0 < n)) (\<lambda>_.
     rbind (assert_that (n \<le> MAX_THREADS)) (\<lambda>_.
     rbind (thread_aware_new n) (\<lambda>l.
     Ok \<lparr>gs_tracker = tracker_new n, gs_locks = l, gs_num_senders = n, gs_working_set = account_set_clear,
         gs_unschedulables = [], gs_config = config\<rparr>)))"

definition write_account_locks :: "svm_message \<Rightarrow> pubkey list" where
  "write_account_locks tx = map fst (filter snd (accounts_with_is_writable tx))"

definition read_account_locks :: "svm_message \<Rightarrow> pubkey list" where
  "read_account_locks tx = map fst (filter (\<lambda>kw. \<not> snd kw) (accounts_with_is_writable tx))"

type_synonym sent = "(thread_id \<times> consume_work) list"

definition send_batch ::
  "(thread_id \<Rightarrow> bool) \<Rightarrow> greedy_scheduler \<Rightarrow> batches \<Rightarrow> thread_id \<Rightarrow>
   (scheduler_error, nat \<times> greedy_scheduler \<times> batches \<times> sent) result" where
  "send_batch connected st b thread_index =
     rbind (assert_that (thread_index < length (bt_ids b))) (\<lambda>_.
     if bt_ids b ! thread_index = [] then Ok (0, st, b, [])
     else
       let ((ids, transactions, max_ages, total_cus), b) = take_batch thread_index b in
       rbind (track_batch (length ids) total_cus thread_index (gs_tracker st)) (\<lambda>(batch_id, tr).
       let work = \<lparr>cw_batch_id = batch_id, cw_ids = ids, cw_transactions = transactions, cw_max_ages = max_ages\<rparr> in
       rbind (ensure (connected thread_index) (DisconnectedSendChannel ''consume work sender'')) (\<lambda>_.
       Ok (length ids, st\<lparr>gs_tracker := tr\<rparr>, b, [(thread_index, work)]))))"

fun send_batches_from ::
  "(thread_id \<Rightarrow> bool) \<Rightarrow> thread_id list \<Rightarrow> greedy_scheduler \<Rightarrow> batches \<Rightarrow>
   (scheduler_error, nat \<times> greedy_scheduler \<times> batches \<times> sent) result" where
  "send_batches_from connected [] st b = Ok (0, st, b, [])"
| "send_batches_from connected (t # ts) st b =
     rbind (send_batch connected st b t) (\<lambda>(num, st, b, sent).
     rbind (send_batches_from connected ts st b) (\<lambda>(num', st, b, sent').
     Ok (num + num', st, b, sent @ sent')))"

definition send_batches ::
  "(thread_id \<Rightarrow> bool) \<Rightarrow> greedy_scheduler \<Rightarrow> batches \<Rightarrow>
   (scheduler_error, nat \<times> greedy_scheduler \<times> batches \<times> sent) result" where
  "send_batches connected st b = send_batches_from connected [0..<gs_num_senders st] st b"

definition try_schedule_transaction ::
  "transaction_state \<Rightarrow> (svm_message \<Rightarrow> bool) \<Rightarrow> thread_aware_account_locks \<Rightarrow> thread_set \<Rightarrow>
   (thread_set \<Rightarrow> (scheduler_error, thread_id) result) \<Rightarrow>
   (scheduler_error, (transaction_scheduling_error + transaction_scheduling_info) \<times> transaction_state \<times> thread_aware_account_locks) result" where
  "try_schedule_transaction state pre_lock_filter account_locks schedulable thread_selector =
     rbind (transaction_ttl state) (\<lambda>ttl.
     let transaction = ttl_transaction ttl in
     if \<not> pre_lock_filter transaction then Ok (Inl Filtered, state, account_locks)
     else
       rbind (thread_try_lock_accounts account_locks (write_account_locks transaction) (read_account_locks transaction)
         schedulable thread_selector) (\<lambda>(r, account_locks).
       case r of
         None \<Rightarrow> Ok (Inl UnschedulableConflicts, state, account_locks)
       | Some thread_id \<Rightarrow>
           rbind (transition_to_pending state) (\<lambda>(ttl, state).
           rbind (state_cost state) (\<lambda>cost.
           Ok (Inr \<lparr>si_thread_id = thread_id, si_transaction = ttl_transaction ttl, si_max_age = ttl_max_age ttl,
                   si_cost = cost\<rparr>, state, account_locks)))))"

text \<open>The variables of the scheduling loop.\<close>

record 'q loop_state =
  ls_sched :: greedy_scheduler
  ls_batches :: batches
  ls_container :: "'q container"
  ls_schedulable :: thread_set
  ls_num_scheduled :: nat
  ls_num_sent :: nat
  ls_num_unschedulable :: nat
  ls_num_filtered_out :: nat
  ls_sent :: sent

definition flush :: "(thread_id \<Rightarrow> bool) \<Rightarrow> 'q loop_state \<Rightarrow> (scheduler_error, 'q loop_state) result" where
  "flush connected ls =
     (let st = (ls_sched ls)\<lparr>gs_working_set := account_set_clear\<rparr> in
      rbind (send_batches connected st (ls_batches ls)) (\<lambda>(num, st, b, sent).
      Ok (ls\<lparr>ls_sched := st, ls_batches := b, ls_num_sent := ls_num_sent ls + num, ls_sent := ls_sent ls @ sent\<rparr>)))"

text \<open>A transaction that was granted its locks joins the batch of its thread.\<close>

definition add_to_batch ::
  "thread_id \<Rightarrow> transaction_id \<Rightarrow> svm_message \<Rightarrow> max_age \<Rightarrow> nat \<Rightarrow> batches \<Rightarrow> batches" where
  "add_to_batch t i tx age cost b =
     \<lparr>bt_ids = (bt_ids b)[t := bt_ids b ! t @ [i]], bt_transactions = (bt_transactions b)[t := bt_transactions b ! t @ [tx]],
      bt_max_ages = (bt_max_ages b)[t := bt_max_ages b ! t @ [age]],
      bt_total_cus = (bt_total_cus b)[t := sat_add_u64 (bt_total_cus b ! t) cost]\<rparr>"

definition scheduled ::
  "(thread_id \<Rightarrow> bool) \<Rightarrow> nat \<Rightarrow> transaction_id \<Rightarrow> transaction_scheduling_info \<Rightarrow> 'q loop_state \<Rightarrow>
   (scheduler_error, 'q loop_state) result" where
  "scheduled connected target_cu_per_thread i info ls =
     (let st = ls_sched ls; t = si_thread_id info;
          (available, working_set) = take_locks (si_transaction info) (gs_working_set st) in
      rbind (assert_that available) (\<lambda>_.
      rbind (assert_that (t < length (bt_ids (ls_batches ls)))) (\<lambda>_.
      let ls = ls\<lparr>ls_sched := st\<lparr>gs_working_set := working_set\<rparr>,
                  ls_num_scheduled := sat_add_u64 (ls_num_scheduled ls) 1,
                  ls_batches := add_to_batch t i (si_transaction info) (si_max_age info) (si_cost info) (ls_batches ls)\<rparr> in
      rbind (if target_transactions_per_batch (gs_config st) \<le> length (bt_ids (ls_batches ls) ! t)
             then flush connected ls else Ok ls) (\<lambda>ls.
      let tr = gs_tracker (ls_sched ls) in
      rbind (assert_that (t < length (cus_in_flight_per_thread tr))) (\<lambda>_.
      Ok (if target_cu_per_thread \<le> add_u64 (cus_in_flight_per_thread tr ! t) (bt_total_cus (ls_batches ls) ! t)
          then ls\<lparr>ls_schedulable := ts_remove t (ls_schedulable ls)\<rparr> else ls))))))"

text \<open>The \<open>match\<close> on the outcome of \<open>try_schedule_transaction\<close>.\<close>

definition place_transaction ::
  "(thread_id \<Rightarrow> bool) \<Rightarrow> (svm_message \<Rightarrow> bool) \<Rightarrow> nat \<Rightarrow> transaction_priority_id \<Rightarrow> transaction_state \<Rightarrow> 'q loop_state \<Rightarrow>
   (scheduler_error, 'q loop_state) result" where
  "place_transaction connected pre_lock_filter target_cu_per_thread pid state ls =
     (let i = pid_id pid; st = ls_sched ls; c = ls_container ls in
      rbind (try_schedule_transaction state pre_lock_filter (gs_locks st) (ls_schedulable ls)
        (select_thread (bt_total_cus (ls_batches ls)) (cus_in_flight_per_thread (gs_tracker st))
          (bt_transactions (ls_batches ls)) (num_in_flight_per_thread (gs_tracker st)))) (\<lambda>(r, state, account_locks).
      let c = c\<lparr>id_to_transaction_state := (id_to_transaction_state c)(i \<mapsto> state)\<rparr>;
          ls = ls\<lparr>ls_sched := st\<lparr>gs_locks := account_locks\<rparr>, ls_container := c\<rparr> in
      case r of
        Inl Filtered \<Rightarrow>
          rbind (remove_by_id i c) (\<lambda>c.
          Ok (ls\<lparr>ls_container := c, ls_num_filtered_out := ls_num_filtered_out ls + 1\<rparr>))
      | Inl UnschedulableConflicts \<Rightarrow>
          Ok (ls\<lparr>ls_num_unschedulable := ls_num_unschedulable ls + 1,
                 ls_sched := (ls_sched ls)\<lparr>gs_unschedulables := gs_unschedulables st @ [pid]\<rparr>\<rparr>)
      | Inr info \<Rightarrow> scheduled connected target_cu_per_thread i info ls))"

text \<open>One turn of the loop, for the id that was popped.\<close>

definition schedule_one ::
  "(thread_id \<Rightarrow> bool) \<Rightarrow> (svm_message \<Rightarrow> bool) \<Rightarrow> nat \<Rightarrow> transaction_priority_id \<Rightarrow> 'q loop_state \<Rightarrow>
   (scheduler_error, 'q loop_state) result" where
  "schedule_one connected pre_lock_filter target_cu_per_thread pid ls =
     (case id_to_transaction_state (ls_container ls) (pid_id pid) of
        None \<Rightarrow> Panic
      | Some state \<Rightarrow>
          rbind (transaction_ttl state) (\<lambda>ttl.
          rbind (if check_locks (gs_working_set (ls_sched ls)) (ttl_transaction ttl) then Ok ls else flush connected ls) (\<lambda>ls.
          place_transaction connected pre_lock_filter target_cu_per_thread pid state ls)))"

text \<open>
  The loop. Its first argument is how many transactions may still be scanned, so that it counts
  \<open>num_scanned\<close> down from \<open>max_scanned_transactions_per_scheduling_pass\<close>. It also stops when
  no thread is left, which is the \<open>break\<close> of the source.
\<close>

fun schedule_loop ::
  "'q heap_ops \<Rightarrow> (thread_id \<Rightarrow> bool) \<Rightarrow> (svm_message \<Rightarrow> bool) \<Rightarrow> nat \<Rightarrow> nat \<Rightarrow> 'q loop_state \<Rightarrow>
   (scheduler_error, 'q loop_state) result" where
  "schedule_loop hp connected pre_lock_filter target_cu_per_thread 0 ls = Ok ls"
| "schedule_loop hp connected pre_lock_filter target_cu_per_thread (Suc k) ls =
     (if ts_is_empty (ls_schedulable ls) \<or> container_is_empty hp (ls_container ls) then Ok ls
      else
        case container_pop hp (ls_container ls) of
          (None, c) \<Rightarrow> Panic
        | (Some pid, c) \<Rightarrow>
            rbind (schedule_one connected pre_lock_filter target_cu_per_thread pid (ls\<lparr>ls_container := c\<rparr>))
              (schedule_loop hp connected pre_lock_filter target_cu_per_thread k))"

fun push_all ::
  "'q heap_ops \<Rightarrow> transaction_priority_id list \<Rightarrow> 'q container \<Rightarrow> (scheduler_error, 'q container) result" where
  "push_all hp [] c = Ok c"
| "push_all hp (pid # pids) c = rbind (push_id_into_queue hp pid c) (\<lambda>(_, c). push_all hp pids c)"

definition threads_below_target :: "greedy_scheduler \<Rightarrow> nat \<Rightarrow> thread_set" where
  "threads_below_target st target_cu_per_thread =
     fold (\<lambda>t s. if target_cu_per_thread \<le> cus_in_flight_per_thread (gs_tracker st) ! t then ts_remove t s else s)
       [0..<gs_num_senders st] (ts_any (gs_num_senders st))"

definition schedule ::
  "'q heap_ops \<Rightarrow> (thread_id \<Rightarrow> bool) \<Rightarrow> (svm_message \<Rightarrow> bool) \<Rightarrow> greedy_scheduler \<Rightarrow> 'q container \<Rightarrow>
   (scheduler_error, scheduling_summary \<times> greedy_scheduler \<times> 'q container \<times> sent) result" where
  "schedule hp connected pre_lock_filter st c =
     (let n = gs_num_senders st in
      rbind (assert_that (n \<noteq> 0)) (\<lambda>_.
      let target_cu_per_thread = target_scheduled_cus (gs_config st) div n in
      rbind (assert_that (n \<le> length (cus_in_flight_per_thread (gs_tracker st)))) (\<lambda>_.
      let schedulable = threads_below_target st target_cu_per_thread in
      if ts_is_empty schedulable then Ok (scheduling_summary_default, st, c, [])
      else
        rbind (schedule_loop hp connected pre_lock_filter target_cu_per_thread
            (max_scanned_transactions_per_scheduling_pass (gs_config st))
            \<lparr>ls_sched = st, ls_batches = batches_new n, ls_container = c, ls_schedulable = schedulable,
             ls_num_scheduled = 0, ls_num_sent = 0, ls_num_unschedulable = 0, ls_num_filtered_out = 0, ls_sent = []\<rparr>) (\<lambda>ls.
        rbind (flush connected ls) (\<lambda>ls.
        rbind (assert_that (ls_num_scheduled ls = ls_num_sent ls)) (\<lambda>_.
        let st = ls_sched ls in
        rbind (push_all hp (gs_unschedulables st) (ls_container ls)) (\<lambda>c.
        Ok (\<lparr>sum_num_scheduled = ls_num_scheduled ls, sum_num_unschedulable = ls_num_unschedulable ls,
              sum_num_filtered_out = ls_num_filtered_out ls, sum_filter_time_us = 0\<rparr>,
            st\<lparr>gs_unschedulables := []\<rparr>, c, ls_sent ls))))))))"

section \<open>Completed work\<close>

definition complete_batch ::
  "nat \<Rightarrow> svm_message list \<Rightarrow> greedy_scheduler \<Rightarrow> (scheduler_error, greedy_scheduler) result" where
  "complete_batch batch_id transactions st =
     rbind (tracker_complete_batch batch_id (gs_tracker st)) (\<lambda>(thread_id, tr).
     rbind (for_each (\<lambda>l tx. thread_unlock_accounts l (write_account_locks tx) (read_account_locks tx) thread_id)
       transactions (gs_locks st)) (\<lambda>l.
     Ok (st\<lparr>gs_tracker := tr, gs_locks := l\<rparr>)))"

text \<open>The loop over the transactions of a finished batch, with the indexes still to be retried.\<close>

fun reinsert ::
  "'q heap_ops \<Rightarrow> nat \<Rightarrow> nat list \<Rightarrow> (transaction_id \<times> svm_message \<times> max_age) list \<Rightarrow> 'q container \<Rightarrow>
   (scheduler_error, 'q container) result" where
  "reinsert hp index retryable [] c = Ok c"
| "reinsert hp index retryable ((i, tx, age) # rest) c =
     (if retryable \<noteq> [] \<and> hd retryable = index then
        rbind (retry_transaction hp i \<lparr>ttl_transaction = tx, ttl_max_age = age\<rparr> c)
          (reinsert hp (index + 1) (tl retryable) rest)
      else rbind (remove_by_id i c) (reinsert hp (index + 1) retryable rest))"

datatype try_recv = Received finished_consume_work | Recv_Empty | Recv_Disconnected

definition try_receive_completed ::
  "'q heap_ops \<Rightarrow> try_recv \<Rightarrow> greedy_scheduler \<Rightarrow> 'q container \<Rightarrow>
   (scheduler_error, (nat \<times> nat) \<times> greedy_scheduler \<times> 'q container) result" where
  "try_receive_completed hp r st c =
     (case r of
        Received finished \<Rightarrow>
          let work = fw_work finished; ids = cw_ids work; transactions = cw_transactions work;
              retryable = fw_retryable_indexes finished in
          rbind (complete_batch (cw_batch_id work) transactions st) (\<lambda>st.
          rbind (reinsert hp 0 retryable (zip ids (zip transactions (cw_max_ages work))) c) (\<lambda>c.
          Ok ((length ids, length retryable), st, c)))
      | Recv_Empty \<Rightarrow> Ok ((0, 0), st, c)
      | Recv_Disconnected \<Rightarrow> Err (DisconnectedRecvChannel ''finished consume work''))"

text \<open>The loop over the messages the channel holds; after them it is empty or disconnected.\<close>

fun receive_completed ::
  "'q heap_ops \<Rightarrow> try_recv list \<Rightarrow> greedy_scheduler \<Rightarrow> 'q container \<Rightarrow>
   (scheduler_error, (nat \<times> nat) \<times> greedy_scheduler \<times> 'q container) result" where
  "receive_completed hp [] st c = Ok ((0, 0), st, c)"
| "receive_completed hp (r # rs) st c =
     rbind (try_receive_completed hp r st c) (\<lambda>((num, retry), st, c).
     if num = 0 then Ok ((0, 0), st, c)
     else
       rbind (receive_completed hp rs st c) (\<lambda>((num', retry'), st, c).
       Ok ((sat_add_u64 num num', sat_add_u64 retry retry'), st, c)))"

end
