(* ===== verification/Greedy_Loop.thy ===== *)
theory Greedy_Loop
  imports Greedy_Scheduler
begin

text \<open>
  The invariant of the greedy scheduler's loop, proved for each of its parts: the selector of a thread, the
  working set of accounts, the in-flight tracker (\<open>works_tracked\<close> relates its counts and entries to the works
  sent), sending batches, placing one transaction and the loop itself. \<open>safely\<close> states that a
  computation does not panic, fails only when a channel is closed, and what its results satisfy. The lock
  table is used through the laws of the locale \<open>lock_table\<close>, the queue through \<open>heap_laws\<close>.
\<close>

section \<open>Definitions\<close>

text \<open>The batch id that the generator returns after \<open>k\<close> others.\<close>

definition nth_batch_id :: "nat \<Rightarrow> nat" where "nth_batch_id k = (2 ^ 64 - k) mod 2 ^ 64"

definition works_tracked :: "nat \<Rightarrow> in_flight_tracker \<Rightarrow> sent \<Rightarrow> nat \<Rightarrow> bool" where
  "works_tracked n tr works k \<longleftrightarrow>
     length (num_in_flight_per_thread tr) = n \<and> length (cus_in_flight_per_thread tr) = n
     \<and> distinct (map (\<lambda>x. cw_batch_id (snd x)) works)
     \<and> (\<forall>i. tr_batches tr i \<noteq> None \<longleftrightarrow> i \<in> (\<lambda>x. cw_batch_id (snd x)) ` set works)
     \<and> (\<forall>(t, w)\<in>set works. t < n \<and> (\<exists>e. tr_batches tr (cw_batch_id w) = Some e
          \<and> be_thread_id e = t \<and> be_num_transactions e = length (cw_ids w)))
     \<and> batch_id_generator tr = nth_batch_id k \<and> k < 2 ^ 64
     \<and> (\<forall>i. tr_batches tr i \<noteq> None \<longrightarrow> (\<exists>j<k. i = nth_batch_id j))
     \<and> (\<forall>t<n. num_in_flight_per_thread tr ! t = sum_list (map (\<lambda>(t', w). if t' = t then length (cw_ids w) else 0) works) mod 2 ^ 64)"

text \<open>Without a panic, with an error only when \<open>C\<close> does not hold, and with the results satisfying \<open>Q\<close>.\<close>

definition safely :: "bool \<Rightarrow> ('e, 'a) result \<Rightarrow> ('a \<Rightarrow> bool) \<Rightarrow> bool" where
  "safely C r Q \<longleftrightarrow> (case r of Ok x \<Rightarrow> Q x | Err _ \<Rightarrow> \<not> C | Panic \<Rightarrow> False)"

definition flight :: "thread_id \<Rightarrow> svm_message \<Rightarrow> in_flight" where
  "flight t tx = (t, write_account_locks tx, read_account_locks tx)"

definition work_flights :: "sent \<Rightarrow> in_flight multiset" where
  "work_flights works = (\<Sum>(t, w)\<leftarrow>works. image_mset (flight t) (mset (cw_transactions w)))"

definition work_ids :: "sent \<Rightarrow> transaction_id multiset" where
  "work_ids works = (\<Sum>(t, w)\<leftarrow>works. mset (cw_ids w))"

definition batch_flights :: "nat \<Rightarrow> batches \<Rightarrow> in_flight multiset" where
  "batch_flights n b = (\<Sum>t<n. image_mset (flight t) (mset (bt_transactions b ! t)))"

definition batch_ids :: "nat \<Rightarrow> batches \<Rightarrow> transaction_id multiset" where
  "batch_ids n b = (\<Sum>t<n. mset (bt_ids b ! t))"

definition work_ok :: "consume_work \<Rightarrow> bool" where
  "work_ok w \<longleftrightarrow> length (cw_transactions w) = length (cw_ids w) \<and> length (cw_max_ages w) = length (cw_ids w)
     \<and> cw_ids w \<noteq> [] \<and> (\<forall>tx\<in>set (cw_transactions w). good_tx tx)"

definition batches_ok :: "nat \<Rightarrow> batches \<Rightarrow> bool" where
  "batches_ok n b \<longleftrightarrow> length (bt_ids b) = n \<and> length (bt_transactions b) = n \<and> length (bt_max_ages b) = n
     \<and> length (bt_total_cus b) = n
     \<and> (\<forall>t<n. length (bt_transactions b ! t) = length (bt_ids b ! t) \<and> length (bt_max_ages b ! t) = length (bt_ids b ! t)
          \<and> (\<forall>tx\<in>set (bt_transactions b ! t). good_tx tx))"

definition sched_inv :: "nat \<Rightarrow> greedy_scheduler \<Rightarrow> batches \<Rightarrow> sent \<Rightarrow> nat \<Rightarrow> bool" where
  "sched_inv n st b works k \<longleftrightarrow> gs_num_senders st = n \<and> 0 < n \<and> n \<le> 64
     \<and> table_inv n (gs_locks st) (work_flights works + batch_flights n b)
     \<and> works_tracked n (gs_tracker st) works k \<and> batches_ok n b \<and> (\<forall>(t, w)\<in>set works. work_ok w)"

text \<open>Sending a batch moves its transactions from the batches to the works in flight.\<close>

definition frame :: "greedy_scheduler \<Rightarrow> greedy_scheduler \<Rightarrow> bool" where
  "frame st st' \<longleftrightarrow> gs_locks st' = gs_locks st \<and> gs_working_set st' = gs_working_set st
     \<and> gs_unschedulables st' = gs_unschedulables st \<and> gs_config st' = gs_config st"

definition moved :: "nat \<Rightarrow> greedy_scheduler \<Rightarrow> batches \<Rightarrow> sent \<Rightarrow> nat \<Rightarrow> nat \<times> greedy_scheduler \<times> batches \<times> sent \<Rightarrow> bool" where
  "moved n st b works k r \<longleftrightarrow> (case r of (num, st', b', sent) \<Rightarrow>
     frame st st' \<and> num = size (work_ids sent) \<and> work_ids sent + batch_ids n b' = batch_ids n b
     \<and> (\<exists>k'. sched_inv n st' b' (works @ sent) k' \<and> k' + size (batch_ids n b') \<le> k + size (batch_ids n b)))"

text \<open>
  The invariant of the loop, for the works \<open>fl\<close> in flight before it and the popped entries \<open>X\<close>: what
  is sent and what is batched holds its locks and is pending in the container, the counters agree with
  it, and \<open>K\<close> bounds the batches sent so far together with those that can still follow.
\<close>

definition loop_ids :: "nat \<Rightarrow> 'q loop_state \<Rightarrow> transaction_id multiset" where
  "loop_ids n ls = work_ids (ls_sent ls) + batch_ids n (ls_batches ls)"

definition loop_inv ::
  "('q \<Rightarrow> transaction_priority_id multiset) \<Rightarrow> nat \<Rightarrow> sent \<Rightarrow> nat \<Rightarrow> transaction_priority_id multiset \<Rightarrow> 'q loop_state \<Rightarrow> bool" where
  "loop_inv items n fl K X ls \<longleftrightarrow>
     (\<exists>k. sched_inv n (ls_sched ls) (ls_batches ls) (fl @ ls_sent ls) k
        \<and> k + size (batch_ids n (ls_batches ls)) + size (items (priority_queue (ls_container ls)) + X) \<le> K)
     \<and> container_inv items (ls_container ls) (mset (gs_unschedulables (ls_sched ls)) + X) (work_ids fl + loop_ids n ls)
     \<and> ls_num_sent ls = size (work_ids (ls_sent ls)) \<and> ls_num_scheduled ls = size (loop_ids n ls)
     \<and> (\<forall>t. bit (ls_schedulable ls) t \<longrightarrow> t < n)"

definition flushed :: "nat \<Rightarrow> 'q loop_state \<Rightarrow> 'q loop_state \<Rightarrow> bool" where
  "flushed n ls ls' \<longleftrightarrow> gs_working_set (ls_sched ls') = account_set_clear \<and> gs_locks (ls_sched ls') = gs_locks (ls_sched ls)
     \<and> gs_unschedulables (ls_sched ls') = gs_unschedulables (ls_sched ls) \<and> gs_config (ls_sched ls') = gs_config (ls_sched ls)
     \<and> ls_container ls' = ls_container ls \<and> ls_schedulable ls' = ls_schedulable ls \<and> loop_ids n ls' = loop_ids n ls
     \<and> batch_ids n (ls_batches ls') = {#} \<and> batch_flights n (ls_batches ls') = {#}"

text \<open>What one turn of the loop keeps: the invariant, and every id that was sent or batched.\<close>

definition loop_step ::
  "('q \<Rightarrow> transaction_priority_id multiset) \<Rightarrow> nat \<Rightarrow> sent \<Rightarrow> nat \<Rightarrow> 'q loop_state \<Rightarrow> 'q loop_state \<Rightarrow> bool" where
  "loop_step items n fl K ls ls' \<longleftrightarrow> loop_inv items n fl K {#} ls' \<and> loop_ids n ls \<subseteq># loop_ids n ls'"

text \<open>
  A turn never panics and keeps the invariant; the transaction is sent or batched when it passes the
  filter and on some schedulable thread it conflicts with nothing in flight.
\<close>

definition loop_flights :: "nat \<Rightarrow> sent \<Rightarrow> 'q loop_state \<Rightarrow> in_flight multiset" where
  "loop_flights n fl ls = work_flights (fl @ ls_sent ls) + batch_flights n (ls_batches ls)"

text \<open>The entry can be placed: it passes the filter and has a schedulable thread where nothing conflicts with it.\<close>

definition can_go :: "nat \<Rightarrow> sent \<Rightarrow> (svm_message \<Rightarrow> bool) \<Rightarrow> 'q loop_state \<Rightarrow> transaction_priority_id \<Rightarrow> bool" where
  "can_go n fl pre_lock_filter ls pid \<longleftrightarrow> gs_working_set (ls_sched ls) = account_set_clear \<and>
     (\<exists>ttl packet priority cost fwd t.
        id_to_transaction_state (ls_container ls) (pid_id pid) = Some (Unprocessed ttl packet priority cost fwd)
        \<and> pre_lock_filter (ttl_transaction ttl) \<and> t < n \<and> bit (ls_schedulable ls) t
        \<and> (\<forall>h\<in>#loop_flights n fl ls. \<not> threads_conflict (flight t (ttl_transaction ttl)) h))"

section \<open>The selector\<close>

lemma min_by_member: "xs \<noteq> [] \<Longrightarrow> \<exists>y\<in>set xs. min_by gt xs = Some y"
proof -
  have "foldl (\<lambda>a b. if gt a b then b else a) x ys \<in> set (x # ys)" for x ys
    by (induction ys arbitrary: x) auto
  then show "xs \<noteq> [] \<Longrightarrow> \<exists>y\<in>set xs. min_by gt xs = Some y"
    by (cases xs) (auto simp: min_by_def)
qed

lemma select_thread_member:
  assumes "length a = n" "length b = n" "length c = n" "length d = n"
  shows "selects_member n (select_thread a b c d)"
  unfolding selects_member_def
proof (intro allI impI)
  fix s :: thread_set assume s: "(\<exists>t. bit s t) \<and> (\<forall>t. bit s t \<longrightarrow> t < n)"
  let ?f = "\<lambda>t. (t, add_u64 (a ! t) (b ! t), add_u64 (length (c ! t)) (d ! t))"
  have iter: "set (contained_threads_iter s) = {t. bit s t}"
    using bit_thread_lt by (auto simp: contained_threads_iter_bits)
  then have "map ?f (contained_threads_iter s) \<noteq> []" using s by force
  from min_by_member [OF this] obtain t where "bit s t"
      "min_by (\<lambda>(_, cus, num) (_, cus', num'). cus' < cus \<or> cus' = cus \<and> num' < num) (map ?f (contained_threads_iter s)) = Some (?f t)"
    using iter by auto
  moreover have "list_all (\<lambda>t. t < length a \<and> t < length b \<and> t < length c \<and> t < length d) (contained_threads_iter s)"
    using s iter assms by (auto simp: list_all_iff)
  ultimately show "\<exists>t'. select_thread a b c d s = Ok t' \<and> bit s t'"
    by (simp add: select_thread_def Let_def assert_that_def)
qed

section \<open>The working set\<close>

lemma take_locks_available:
  assumes "check_locks s tx" and "distinct (account_keys_iter (msg_account_keys tx))"
  shows "fst (take_locks tx s)"
proof -
  have "fst (foldl (\<lambda>(all_available, s) (key, writable).
         let (available, s) = (if writable then add_write key s else add_read key s)
         in (all_available \<and> available, s)) (True, s) kws)"
    if "\<forall>(key, writable)\<in>set kws. if writable then can_write s key else can_read s key" "distinct (map fst kws)" for kws s
    using that
  proof (induction kws arbitrary: s)
    case (Cons kw kws)
    obtain k w where kw: "kw = (k, w)" by (cases kw)
    let ?s = "snd (if w then add_write k s else add_read k s)"
    have "\<forall>(key, writable)\<in>set kws. if writable then can_write ?s key else can_read ?s key"
      using Cons.prems by (force simp: kw add_write_def add_read_def can_read_def can_write_def)
    then show ?case
      using Cons.IH [of ?s] Cons.prems by (auto simp: kw add_write_def add_read_def split: if_splits)
  qed simp
  then show ?thesis
    using assms unfolding take_locks_def check_locks_def list_all_iff keys_of_accounts [symmetric] by blast
qed

lemma check_locks_clear: "check_locks account_set_clear tx"
  by (auto simp: check_locks_def list_all_iff account_set_clear_def can_read_def can_write_def)

section \<open>The tracker\<close>

lemma nth_batch_id_fresh: "j < k \<Longrightarrow> k < 2 ^ 64 \<Longrightarrow> nth_batch_id j \<noteq> nth_batch_id k"
  unfolding nth_batch_id_def by (cases "j = 0") auto

lemma nth_batch_id_Suc: "k + 1 < 2 ^ 64 \<Longrightarrow> (nth_batch_id k + 2 ^ 64 - 1) mod 2 ^ 64 = nth_batch_id (k + 1)"
proof (cases "k = 0")
  case False
  assume k: "k + 1 < 2 ^ 64"
  then have "2 ^ 64 - k + 2 ^ 64 - 1 = (2 ^ 64 - (k + 1)) + (2 ^ 64 :: nat)" by simp
  moreover have "nth_batch_id k = 2 ^ 64 - k" using k False by (simp add: nth_batch_id_def)
  ultimately show ?thesis by (simp only: mod_add_self2 nth_batch_id_def [of "k + 1"])
qed (simp add: nth_batch_id_def)

lemma works_trackedD:
  assumes "works_tracked n tr works k"
  shows "length (num_in_flight_per_thread tr) = n" and "length (cus_in_flight_per_thread tr) = n"
    and "distinct (map (\<lambda>x. cw_batch_id (snd x)) works)"
    and "tr_batches tr i \<noteq> None \<longleftrightarrow> i \<in> (\<lambda>x. cw_batch_id (snd x)) ` set works"
    and "(t, w) \<in> set works \<Longrightarrow> t < n"
    and "(t, w) \<in> set works \<Longrightarrow> \<exists>e. tr_batches tr (cw_batch_id w) = Some e \<and> be_thread_id e = t \<and> be_num_transactions e = length (cw_ids w)"
    and "batch_id_generator tr = nth_batch_id k" and "k < 2 ^ 64"
    and "tr_batches tr i \<noteq> None \<Longrightarrow> \<exists>j<k. i = nth_batch_id j"
    and "t < n \<Longrightarrow> num_in_flight_per_thread tr ! t = sum_list (map (\<lambda>(t', w). if t' = t then length (cw_ids w) else 0) works) mod 2 ^ 64"
  using assms unfolding works_tracked_def by blast+

lemma sub_u64_add: "sub_u64 ((a + b) mod 2 ^ 64) b = a mod 2 ^ 64"
proof -
  have "sub_u64 ((a + b) mod 2 ^ 64) b = ((a + b) mod 2 ^ 64 + (2 ^ 64 - b mod 2 ^ 64)) mod 2 ^ 64"
    unfolding sub_u64_def by (subst Nat.add_diff_assoc) (auto intro: less_imp_le)
  also have "\<dots> = (a + b + (2 ^ 64 - b mod 2 ^ 64)) mod 2 ^ 64" by (rule mod_add_left_eq)
  also have "a + b + (2 ^ 64 - b mod 2 ^ 64) = a + (b div 2 ^ 64 + 1) * 2 ^ 64"
  proof -
    have "b = b div 2 ^ 64 * 2 ^ 64 + b mod 2 ^ 64" by (rule div_mult_mod_eq [symmetric])
    moreover have "b mod 2 ^ 64 < 2 ^ 64" by simp
    ultimately show ?thesis by (simp only: add_mult_distrib)
  qed
  also have "\<dots> mod 2 ^ 64 = a mod 2 ^ 64" by (rule mod_mult_self1)
  finally show ?thesis .
qed

lemma track_batch_tracked:
  assumes tr: "works_tracked n tr works k" and "t < n" and "k + 1 < 2 ^ 64"
  shows "\<exists>tr'. track_batch num cus t tr = Ok (batch_id_generator tr, tr')
    \<and> (\<forall>w. cw_batch_id w = batch_id_generator tr \<longrightarrow> length (cw_ids w) = num \<longrightarrow> works_tracked n tr' (works @ [(t, w)]) (k + 1))"
proof -
  let ?i = "batch_id_generator tr"
  have i: "?i = nth_batch_id k" "k < 2 ^ 64" using tr by (auto simp: works_tracked_def)
  have fresh: "tr_batches tr ?i = None"
  proof (rule ccontr)
    assume "tr_batches tr ?i \<noteq> None"
    then obtain j where "j < k" "?i = nth_batch_id j" using tr unfolding works_tracked_def by blast
    then show False using nth_batch_id_fresh [of j k] i by simp
  qed
  then have new: "?i \<notin> (\<lambda>x. cw_batch_id (snd x)) ` set works" using tr unfolding works_tracked_def by blast
  have g: "(?i + 2 ^ 64 - 1) mod 2 ^ 64 = nth_batch_id (k + 1)" unfolding i(1) by (rule nth_batch_id_Suc [OF assms(3)])
  let ?tr = "\<lparr>num_in_flight_per_thread = (num_in_flight_per_thread tr)[t := add_u64 (num_in_flight_per_thread tr ! t) num],
         cus_in_flight_per_thread = (cus_in_flight_per_thread tr)[t := add_u64 (cus_in_flight_per_thread tr ! t) cus],
         tr_batches = (tr_batches tr)(?i \<mapsto> \<lparr>be_thread_id = t, be_num_transactions = num, be_total_cus = cus\<rparr>),
         batch_id_generator = nth_batch_id (k + 1)\<rparr>"
  have len: "length (num_in_flight_per_thread tr) = n" "length (cus_in_flight_per_thread tr) = n"
    using tr by (simp_all add: works_tracked_def)
  have run: "track_batch num cus t tr = Ok (?i, ?tr)"
    using len assms(2) unfolding track_batch_def id_generator_next_def g by (simp add: assert_that_def Let_def)
  have "works_tracked n ?tr (works @ [(t, w)]) (k + 1)" if w: "cw_batch_id w = ?i" "length (cw_ids w) = num" for w
    unfolding works_tracked_def
  proof (intro conjI)
    show "\<forall>i. tr_batches ?tr i \<noteq> None \<longrightarrow> (\<exists>j<k + 1. i = nth_batch_id j)"
    proof (intro allI impI)
      fix j assume "tr_batches ?tr j \<noteq> None"
      then show "\<exists>l<k + 1. j = nth_batch_id l"
        using works_trackedD(9) [OF tr, of j] i(1) by (cases "j = ?i") (auto intro: less_SucI)
    qed
    show "\<forall>t'<n. num_in_flight_per_thread ?tr ! t' =
        sum_list (map (\<lambda>(t'', w). if t'' = t' then length (cw_ids w) else 0) (works @ [(t, w)])) mod 2 ^ 64"
      using works_trackedD(10) [OF tr] len assms(2) w(2) by (auto simp: nth_list_update add_u64_def mod_simps)
    show "\<forall>(t', w')\<in>set (works @ [(t, w)]). t' < n \<and> (\<exists>e. tr_batches ?tr (cw_batch_id w') = Some e
          \<and> be_thread_id e = t' \<and> be_num_transactions e = length (cw_ids w'))"
      using works_trackedD(5,6) [OF tr] assms(2) w new by (fastforce simp: image_iff)
    show "\<forall>i. tr_batches ?tr i \<noteq> None \<longleftrightarrow> i \<in> (\<lambda>x. cw_batch_id (snd x)) ` set (works @ [(t, w)])"
      using works_trackedD(4) [OF tr] w by simp
  qed (use works_trackedD(1,2,3) [OF tr] w new assms(3) in auto)
  with run show ?thesis by blast
qed

lemma complete_batch_tracked:
  assumes tr: "works_tracked n tr works k" and tw: "(t, w) \<in> set works"
  shows "\<exists>tr'. tracker_complete_batch (cw_batch_id w) tr = Ok (t, tr') \<and> works_tracked n tr' (remove1 (t, w) works) k"
proof -
  let ?i = "cw_batch_id w"
  obtain e where e: "tr_batches tr ?i = Some e" "be_thread_id e = t" "be_num_transactions e = length (cw_ids w)" and t: "t < n"
    using tr tw unfolding works_tracked_def by blast
  let ?tr = "tr\<lparr>num_in_flight_per_thread := (num_in_flight_per_thread tr)[t := sub_u64 (num_in_flight_per_thread tr ! t) (length (cw_ids w))],
       cus_in_flight_per_thread := (cus_in_flight_per_thread tr)[t := sub_u64 (cus_in_flight_per_thread tr ! t) (be_total_cus e)],
       tr_batches := (tr_batches tr)(?i := None)\<rparr>"
  have len: "length (num_in_flight_per_thread tr) = n" "length (cus_in_flight_per_thread tr) = n"
    using tr by (simp_all add: works_tracked_def)
  have run: "tracker_complete_batch ?i tr = Ok (t, ?tr)"
    using len t e by (simp add: tracker_complete_batch_def assert_that_def Let_def)
  have d: "distinct (map (\<lambda>x. cw_batch_id (snd x)) works)" using tr by (simp add: works_tracked_def)
  then have dw: "distinct works" and inj: "inj_on (\<lambda>x. cw_batch_id (snd x)) (set works)" by (simp_all add: distinct_map)
  have set_r: "set (remove1 (t, w) works) = set works - {(t, w)}" using dw by simp
  have ids: "(\<lambda>x. cw_batch_id (snd x)) ` set (remove1 (t, w) works) = (\<lambda>x. cw_batch_id (snd x)) ` set works - {?i}"
    unfolding set_r using inj_on_image_set_diff [OF inj, of "set works" "{(t, w)}"] tw by auto
  have sum: "sum_list (map f works) = sum_list (map f (remove1 (t, w) works)) + f (t, w)" for f :: "_ \<Rightarrow> nat"
    using sum_list_map_remove1 [OF tw, of f] by simp
  have "works_tracked n ?tr (remove1 (t, w) works) k"
    unfolding works_tracked_def
  proof (intro conjI)
    show "\<forall>i. tr_batches ?tr i \<noteq> None \<longleftrightarrow> i \<in> (\<lambda>x. cw_batch_id (snd x)) ` set (remove1 (t, w) works)"
      using works_trackedD(4) [OF tr] unfolding ids by simp
    show "distinct (map (\<lambda>x. cw_batch_id (snd x)) (remove1 (t, w) works))"
      using inj dw set_r by (auto simp: distinct_map intro: inj_on_subset)
    show "\<forall>(t', w')\<in>set (remove1 (t, w) works). t' < n \<and> (\<exists>e. tr_batches ?tr (cw_batch_id w') = Some e
          \<and> be_thread_id e = t' \<and> be_num_transactions e = length (cw_ids w'))"
    proof clarify
      fix t' w' assume "(t', w') \<in> set (remove1 (t, w) works)"
      then have tw': "(t', w') \<in> set works" "(t', w') \<noteq> (t, w)" using set_r by auto
      then have "cw_batch_id w' \<noteq> ?i" using inj_onD [OF inj, of "(t', w')" "(t, w)"] tw by auto
      then show "t' < n \<and> (\<exists>e. tr_batches ?tr (cw_batch_id w') = Some e \<and> be_thread_id e = t' \<and> be_num_transactions e = length (cw_ids w'))"
        using works_trackedD(5,6) [OF tr tw'(1)] by simp
    qed
    show "\<forall>t'<n. num_in_flight_per_thread ?tr ! t' =
        sum_list (map (\<lambda>(t'', w). if t'' = t' then length (cw_ids w) else 0) (remove1 (t, w) works)) mod 2 ^ 64"
      using works_trackedD(10) [OF tr] len t by (auto simp: nth_list_update sum sub_u64_add [simplified])
    show "\<forall>i. tr_batches ?tr i \<noteq> None \<longrightarrow> (\<exists>j<k. i = nth_batch_id j)"
      using works_trackedD(9) [OF tr] by simp
  qed (use works_trackedD(7,8) [OF tr] len in simp_all)
  with run show ?thesis by blast
qed

section \<open>Outcomes without a panic\<close>

lemma safely_simps [simp]: "safely C (Ok x) Q \<longleftrightarrow> Q x" "safely C (Err e) Q \<longleftrightarrow> \<not> C" "\<not> safely C Panic Q"
  by (simp_all add: safely_def)

lemma safely_bind: "safely C m R \<Longrightarrow> (\<And>x. R x \<Longrightarrow> safely C (f x) Q) \<Longrightarrow> safely C (rbind m f) Q"
  by (cases m) auto

lemma safely_mono: "safely C m R \<Longrightarrow> (\<And>x. R x \<Longrightarrow> Q x) \<Longrightarrow> safely C m Q"
  by (cases m) auto

section \<open>What is in flight\<close>

lemma work_simps [simp]:
  "work_flights [] = {#}" "work_flights ((t, w) # ws) = image_mset (flight t) (mset (cw_transactions w)) + work_flights ws"
  "work_flights (ws @ ws') = work_flights ws + work_flights ws'"
  "work_ids [] = {#}" "work_ids ((t, w) # ws) = mset (cw_ids w) + work_ids ws" "work_ids (ws @ ws') = work_ids ws + work_ids ws'"
  by (simp_all add: work_flights_def work_ids_def)

lemma sum_update:
  fixes f :: "nat \<Rightarrow> 'a \<Rightarrow> 'b :: comm_monoid_add"
  assumes "t < n" and "length xs = n"
  shows "(\<Sum>i<n. f i (xs[t := v] ! i)) + f t (xs ! t) = (\<Sum>i<n. f i (xs ! i)) + f t v"
proof -
  have "(\<Sum>i<n. f i (xs[t := v] ! i)) = f t v + (\<Sum>i\<in>{..<n} - {t}. f i (xs ! i))"
    using assms by (subst sum.remove [of _ t]) (auto intro!: sum.cong)
  moreover have "(\<Sum>i<n. f i (xs ! i)) = f t (xs ! t) + (\<Sum>i\<in>{..<n} - {t}. f i (xs ! i))"
    using assms by (subst sum.remove [of _ t]) auto
  ultimately show ?thesis by (simp add: ac_simps)
qed

lemma member_batch_ids: "t < n \<Longrightarrow> mset (bt_ids b ! t) \<subseteq># batch_ids n b"
  unfolding batch_ids_def by (subst sum.remove [of _ t]) auto

lemma batch_sizes:
  assumes "batches_ok n b" and "\<forall>(t, w)\<in>set works. work_ok w"
  shows "size (batch_flights n b) = size (batch_ids n b)" "size (work_flights works) = size (work_ids works)"
proof -
  show "size (batch_flights n b) = size (batch_ids n b)"
    using assms(1) by (auto simp: batch_flights_def batch_ids_def batches_ok_def size_multiset_sum intro!: sum.cong)
  show "size (work_flights works) = size (work_ids works)"
    using assms(2) by (induction works) (auto simp: work_ok_def)
qed

lemma send_batch_moves:
  assumes inv: "sched_inv n st b works k" and t: "t < n" and k: "k + size (batch_ids n b) < 2 ^ 64"
  shows "safely (\<forall>t. connected t) (send_batch connected st b t) (\<lambda>r. moved n st b works k r \<and> bt_ids (fst (snd (snd r))) = (bt_ids b)[t := []])"
proof (cases "bt_ids b ! t = []")
  case True
  have "(bt_ids b)[t := []] = bt_ids b" using True by (metis list_update_id)
  moreover have "moved n st b works k (0, st, b, [])" using inv by (auto simp: moved_def frame_def)
  ultimately show ?thesis using True inv t by (simp add: send_batch_def assert_that_def sched_inv_def batches_ok_def)
next
  case False
  let ?ids = "bt_ids b ! t" and ?txs = "bt_transactions b ! t" and ?ages = "bt_max_ages b ! t" and ?cus = "bt_total_cus b ! t"
  define b' where "b' = snd (take_batch t b)"
  have ok: "batches_ok n b" and tracked: "works_tracked n (gs_tracker st) works k" using inv by (auto simp: sched_inv_def)
  have "size (mset ?ids) \<le> size (batch_ids n b)" by (rule size_mset_mono [OF member_batch_ids [OF t]])
  then have one: "1 \<le> size (batch_ids n b)" using False by (cases ?ids) auto
  obtain tr' where tr': "track_batch (length ?ids) ?cus t (gs_tracker st) = Ok (batch_id_generator (gs_tracker st), tr')"
      "\<And>w. cw_batch_id w = batch_id_generator (gs_tracker st) \<Longrightarrow> length (cw_ids w) = length ?ids \<Longrightarrow>
        works_tracked n tr' (works @ [(t, w)]) (k + 1)"
    using track_batch_tracked [OF tracked t, of "length ?ids" ?cus] k one by auto
  define w where "w = \<lparr>cw_batch_id = batch_id_generator (gs_tracker st), cw_ids = ?ids, cw_transactions = ?txs, cw_max_ages = ?ages\<rparr>"
  have len: "length (bt_ids b) = n" "length (bt_transactions b) = n" using ok by (simp_all add: batches_ok_def)
  have ids': "mset ?ids + batch_ids n b' = batch_ids n b"
    using sum_update [OF t len(1), of "\<lambda>_. mset" "[]"] by (simp add: batch_ids_def b'_def take_batch_def ac_simps)
  have fl': "image_mset (flight t) (mset ?txs) + batch_flights n b' = batch_flights n b"
    using sum_update [OF t len(2), of "\<lambda>t xs. image_mset (flight t) (mset xs)" "[]"]
    by (simp add: batch_flights_def b'_def take_batch_def ac_simps)
  have "sched_inv n (st\<lparr>gs_tracker := tr'\<rparr>) b' (works @ [(t, w)]) (k + 1)"
  proof -
    have "work_flights (works @ [(t, w)]) + batch_flights n b' = work_flights works + batch_flights n b"
      using fl' by (simp add: w_def ac_simps)
    then have "table_inv n (gs_locks st) (work_flights (works @ [(t, w)]) + batch_flights n b')"
      using inv by (simp only: sched_inv_def)
    moreover have "batches_ok n b'" using ok t by (auto simp: batches_ok_def b'_def take_batch_def nth_list_update split: if_splits)
    moreover have "work_ok w" using ok t False by (auto simp: work_ok_def w_def batches_ok_def)
    moreover have "works_tracked n tr' (works @ [(t, w)]) (k + 1)" by (rule tr'(2)) (simp_all add: w_def)
    ultimately show ?thesis using inv by (auto simp: sched_inv_def simp del: work_simps)
  qed
  moreover have "size (batch_ids n b') + length ?ids = size (batch_ids n b)" using arg_cong [OF ids', of size] by simp
  moreover have "Suc (size (batch_ids n b')) \<le> size (batch_ids n b)" using calculation(2) False by (cases ?ids) auto
  ultimately have "moved n st b works k (length ?ids, st\<lparr>gs_tracker := tr'\<rparr>, b', [(t, w)])"
    using ids' unfolding moved_def by (auto simp: frame_def w_def intro!: exI [of _ "k + 1"])
  moreover have "bt_ids b' = (bt_ids b)[t := []]" by (simp add: b'_def take_batch_def)
  ultimately show ?thesis
    using False t len(1) tr'(1)
    by (auto simp: send_batch_def assert_that_def take_batch_def Let_def ensure_def w_def b'_def)
qed

lemma moved_trans:
  assumes "moved n st b works k (num, st', b', sent)"
  obtains k' where "sched_inv n st' b' (works @ sent) k'" and "k' + size (batch_ids n b') \<le> k + size (batch_ids n b)"
    and "\<And>num' st'' b'' sent'. moved n st' b' (works @ sent) k' (num', st'', b'', sent') \<Longrightarrow>
      moved n st b works k (num + num', st'', b'', sent @ sent')"
proof -
  from assms obtain k' where k': "sched_inv n st' b' (works @ sent) k'" "k' + size (batch_ids n b') \<le> k + size (batch_ids n b)"
    by (auto simp: moved_def)
  have "moved n st b works k (num + num', st'', b'', sent @ sent')"
    if m: "moved n st' b' (works @ sent) k' (num', st'', b'', sent')" for num' st'' b'' sent'
  proof -
    have "batch_ids n b = work_ids sent + (work_ids sent' + batch_ids n b'')" using assms m by (auto simp: moved_def)
    moreover obtain k'' where "sched_inv n st'' b'' (works @ sent @ sent') k''" "k'' + size (batch_ids n b'') \<le> k' + size (batch_ids n b')"
      using m by (auto simp: moved_def)
    ultimately show ?thesis using assms m k'(2) by (auto simp: moved_def frame_def ac_simps intro!: exI [of _ k''])
  qed
  with k' that show thesis by blast
qed

lemma send_batches_from_moves:
  assumes "sched_inv n st b works k" and "set ts \<subseteq> {..<n}" and "k + size (batch_ids n b) < 2 ^ 64"
  shows "safely (\<forall>t. connected t) (send_batches_from connected ts st b) (\<lambda>r. moved n st b works k r
    \<and> (\<forall>t<n. bt_ids (fst (snd (snd r))) ! t = (if t \<in> set ts then [] else bt_ids b ! t)))"
  using assms
proof (induction ts arbitrary: st b works k)
  case Nil
  then show ?case by (auto simp: moved_def frame_def)
next
  case (Cons t ts)
  have t: "t < n" using Cons.prems(2) by simp
  have len: "length (bt_ids b) = n" using Cons.prems(1) by (simp add: sched_inv_def batches_ok_def)
  show ?case
    unfolding send_batches_from.simps
  proof (rule safely_bind [OF send_batch_moves [OF Cons.prems(1) t Cons.prems(3)]])
    fix r assume r: "moved n st b works k r \<and> bt_ids (fst (snd (snd r))) = (bt_ids b)[t := []]"
    obtain num st' b' sent where r_eq: "r = (num, st', b', sent)" by (metis prod_cases4)
    have m: "moved n st b works k (num, st', b', sent)" and ids: "bt_ids b' = (bt_ids b)[t := []]" using r by (simp_all add: r_eq)
    obtain k' where k': "sched_inv n st' b' (works @ sent) k'" "k' + size (batch_ids n b') \<le> k + size (batch_ids n b)"
      and trans: "\<And>num' st'' b'' sent'. moved n st' b' (works @ sent) k' (num', st'', b'', sent') \<Longrightarrow>
        moved n st b works k (num + num', st'', b'', sent @ sent')" using moved_trans [OF m] by blast
    have "k' + size (batch_ids n b') < 2 ^ 64" using k'(2) Cons.prems(3) by linarith
    from Cons.IH [OF k'(1) _ this] Cons.prems(2)
    have s: "safely (\<forall>t. connected t) (send_batches_from connected ts st' b') (\<lambda>r. moved n st' b' (works @ sent) k' r
        \<and> (\<forall>t<n. bt_ids (fst (snd (snd r))) ! t = (if t \<in> set ts then [] else bt_ids b' ! t)))" by simp
    show "safely (\<forall>t. connected t) (case r of (num, st, b, sent) \<Rightarrow>
        rbind (send_batches_from connected ts st b) (\<lambda>(num', st, b, sent'). Ok (num + num', st, b, sent @ sent')))
      (\<lambda>r. moved n st b works k r \<and> (\<forall>ta<n. bt_ids (fst (snd (snd r))) ! ta = (if ta \<in> set (t # ts) then [] else bt_ids b ! ta)))"
      unfolding r_eq prod.case
      by (rule safely_bind [OF s]) (use trans ids len t in \<open>auto simp: nth_list_update\<close>)
  qed
qed

lemma send_batches_moves:
  assumes "sched_inv n st b works k" and "k + size (batch_ids n b) < 2 ^ 64"
  shows "safely (\<forall>t. connected t) (send_batches connected st b) (\<lambda>(num, st', b', sent).
    moved n st b works k (num, st', b', sent) \<and> batch_ids n b' = {#} \<and> batch_flights n b' = {#})"
proof -
  have "gs_num_senders st = n" using assms(1) by (simp add: sched_inv_def)
  moreover have "batch_ids n b' = {#} \<and> batch_flights n b' = {#}"
    if "moved n st b works k (num, st', b', sent)" "\<forall>t<n. bt_ids b' ! t = []" for num st' b' sent
  proof -
    have "batches_ok n b'" using that(1) by (auto simp: moved_def sched_inv_def)
    then show ?thesis using that(2) by (auto simp: batch_ids_def batch_flights_def batches_ok_def)
  qed
  moreover have "safely (\<forall>t. connected t) (send_batches_from connected [0..<n] st b) (\<lambda>r. moved n st b works k r
      \<and> (\<forall>t<n. bt_ids (fst (snd (snd r))) ! t = (if t \<in> set [0..<n] then [] else bt_ids b ! t)))"
    by (rule send_batches_from_moves [OF assms(1) _ assms(2)]) auto
  ultimately show ?thesis
    unfolding send_batches_def by (auto elim!: safely_mono)
qed

section \<open>The scheduling loop\<close>

lemma sched_inv_working_set [simp]: "sched_inv n (st\<lparr>gs_working_set := s\<rparr>) b works k \<longleftrightarrow> sched_inv n st b works k"
  "sched_inv n (st\<lparr>gs_unschedulables := u\<rparr>) b works k \<longleftrightarrow> sched_inv n st b works k"
  by (simp_all add: sched_inv_def)

lemma flush_inv:
  assumes inv: "loop_inv items n fl K X ls" and K: "K < 2 ^ 64"
  shows "safely (\<forall>t. connected t) (flush connected ls) (\<lambda>ls'. loop_inv items n fl K X ls' \<and> flushed n ls ls')"
proof -
  let ?st = "(ls_sched ls)\<lparr>gs_working_set := account_set_clear\<rparr>" and ?b = "ls_batches ls"
  obtain k where k: "sched_inv n (ls_sched ls) ?b (fl @ ls_sent ls) k"
      "k + size (batch_ids n ?b) + size (items (priority_queue (ls_container ls)) + X) \<le> K"
    using inv by (auto simp: loop_inv_def)
  have "safely (\<forall>t. connected t) (send_batches connected ?st ?b) (\<lambda>(num, st', b', sent).
      moved n ?st ?b (fl @ ls_sent ls) k (num, st', b', sent) \<and> batch_ids n b' = {#} \<and> batch_flights n b' = {#})"
    by (rule send_batches_moves) (use k K in simp_all)
  then show ?thesis
    unfolding flush_def Let_def
  proof (rule safely_bind)
    fix r assume r: "case r of (num, st', b', sent) \<Rightarrow>
      moved n ?st ?b (fl @ ls_sent ls) k (num, st', b', sent) \<and> batch_ids n b' = {#} \<and> batch_flights n b' = {#}"
    obtain num st' b' sent where r_eq: "r = (num, st', b', sent)" by (metis prod_cases4)
    from r obtain k' where m: "frame ?st st'" "num = size (work_ids sent)" "work_ids sent = batch_ids n ?b"
        "sched_inv n st' b' (fl @ ls_sent ls @ sent) k'" "k' \<le> k + size (batch_ids n ?b)"
        "batch_ids n b' = {#}" "batch_flights n b' = {#}"
      by (auto simp: r_eq moved_def)
    let ?ls = "ls\<lparr>ls_sched := st', ls_batches := b', ls_num_sent := ls_num_sent ls + num, ls_sent := ls_sent ls @ sent\<rparr>"
    have "flushed n ls ?ls" using m by (simp add: flushed_def frame_def loop_ids_def)
    moreover have "loop_inv items n fl K X ?ls"
      using inv m k(2) by (auto simp: loop_inv_def loop_ids_def frame_def ac_simps intro!: exI [of _ k'])
    ultimately show "safely (\<forall>t. connected t) (case r of (num, st, b, sent) \<Rightarrow>
        Ok (ls\<lparr>ls_sched := st, ls_batches := b, ls_num_sent := ls_num_sent ls + num, ls_sent := ls_sent ls @ sent\<rparr>))
      (\<lambda>ls'. loop_inv items n fl K X ls' \<and> flushed n ls ls')"
      by (simp add: r_eq)
  qed
qed

text \<open>What a transaction locks.\<close>

lemma lock_size_flight: "good_tx tx \<Longrightarrow> lock_size (flight t tx) \<le> 256"
proof -
  have "length (filter snd kws) + length (filter (\<lambda>kw. \<not> snd kw) kws) = length kws" for kws :: "(pubkey \<times> bool) list"
    by (rule sum_length_filter_compl)
  moreover have "length (accounts_with_is_writable tx) = length (account_keys_iter (msg_account_keys tx))"
    by (metis keys_of_accounts length_map)
  ultimately show "good_tx tx \<Longrightarrow> lock_size (flight t tx) \<le> 256"
    by (simp add: flight_def write_account_locks_def read_account_locks_def good_tx_def)
qed

lemma flights_good:
  assumes "sched_inv n st b works k" and "h \<in># work_flights works + batch_flights n b"
  shows "\<exists>t tx. h = flight t tx \<and> good_tx tx"
proof -
  have "\<exists>t tx. h = flight t tx \<and> good_tx tx" if "h \<in># work_flights ws" "\<forall>(t, w)\<in>set ws. work_ok w" for ws
    using that by (induction ws) (fastforce simp: work_ok_def)+
  moreover have "\<exists>t tx. h = flight t tx \<and> good_tx tx" if "h \<in># batch_flights n b"
    using that assms(1) by (auto simp: batch_flights_def sched_inv_def batches_ok_def set_mset_sum)
  ultimately show ?thesis using assms by (auto simp: sched_inv_def)
qed

lemma flights_size:
  assumes "sched_inv n st b works k" and "size (work_ids works) + size (batch_ids n b) + 1 < 2 ^ 24" and "good_tx tx"
  shows "(\<Sum>h\<in>#work_flights works + batch_flights n b. lock_size h)
    + (length (write_account_locks tx) + length (read_account_locks tx)) < 2 ^ 32"
proof -
  let ?F = "work_flights works + batch_flights n b"
  have "(\<Sum>h\<in>#?F. lock_size h) \<le> (\<Sum>h\<in>#?F. 256)"
    by (rule sum_mset_mono) (use flights_good [OF assms(1)] lock_size_flight in blast)
  also have "\<dots> = 256 * size ?F" by simp
  also have "size ?F = size (work_ids works) + size (batch_ids n b)"
    using batch_sizes [of n b works] assms(1) by (simp add: sched_inv_def)
  finally have "(\<Sum>h\<in>#?F. lock_size h) \<le> 256 * (size (work_ids works) + size (batch_ids n b))" .
  moreover have "length (write_account_locks tx) + length (read_account_locks tx) \<le> 256"
    using lock_size_flight [OF assms(3), of 0] by (simp add: flight_def)
  ultimately show ?thesis using assms(2) by simp
qed

text \<open>A transaction that was granted its locks joins a batch.\<close>

lemma add_to_batch_inv:
  assumes inv: "sched_inv n st b works k" and t: "t < n" and good: "good_tx tx"
    and l: "table_inv n l (add_mset (flight t tx) (work_flights works + batch_flights n b))"
  shows "sched_inv n (st\<lparr>gs_locks := l\<rparr>) (add_to_batch t i tx age cost b) works k"
    and "batch_ids n (add_to_batch t i tx age cost b) = add_mset i (batch_ids n b)"
proof -
  let ?b = "add_to_batch t i tx age cost b"
  have ok: "batches_ok n b" using inv by (simp add: sched_inv_def)
  have len: "length (bt_ids b) = n" "length (bt_transactions b) = n" using ok by (simp_all add: batches_ok_def)
  show ids: "batch_ids n ?b = add_mset i (batch_ids n b)"
    using sum_update [OF t len(1), of "\<lambda>_. mset" "bt_ids b ! t @ [i]"] by (simp add: batch_ids_def add_to_batch_def)
  have "batch_flights n ?b = add_mset (flight t tx) (batch_flights n b)"
    using sum_update [OF t len(2), of "\<lambda>t xs. image_mset (flight t) (mset xs)" "bt_transactions b ! t @ [tx]"]
    by (simp add: batch_flights_def add_to_batch_def)
  moreover have "batches_ok n ?b" using ok t good by (auto simp: batches_ok_def add_to_batch_def nth_list_update)
  ultimately show "sched_inv n (st\<lparr>gs_locks := l\<rparr>) ?b works k"
    using inv l by (simp add: sched_inv_def)
qed

section \<open>Placing one transaction\<close>

lemma loop_inv_size: "loop_inv items n fl K X ls \<Longrightarrow> size (work_ids fl) + size (loop_ids n ls) + size X < 2 ^ 24"
  by (simp add: loop_inv_def container_inv_def)

lemma flush_if:
  assumes "loop_inv items n fl K X ls" and "K < 2 ^ 64"
  shows "safely (\<forall>t. connected t) (if b then flush connected ls else Ok ls) 
    (\<lambda>ls'. loop_inv items n fl K X ls' \<and> loop_ids n ls' = loop_ids n ls)"
  using assms by (auto intro: safely_mono [OF flush_inv [OF assms, of connected]] simp: flushed_def)

lemma loop_inv_threads:
  assumes "loop_inv items n fl K X ls"
  shows "length (cus_in_flight_per_thread (gs_tracker (ls_sched ls))) = n" "length (bt_ids (ls_batches ls)) = n" "n \<le> 64"
  using assms by (auto simp: loop_inv_def sched_inv_def works_tracked_def batches_ok_def)

lemma loop_inv_remove: "loop_inv items n fl K X ls \<Longrightarrow> t < n \<Longrightarrow> loop_inv items n fl K X (ls\<lparr>ls_schedulable := ts_remove t (ls_schedulable ls)\<rparr>)"
  using loop_inv_threads(3) by (fastforce simp: loop_inv_def loop_ids_def bit_ts_remove)

lemma scheduled_inv:
  assumes inv: "loop_inv items n fl K {#pid#} ls" and K: "K < 2 ^ 64" and t: "si_thread_id info < n"
    and good: "good_tx (si_transaction info)" and free: "check_locks (gs_working_set (ls_sched ls)) (si_transaction info)"
    and l: "table_inv n l (add_mset (flight (si_thread_id info) (si_transaction info))
      (work_flights (fl @ ls_sent ls) + batch_flights n (ls_batches ls)))"
    and s: "is_pending s"
  shows "safely (\<forall>t. connected t) (scheduled connected target (pid_id pid) info (ls\<lparr>ls_sched := (ls_sched ls)\<lparr>gs_locks := l\<rparr>,
      ls_container := (ls_container ls)\<lparr>id_to_transaction_state := (id_to_transaction_state (ls_container ls))(pid_id pid := s)\<rparr>\<rparr>))
    (\<lambda>ls'. loop_inv items n fl K {#} ls' \<and> loop_ids n ls' = add_mset (pid_id pid) (loop_ids n ls))"
proof -
  let ?t = "si_thread_id info" and ?tx = "si_transaction info" and ?st = "ls_sched ls" and ?c = "ls_container ls"
  let ?b = "add_to_batch ?t (pid_id pid) ?tx (si_max_age info) (si_cost info) (ls_batches ls)"
  have avail: "fst (take_locks ?tx (gs_working_set ?st))"
    using take_locks_available [OF free] good by (simp add: good_tx_def)
  obtain k where k: "sched_inv n ?st (ls_batches ls) (fl @ ls_sent ls) k"
      "k + size (batch_ids n (ls_batches ls)) + size (items (priority_queue ?c) + {#pid#}) \<le> K"
    using inv by (auto simp: loop_inv_def)
  note b' = add_to_batch_inv [OF k(1) t good l, of "pid_id pid" "si_max_age info" "si_cost info"]
  define ls1 where "ls1 = ls\<lparr>ls_container := ?c\<lparr>id_to_transaction_state := (id_to_transaction_state ?c)(pid_id pid := s)\<rparr>,
    ls_sched := ?st\<lparr>gs_locks := l, gs_working_set := snd (take_locks ?tx (gs_working_set ?st))\<rparr>,
    ls_num_scheduled := sat_add_u64 (ls_num_scheduled ls) 1, ls_batches := ?b\<rparr>"
  have ids: "loop_ids n ls1 = add_mset (pid_id pid) (loop_ids n ls)" using b'(2) by (simp add: loop_ids_def ls1_def)
  have "sat_add_u64 (ls_num_scheduled ls) 1 = ls_num_scheduled ls + 1"
    using loop_inv_size [OF inv] inv by (simp add: loop_inv_def sat_add_u64_def)
  then have inv1: "loop_inv items n fl K {#} ls1"
    using inv k b' to_pending_inv [of items ?c pid "mset (gs_unschedulables ?st)" "work_ids fl + loop_ids n ls" s] s
    by (auto simp: loop_inv_def ls1_def loop_ids_def intro!: exI [of _ k])
  have run: "scheduled connected target (pid_id pid) info (ls\<lparr>ls_sched := ?st\<lparr>gs_locks := l\<rparr>,
      ls_container := ?c\<lparr>id_to_transaction_state := (id_to_transaction_state ?c)(pid_id pid := s)\<rparr>\<rparr>) =
    rbind (if target_transactions_per_batch (gs_config ?st) \<le> length (bt_ids ?b ! ?t) then flush connected ls1 else Ok ls1) (\<lambda>ls.
      let tr = gs_tracker (ls_sched ls) in
      rbind (assert_that (?t < length (cus_in_flight_per_thread tr))) (\<lambda>_.
      Ok (if target \<le> add_u64 (cus_in_flight_per_thread tr ! ?t) (bt_total_cus (ls_batches ls) ! ?t)
          then ls\<lparr>ls_schedulable := ts_remove ?t (ls_schedulable ls)\<rparr> else ls)))"
    using avail t loop_inv_threads(2) [OF inv]
    by (simp add: scheduled_def Let_def ls1_def assert_that_def case_prod_unfold)
  show ?thesis
    unfolding run
  proof (rule safely_bind [OF flush_if [OF inv1 K]], elim conjE)
    fix ls' assume inv': "loop_inv items n fl K {#} ls'" and ids': "loop_ids n ls' = loop_ids n ls1"
    show "safely (\<forall>t. connected t) (let tr = gs_tracker (ls_sched ls') in
        rbind (assert_that (?t < length (cus_in_flight_per_thread tr))) (\<lambda>_.
        Ok (if target \<le> add_u64 (cus_in_flight_per_thread tr ! ?t) (bt_total_cus (ls_batches ls') ! ?t)
            then ls'\<lparr>ls_schedulable := ts_remove ?t (ls_schedulable ls')\<rparr> else ls')))
      (\<lambda>ls'. loop_inv items n fl K {#} ls' \<and> loop_ids n ls' = add_mset (pid_id pid) (loop_ids n ls))"
      using loop_inv_threads(1) [OF inv'] loop_inv_remove [OF inv' t] inv' t ids ids'
      by (simp add: Let_def assert_that_def loop_ids_def)
  qed
qed

lemma place_transaction_inv:
  assumes inv: "loop_inv items n fl K {#pid#} ls" and K: "K < 2 ^ 64"
    and state: "id_to_transaction_state (ls_container ls) (pid_id pid) = Some (Unprocessed ttl packet priority cost fwd)"
    and free: "check_locks (gs_working_set (ls_sched ls)) (ttl_transaction ttl)"
  shows "safely (\<forall>t. connected t)
      (place_transaction connected pre_lock_filter target pid (Unprocessed ttl packet priority cost fwd) ls)
    (\<lambda>ls'. loop_step items n fl K ls ls' \<and> (pre_lock_filter (ttl_transaction ttl) \<longrightarrow>
       (\<exists>t<n. bit (ls_schedulable ls) t \<and> (\<forall>h\<in>#loop_flights n fl ls. \<not> threads_conflict (flight t (ttl_transaction ttl)) h)) \<longrightarrow>
       pid_id pid \<in># loop_ids n ls'))"
proof -
  let ?tx = "ttl_transaction ttl" and ?st = "ls_sched ls" and ?c = "ls_container ls" and ?F = "loop_flights n fl ls"
  let ?s = "Unprocessed ttl packet priority cost fwd"
  let ?sel = "select_thread (bt_total_cus (ls_batches ls)) (cus_in_flight_per_thread (gs_tracker ?st))
      (bt_transactions (ls_batches ls)) (num_in_flight_per_thread (gs_tracker ?st))"
  obtain k where k: "sched_inv n ?st (ls_batches ls) (fl @ ls_sent ls) k" using inv by (auto simp: loop_inv_def)
  have cinv: "container_inv items ?c (add_mset pid (mset (gs_unschedulables ?st))) (work_ids fl + loop_ids n ls)"
    using inv by (simp add: loop_inv_def)
  have good: "good_tx ?tx" using container_inv_idle [OF cinv, of pid] state by simp
  have same: "?c\<lparr>id_to_transaction_state := (id_to_transaction_state ?c)(pid_id pid \<mapsto> ?s)\<rparr> = ?c"
    using state by (simp add: fun_upd_idem)
  have sel: "selects_member n ?sel"
    using k by (intro select_thread_member) (auto simp: sched_inv_def works_tracked_def batches_ok_def)
  have table: "table_inv n (gs_locks ?st) ?F" using k by (simp add: sched_inv_def loop_flights_def)
  have size: "(\<Sum>h\<in>#?F. lock_size h) + (length (write_account_locks ?tx) + length (read_account_locks ?tx)) < 2 ^ 32"
    unfolding loop_flights_def by (rule flights_size [OF k _ good]) (use loop_inv_size [OF inv] in \<open>simp add: loop_ids_def\<close>)
  show ?thesis
  proof (cases "pre_lock_filter ?tx")
    case False
    obtain c' where "remove_by_id (pid_id pid) ?c = Ok c'"
        "container_inv items c' (mset (gs_unschedulables ?st)) (work_ids fl + loop_ids n ls)" "priority_queue c' = priority_queue ?c"
      using remove_idle_inv [OF cinv] by blast
    then show ?thesis
      using False same inv by (auto simp: place_transaction_def try_schedule_transaction_def Let_def loop_step_def loop_inv_def loop_ids_def)
  next
    case filter: True
    consider (granted) t l where "thread_try_lock_accounts (gs_locks ?st) (write_account_locks ?tx) (read_account_locks ?tx)
          (ls_schedulable ls) ?sel = Ok (Some t, l)" "t < n" "table_inv n l (add_mset (flight t ?tx) ?F)"
      | (refused) "thread_try_lock_accounts (gs_locks ?st) (write_account_locks ?tx) (read_account_locks ?tx)
          (ls_schedulable ls) ?sel = Ok (None, gs_locks ?st)"
        "\<forall>t<n. bit (ls_schedulable ls) t \<longrightarrow> (\<exists>h\<in>#?F. threads_conflict (flight t ?tx) h)"
      using tl.try_lock [OF table sel size, of "ls_schedulable ls"] unfolding flight_def by blast
    then show ?thesis
    proof cases
      case granted
      let ?info = "\<lparr>si_thread_id = t, si_transaction = ?tx, si_max_age = ttl_max_age ttl, si_cost = cost\<rparr>"
      have "safely (\<forall>t. connected t) (scheduled connected target (pid_id pid) ?info (ls\<lparr>ls_sched := ?st\<lparr>gs_locks := l\<rparr>,
            ls_container := ?c\<lparr>id_to_transaction_state := (id_to_transaction_state ?c)(pid_id pid \<mapsto> Pending packet priority cost fwd)\<rparr>\<rparr>))
          (\<lambda>ls'. loop_inv items n fl K {#} ls' \<and> loop_ids n ls' = add_mset (pid_id pid) (loop_ids n ls))"
        by (rule scheduled_inv [OF inv K]) (use granted good free in \<open>simp_all add: loop_flights_def\<close>)
      then show ?thesis
        using filter granted(1)
        by (auto simp: place_transaction_def try_schedule_transaction_def Let_def loop_step_def elim!: safely_mono)
    next
      case refused
      have "loop_inv items n fl K {#} (ls\<lparr>ls_num_unschedulable := ls_num_unschedulable ls + 1,
          ls_sched := ?st\<lparr>gs_unschedulables := gs_unschedulables ?st @ [pid]\<rparr>\<rparr>)"
        using inv by (auto simp: loop_inv_def loop_ids_def)
      then show ?thesis
        using filter refused same by (auto simp: place_transaction_def try_schedule_transaction_def Let_def loop_step_def loop_ids_def)
    qed
  qed
qed

section \<open>One pass of the scheduler\<close>

lemma schedule_one_inv:
  assumes inv: "loop_inv items n fl K {#pid#} ls" and K: "K < 2 ^ 64"
  shows "safely (\<forall>t. connected t) (schedule_one connected pre_lock_filter target pid ls)
    (\<lambda>ls'. loop_step items n fl K ls ls' \<and> (can_go n fl pre_lock_filter ls pid \<longrightarrow> pid_id pid \<in># loop_ids n ls'))"
proof -
  have cinv: "container_inv items (ls_container ls) (add_mset pid (mset (gs_unschedulables (ls_sched ls)))) (work_ids fl + loop_ids n ls)"
    using inv by (simp add: loop_inv_def)
  from container_inv_idle [OF this, of pid] obtain ttl packet priority cost fwd
    where state: "id_to_transaction_state (ls_container ls) (pid_id pid) = Some (Unprocessed ttl packet priority cost fwd)"
    by (auto simp: is_idle_iff)
  note place = place_transaction_inv [where connected = connected and pre_lock_filter = pre_lock_filter and target = target
      and ttl = ttl and packet = packet and priority = priority and cost = cost and fwd = fwd, OF _ K]
  show ?thesis
  proof (cases "check_locks (gs_working_set (ls_sched ls)) (ttl_transaction ttl)")
    case True
    show ?thesis
      using True by (auto simp: schedule_one_def state can_go_def intro!: safely_mono [OF place [OF inv state True]])
  next
    case False
    then have no: "\<not> can_go n fl pre_lock_filter ls pid" using check_locks_clear by (auto simp: can_go_def)
    have "safely (\<forall>t. connected t) (rbind (flush connected ls)
        (place_transaction connected pre_lock_filter target pid (Unprocessed ttl packet priority cost fwd))) (loop_step items n fl K ls)"
    proof (rule safely_bind [OF flush_inv [OF inv K]], elim conjE)
      fix ls1 assume inv1: "loop_inv items n fl K {#pid#} ls1" and f: "flushed n ls ls1"
      show "safely (\<forall>t. connected t) (place_transaction connected pre_lock_filter target pid (Unprocessed ttl packet priority cost fwd) ls1)
        (loop_step items n fl K ls)"
        by (rule safely_mono [OF place [OF inv1]])
          (use f state check_locks_clear in \<open>auto simp: flushed_def loop_step_def\<close>)
    qed
    then show ?thesis using False no by (simp add: schedule_one_def state)
  qed
qed

lemma loop_step_refl: "loop_inv items n fl K {#} ls \<Longrightarrow> loop_step items n fl K ls ls"
  by (simp add: loop_step_def)

lemma pop_loop_inv:
  assumes laws: "heap_laws hp items" and inv: "loop_inv items n fl K {#} ls" and ne: "\<not> container_is_empty hp (ls_container ls)"
  obtains p c where "container_pop hp (ls_container ls) = (Some p, c)" and "loop_inv items n fl K {#p#} (ls\<lparr>ls_container := c\<rparr>)"
    and "id_to_transaction_state c = id_to_transaction_state (ls_container ls)"
    and "p \<in># items (priority_queue (ls_container ls))" and "\<forall>p'\<in>#items (priority_queue (ls_container ls)). p' \<le> p"
proof -
  have cinv: "container_inv items (ls_container ls) (mset (gs_unschedulables (ls_sched ls))) (work_ids fl + loop_ids n ls)"
    using inv by (simp add: loop_inv_def)
  obtain p c where pop: "container_pop hp (ls_container ls) = (Some p, c)"
      "container_inv items c (add_mset p (mset (gs_unschedulables (ls_sched ls)))) (work_ids fl + loop_ids n ls)"
      "id_to_transaction_state c = id_to_transaction_state (ls_container ls)"
      "items (priority_queue (ls_container ls)) = add_mset p (items (priority_queue c))"
      "\<forall>p'\<in>#items (priority_queue (ls_container ls)). p' \<le> p"
    using container_pop_inv [OF laws cinv ne] by blast
  have "loop_inv items n fl K {#p#} (ls\<lparr>ls_container := c\<rparr>)"
    using inv pop(2,4) by (auto simp: loop_inv_def loop_ids_def)
  with pop that show thesis by auto
qed

lemma schedule_loop_inv:
  assumes laws: "heap_laws hp items" and "loop_inv items n fl K {#} ls" and K: "K < 2 ^ 64"
  shows "safely (\<forall>t. connected t) (schedule_loop hp connected pre_lock_filter target m ls) (loop_step items n fl K ls)"
  using assms(2)
proof (induction m arbitrary: ls)
  case (Suc m)
  show ?case
  proof (cases "ts_is_empty (ls_schedulable ls) \<or> container_is_empty hp (ls_container ls)")
    case False
    then obtain p c where pop: "container_pop hp (ls_container ls) = (Some p, c)"
        and inv: "loop_inv items n fl K {#p#} (ls\<lparr>ls_container := c\<rparr>)"
      using pop_loop_inv [OF laws Suc.prems] by metis
    have "safely (\<forall>t. connected t) (rbind (schedule_one connected pre_lock_filter target p (ls\<lparr>ls_container := c\<rparr>))
        (schedule_loop hp connected pre_lock_filter target m)) (loop_step items n fl K ls)"
    proof (rule safely_bind [OF schedule_one_inv [OF inv K]], elim conjE)
      fix ls1 assume s: "loop_step items n fl K (ls\<lparr>ls_container := c\<rparr>) ls1"
      then have inv1: "loop_inv items n fl K {#} ls1" and sub: "loop_ids n ls \<subseteq># loop_ids n ls1"
        by (simp_all add: loop_step_def loop_ids_def)
      show "safely (\<forall>t. connected t) (schedule_loop hp connected pre_lock_filter target m ls1) (loop_step items n fl K ls)"
        by (rule safely_mono [OF Suc.IH [OF inv1]]) (use sub in \<open>auto simp: loop_step_def elim: subset_mset.trans\<close>)
    qed
    then show ?thesis using False pop by simp
  qed (use Suc.prems loop_step_refl in auto)
qed (use loop_step_refl in simp)

text \<open>The first entry that is popped is placed when it can be.\<close>

lemma schedule_loop_first:
  assumes laws: "heap_laws hp items" and inv: "loop_inv items n fl K {#} ls" and K: "K < 2 ^ 64" and m: "0 < m"
    and p: "p \<in># items (priority_queue (ls_container ls))" "\<forall>p'\<in>#items (priority_queue (ls_container ls)). p' \<le> p"
    and go: "can_go n fl pre_lock_filter ls p"
  shows "safely (\<forall>t. connected t) (schedule_loop hp connected pre_lock_filter target m ls)
    (\<lambda>ls'. loop_inv items n fl K {#} ls' \<and> pid_id p \<in># loop_ids n ls')"
proof -
  obtain m' where m': "m = Suc m'" using m by (cases m) auto
  have ne: "\<not> container_is_empty hp (ls_container ls)" "\<not> ts_is_empty (ls_schedulable ls)"
    using p(1) go heap_lawsD(1) [OF laws] by (auto simp: container_is_empty_def can_go_def ts_is_empty)
  obtain p' c where pop: "container_pop hp (ls_container ls) = (Some p', c)"
      and inv1: "loop_inv items n fl K {#p'#} (ls\<lparr>ls_container := c\<rparr>)"
      and c: "id_to_transaction_state c = id_to_transaction_state (ls_container ls)"
      and p': "p' \<in># items (priority_queue (ls_container ls))" "\<forall>x\<in>#items (priority_queue (ls_container ls)). x \<le> p'"
    by (rule pop_loop_inv [OF laws inv ne(1)])
  have "p' = p" using p p' by (meson antisym)
  moreover have "can_go n fl pre_lock_filter (ls\<lparr>ls_container := c\<rparr>) p" using go c by (simp add: can_go_def loop_flights_def)
  ultimately have one: "safely (\<forall>t. connected t) (schedule_one connected pre_lock_filter target p (ls\<lparr>ls_container := c\<rparr>))
      (\<lambda>ls'. loop_inv items n fl K {#} ls' \<and> pid_id p \<in># loop_ids n ls')"
    using inv1 by (auto simp: loop_step_def intro: safely_mono [OF schedule_one_inv [OF _ K]])
  have "safely (\<forall>t. connected t) (rbind (schedule_one connected pre_lock_filter target p (ls\<lparr>ls_container := c\<rparr>))
      (schedule_loop hp connected pre_lock_filter target m')) (\<lambda>ls'. loop_inv items n fl K {#} ls' \<and> pid_id p \<in># loop_ids n ls')"
    by (rule safely_bind [OF one], elim conjE, rule safely_mono [OF schedule_loop_inv [OF laws _ K]])
      (auto simp: loop_step_def dest: mset_subset_eqD)
  then show ?thesis using pop ne m' \<open>p' = p\<close> by simp
qed

lemma push_all_inv:
  assumes "heap_laws hp items" and "container_inv items c (mset pids) P"
  shows "\<exists>c'. push_all hp pids c = Ok c' \<and> container_inv items c' {#} P"
  using assms(2)
proof (induction pids arbitrary: c)
  case (Cons p pids)
  then obtain b c' where "push_id_into_queue hp p c = Ok (b, c')" "container_inv items c' (mset pids) P"
    using push_inv [OF assms(1), of c p "mset pids" P] by auto
  then show ?case using Cons.IH by simp
qed simp

lemma bit_threads_below_target:
  assumes "gs_num_senders st \<le> 64"
  shows "bit (threads_below_target st target) t \<longleftrightarrow> t < gs_num_senders st \<and> cus_in_flight_per_thread (gs_tracker st) ! t < target"
proof -
  have rem: "bit (fold (\<lambda>t s. if P t then ts_remove t s else s) ts s) t \<longleftrightarrow> bit s t \<and> \<not> (t \<in> set ts \<and> P t)"
    if "set ts \<subseteq> {..<64}" for P ts and s :: thread_set
    using that by (induction ts arbitrary: s) (auto simp: bit_ts_remove)
  show ?thesis
    unfolding threads_below_target_def using assms by (subst rem) (auto simp: bit_ts_any)
qed

end
