(* ===== verification/Greedy_Safety.thy ===== *)
theory Greedy_Safety
  imports Greedy_Loop
begin

text \<open>
  Runs of the greedy scheduler: \<open>greedy_world\<close> collects the states it reaches with its container and the
  works in flight, when transactions arrive, passes are made and works come back in any order. The
  theorems show that no such run panics, that what is in flight on different threads never
  conflicts, and that a transaction of highest priority is sent when it can be. A queue over lists
  shows that the laws assumed of the priority queue can be met.
\<close>

section \<open>Definitions\<close>

text \<open>Between passes no transaction is batched, and the works in flight are the pending ids of the container.\<close>

definition world_inv ::
  "('q \<Rightarrow> transaction_priority_id multiset) \<Rightarrow> nat \<Rightarrow> greedy_scheduler \<Rightarrow> 'q container \<Rightarrow> sent \<Rightarrow> nat \<Rightarrow> bool" where
  "world_inv items n st c fl k \<longleftrightarrow> sched_inv n st (batches_new n) fl k \<and> container_inv items c {#} (work_ids fl)
     \<and> gs_unschedulables st = [] \<and> gs_working_set st = account_set_clear"

definition start_state :: "greedy_scheduler \<Rightarrow> 'q container \<Rightarrow> nat \<Rightarrow> 'q loop_state" where
  "start_state st c target =
     \<lparr>ls_sched = st, ls_batches = batches_new (gs_num_senders st), ls_container = c,
      ls_schedulable = threads_below_target st target, ls_num_scheduled = 0, ls_num_sent = 0, ls_num_unschedulable = 0,
      ls_num_filtered_out = 0, ls_sent = []\<rparr>"

text \<open>What follows the loop.\<close>

definition finish_schedule ::
  "'q heap_ops \<Rightarrow> (thread_id \<Rightarrow> bool) \<Rightarrow> 'q loop_state \<Rightarrow>
   (scheduler_error, scheduling_summary \<times> greedy_scheduler \<times> 'q container \<times> sent) result" where
  "finish_schedule hp connected ls =
     rbind (flush connected ls) (\<lambda>ls.
     rbind (assert_that (ls_num_scheduled ls = ls_num_sent ls)) (\<lambda>_.
     let st = ls_sched ls in
     rbind (push_all hp (gs_unschedulables st) (ls_container ls)) (\<lambda>c.
     Ok (\<lparr>sum_num_scheduled = ls_num_scheduled ls, sum_num_unschedulable = ls_num_unschedulable ls,
           sum_num_filtered_out = ls_num_filtered_out ls, sum_filter_time_us = 0\<rparr>,
         st\<lparr>gs_unschedulables := []\<rparr>, c, ls_sent ls))))"

text \<open>
  The states a scheduler reaches, with its container and the works in flight: it is created, new
  transactions arrive under unused ids, passes are made with any filter and any channels, and works
  in flight come back in any order with any indexes to retry. A pass is made only while the batch
  id generator has not gone round its 64 bits.
\<close>

definition batch_ids_left :: "greedy_scheduler \<Rightarrow> nat" where
  "batch_ids_left st = (let g = batch_id_generator (gs_tracker st) in if g = 0 then 2 ^ 64 else g)"

inductive greedy_world :: "'q heap_ops \<Rightarrow> nat \<Rightarrow> greedy_scheduler \<Rightarrow> 'q container \<Rightarrow> sent \<Rightarrow> bool" for hp n where
  world_new: "greedy_new n config = Ok st \<Longrightarrow> greedy_world hp n st (container_with_capacity hp capacity) []"
| world_insert: "greedy_world hp n st c fl \<Longrightarrow> id_to_transaction_state c i = None \<Longrightarrow> good_tx (ttl_transaction ttl) \<Longrightarrow>
    hp_len hp (priority_queue c) + sum_list (map (\<lambda>(t, w). length (cw_ids w)) fl) + 1 < 2 ^ 24 \<Longrightarrow>
    insert_new_transaction hp i ttl packet priority cost c = Ok (full, c') \<Longrightarrow> greedy_world hp n st c' fl"
| world_schedule: "greedy_world hp n st c fl \<Longrightarrow> hp_len hp (priority_queue c) < batch_ids_left st \<Longrightarrow>
    schedule hp connected pre_lock_filter st c = Ok (summary, st', c', sent) \<Longrightarrow> greedy_world hp n st' c' (fl @ sent)"
| world_receive: "greedy_world hp n st c fl \<Longrightarrow> (t, w) \<in> set fl \<Longrightarrow>
    try_receive_completed hp (Received \<lparr>fw_work = w, fw_retryable_indexes = retryable\<rparr>) st c = Ok (nums, st', c') \<Longrightarrow>
    greedy_world hp n st' c' (remove1 (t, w) fl)"

type_synonym list_queue = "nat \<times> transaction_priority_id list"

fun list_pop_max :: "list_queue \<Rightarrow> transaction_priority_id option \<times> list_queue" where
  "list_pop_max (room, []) = (None, room, [])"
| "list_pop_max (room, x # xs) = (let m = fold max xs x in (Some m, room + 1, remove1 m (x # xs)))"

definition list_heap :: "list_queue heap_ops" where
  "list_heap =
     \<lparr>hp_with_capacity = (\<lambda>k. (k, [])), hp_is_empty = (\<lambda>q. snd q = []), hp_len = (\<lambda>q. length (snd q)),
      hp_capacity = (\<lambda>(room, xs). room + length xs), hp_pop_max = list_pop_max,
      hp_push = (\<lambda>x (room, xs). (room - 1, x # xs)),
      hp_push_pop_min = (\<lambda>x (room, xs). let m = fold min xs x in (m, room, remove1 m (x # xs))),
      hp_peek_min = (\<lambda>(_, xs). case xs of [] \<Rightarrow> None | x # xs \<Rightarrow> Some (fold min xs x)),
      hp_peek_max = (\<lambda>(_, xs). case xs of [] \<Rightarrow> None | x # xs \<Rightarrow> Some (fold max xs x))\<rparr>"

text \<open>A queue with one transaction that writes account 1 and reads account 2, before the first pass.\<close>

definition example_config :: greedy_config where
  "example_config = \<lparr>target_scheduled_cus = 100, max_scanned_transactions_per_scheduling_pass = 10, target_transactions_per_batch = 4\<rparr>"

definition example_scheduler :: greedy_scheduler where
  "example_scheduler =
     \<lparr>gs_tracker = tracker_new 2, gs_locks = \<lparr>num_threads = 2, locks = (\<lambda>_. None)\<rparr>, gs_num_senders = 2,
      gs_working_set = account_set_clear, gs_unschedulables = [], gs_config = example_config\<rparr>"

definition example_ttl :: sanitized_transaction_ttl where
  "example_ttl = \<lparr>ttl_transaction = example_message [1, 2] 1, ttl_max_age = \<lparr>sanitized_epoch = 0, alt_invalidation_slot = 0\<rparr>\<rparr>"

definition example_container :: "list_queue container" where
  "example_container = \<lparr>priority_queue = (7, [Transaction_Priority_Id 5 9]),
     id_to_transaction_state = (\<lambda>_. None)(9 \<mapsto> Unprocessed example_ttl \<lparr>meta_forwarded = False, meta_from_staked_node = True\<rparr> 5 3 True)\<rparr>"

section \<open>The scheduler between passes\<close>

lemma batches_new_simps [simp]: "batch_ids n (batches_new n) = {#}" "batch_flights n (batches_new n) = {#}" "batches_ok n (batches_new n)"
  by (simp_all add: batch_ids_def batch_flights_def batches_new_def batches_ok_def)

lemma start_state_inv:
  assumes "world_inv items n st c fl k"
  shows "loop_inv items n fl (k + size (items (priority_queue c))) {#} (start_state st c target)"
proof -
  have n: "gs_num_senders st = n" "n \<le> 64" using assms by (simp_all add: world_inv_def sched_inv_def)
  then show ?thesis
    using assms by (auto simp: loop_inv_def start_state_def loop_ids_def world_inv_def bit_threads_below_target)
qed

lemma schedule_run:
  assumes "world_inv items n st c fl k"
  defines "target \<equiv> target_scheduled_cus (gs_config st) div n"
  shows "schedule hp connected pre_lock_filter st c =
    (if ts_is_empty (threads_below_target st target) then Ok (scheduling_summary_default, st, c, [])
     else rbind (schedule_loop hp connected pre_lock_filter target (max_scanned_transactions_per_scheduling_pass (gs_config st))
       (start_state st c target)) (finish_schedule hp connected))"
  using assms
  by (auto simp: schedule_def world_inv_def sched_inv_def works_tracked_def Let_def assert_that_def start_state_def finish_schedule_def [abs_def])

lemma finish_schedule_inv:
  assumes laws: "heap_laws hp items" and inv: "loop_inv items n fl K {#} ls" and K: "K < 2 ^ 64"
  shows "safely (\<forall>t. connected t) (finish_schedule hp connected ls) (\<lambda>(sum, st, c, sent).
    (\<exists>k. world_inv items n st c (fl @ sent) k) \<and> work_ids sent = loop_ids n ls \<and> sum_num_scheduled sum = size (work_ids sent))"
  unfolding finish_schedule_def
proof (rule safely_bind [OF flush_inv [OF inv K]], elim conjE)
  fix ls1 assume inv1: "loop_inv items n fl K {#} ls1" and f: "flushed n ls ls1"
  let ?st = "ls_sched ls1"
  have ids: "work_ids (ls_sent ls1) = loop_ids n ls" "loop_ids n ls1 = loop_ids n ls" and e: "batch_flights n (ls_batches ls1) = {#}"
    using f by (auto simp: flushed_def loop_ids_def)
  obtain k where k: "sched_inv n ?st (ls_batches ls1) (fl @ ls_sent ls1) k" using inv1 by (auto simp: loop_inv_def)
  have "container_inv items (ls_container ls1) (mset (gs_unschedulables ?st)) (work_ids (fl @ ls_sent ls1))"
    using inv1 ids by (simp add: loop_inv_def)
  from push_all_inv [OF laws this] obtain c where c: "push_all hp (gs_unschedulables ?st) (ls_container ls1) = Ok c"
      "container_inv items c {#} (work_ids (fl @ ls_sent ls1))" by blast
  have "sched_inv n (?st\<lparr>gs_unschedulables := []\<rparr>) (batches_new n) (fl @ ls_sent ls1) k"
    using k e by (simp add: sched_inv_def)
  then have "world_inv items n (?st\<lparr>gs_unschedulables := []\<rparr>) c (fl @ ls_sent ls1) k"
    using c(2) f by (simp add: world_inv_def flushed_def)
  moreover have "ls_num_scheduled ls1 = size (work_ids (ls_sent ls1))" "ls_num_sent ls1 = size (work_ids (ls_sent ls1))"
    using inv1 ids by (simp_all add: loop_inv_def)
  ultimately show "safely (\<forall>t. connected t) (rbind (assert_that (ls_num_scheduled ls1 = ls_num_sent ls1)) (\<lambda>_.
      let st = ls_sched ls1 in rbind (push_all hp (gs_unschedulables st) (ls_container ls1)) (\<lambda>c.
      Ok (\<lparr>sum_num_scheduled = ls_num_scheduled ls1, sum_num_unschedulable = ls_num_unschedulable ls1,
            sum_num_filtered_out = ls_num_filtered_out ls1, sum_filter_time_us = 0\<rparr>,
          st\<lparr>gs_unschedulables := []\<rparr>, c, ls_sent ls1))))
    (\<lambda>(sum, st, c, sent). (\<exists>k. world_inv items n st c (fl @ sent) k) \<and> work_ids sent = loop_ids n ls
      \<and> sum_num_scheduled sum = size (work_ids sent))"
    using c(1) ids by (auto simp: assert_that_def Let_def)
qed

lemma schedule_inv:
  assumes laws: "heap_laws hp items" and inv: "world_inv items n st c fl k" and k: "k + size (items (priority_queue c)) < 2 ^ 64"
  shows "safely (\<forall>t. connected t) (schedule hp connected pre_lock_filter st c)
    (\<lambda>(sum, st', c', sent). (\<exists>k. world_inv items n st' c' (fl @ sent) k) \<and> sum_num_scheduled sum = size (work_ids sent))"
proof (cases "ts_is_empty (threads_below_target st (target_scheduled_cus (gs_config st) div n))")
  case True
  then show ?thesis using inv by (auto simp: schedule_run [OF inv] scheduling_summary_default_def)
next
  case False
  then show ?thesis
    unfolding schedule_run [OF inv]
    by (auto intro!: safely_bind [OF schedule_loop_inv [OF laws start_state_inv [OF inv] k]]
        safely_mono [OF finish_schedule_inv [OF laws _ k]] simp: loop_step_def)
qed

text \<open>An entry of highest priority that no work in flight conflicts with is sent.\<close>

lemma schedule_first:
  assumes laws: "heap_laws hp items" and inv: "world_inv items n st c fl k" and k: "k + size (items (priority_queue c)) < 2 ^ 64"
    and m: "0 < max_scanned_transactions_per_scheduling_pass (gs_config st)"
    and p: "p \<in># items (priority_queue c)" "\<forall>p'\<in>#items (priority_queue c). p' \<le> p"
    and state: "id_to_transaction_state c (pid_id p) = Some (Unprocessed ttl packet priority cost fwd)"
    and filter: "pre_lock_filter (ttl_transaction ttl)"
    and t: "t < n" "cus_in_flight_per_thread (gs_tracker st) ! t < target_scheduled_cus (gs_config st) div n"
    and free: "\<forall>h\<in>#work_flights fl. \<not> threads_conflict (flight t (ttl_transaction ttl)) h"
  shows "safely (\<forall>t. connected t) (schedule hp connected pre_lock_filter st c)
    (\<lambda>(sum, st', c', sent). pid_id p \<in># work_ids sent)"
proof -
  let ?target = "target_scheduled_cus (gs_config st) div n"
  have n: "gs_num_senders st = n" "n \<le> 64" and ws: "gs_working_set st = account_set_clear"
    using inv by (simp_all add: world_inv_def sched_inv_def)
  have bit: "bit (threads_below_target st ?target) t" using n t by (simp add: bit_threads_below_target)
  then have go: "can_go n fl pre_lock_filter (start_state st c ?target) p"
    using ws state filter t(1) free n by (auto simp: can_go_def start_state_def loop_flights_def)
  have "safely (\<forall>t. connected t) (rbind (schedule_loop hp connected pre_lock_filter ?target
      (max_scanned_transactions_per_scheduling_pass (gs_config st)) (start_state st c ?target)) (finish_schedule hp connected))
    (\<lambda>(sum, st', c', sent). pid_id p \<in># work_ids sent)"
  proof (rule safely_bind [OF schedule_loop_first [OF laws start_state_inv [OF inv] k m _ _ go]], goal_cases)
    case (3 ls)
    then show ?case by (intro safely_mono [OF finish_schedule_inv [OF laws _ k, of n fl ls]]) auto
  qed (use p in \<open>simp_all add: start_state_def\<close>)
  moreover have "\<not> ts_is_empty (threads_below_target st ?target)" using bit by (auto simp: ts_is_empty)
  ultimately show ?thesis unfolding schedule_run [OF inv] by simp
qed

section \<open>Finished works\<close>

lemma work_remove:
  assumes "(t, w) \<in> set fl"
  shows "work_flights fl = image_mset (flight t) (mset (cw_transactions w)) + work_flights (remove1 (t, w) fl)"
    and "work_ids fl = mset (cw_ids w) + work_ids (remove1 (t, w) fl)"
  using sum_list_map_remove1 [OF assms, of "\<lambda>(t, w). image_mset (flight t) (mset (cw_transactions w))"]
    sum_list_map_remove1 [OF assms, of "\<lambda>(t, w). mset (cw_ids w)"]
  by (simp_all add: work_flights_def work_ids_def)

lemma complete_batch_inv:
  assumes inv: "sched_inv n st b fl k" and tw: "(t, w) \<in> set fl"
  shows "\<exists>st'. complete_batch (cw_batch_id w) (cw_transactions w) st = Ok st' \<and> sched_inv n st' b (remove1 (t, w) fl) k
    \<and> gs_unschedulables st' = gs_unschedulables st \<and> gs_working_set st' = gs_working_set st"
proof -
  obtain tr where tr: "tracker_complete_batch (cw_batch_id w) (gs_tracker st) = Ok (t, tr)" "works_tracked n tr (remove1 (t, w) fl) k"
    using complete_batch_tracked [of n "gs_tracker st" fl k t w] inv tw by (auto simp: sched_inv_def)
  have "table_inv n (gs_locks st) (image_mset (\<lambda>tx. (t, write_account_locks tx, read_account_locks tx)) (mset (cw_transactions w))
      + (work_flights (remove1 (t, w) fl) + batch_flights n b))"
    using inv work_remove(1) [OF tw] by (simp add: sched_inv_def flight_def [abs_def] ac_simps)
  from tl.unlock_each [OF this]
  have "\<exists>l. for_each (\<lambda>l tx. thread_unlock_accounts l (write_account_locks tx) (read_account_locks tx) t) (cw_transactions w) (gs_locks st)
      = (Ok l :: (scheduler_error, _) result) \<and> table_inv n l (work_flights (remove1 (t, w) fl) + batch_flights n b)" .
  moreover have "\<forall>(t, w)\<in>set (remove1 (t, w) fl). work_ok w" using inv set_remove1_subset by (fastforce simp: sched_inv_def)
  ultimately show ?thesis using tr inv by (auto simp: complete_batch_def sched_inv_def)
qed

lemma reinsert_inv:
  assumes laws: "heap_laws hp items" and "container_inv items c U (mset (map fst rest) + P)" and "\<forall>(i, tx, age)\<in>set rest. good_tx tx"
  shows "\<exists>c'. reinsert hp j retryable rest c = Ok c' \<and> container_inv items c' U P"
  using assms(2,3)
proof (induction rest arbitrary: j retryable c)
  case (Cons x rest)
  obtain i tx age where x: "x = (i, tx, age)" by (metis prod_cases3)
  have inv: "container_inv items c U (add_mset i (mset (map fst rest) + P))" and good: "\<forall>(i, tx, age)\<in>set rest. good_tx tx"
    using Cons.prems by (simp_all add: x)
  show ?case
  proof (cases "retryable \<noteq> [] \<and> hd retryable = j")
    case True
    have "good_tx (ttl_transaction \<lparr>ttl_transaction = tx, ttl_max_age = age\<rparr>)" using Cons.prems by (simp add: x)
    from retry_inv [OF laws inv this] obtain c' where c': "retry_transaction hp i \<lparr>ttl_transaction = tx, ttl_max_age = age\<rparr> c = Ok c'"
        "container_inv items c' U (mset (map fst rest) + P)" by blast
    show ?thesis using True Cons.IH [OF c'(2) good] c'(1) by (simp add: x)
  next
    case False
    from remove_pending_inv [OF inv] obtain c' where c': "remove_by_id i c = Ok c'" "container_inv items c' U (mset (map fst rest) + P)" by blast
    show ?thesis using False Cons.IH [OF c'(2) good] c'(1) by (auto simp: x)
  qed
qed simp

lemma receive_inv:
  assumes laws: "heap_laws hp items" and inv: "world_inv items n st c fl k" and tw: "(t, w) \<in> set fl"
  shows "\<exists>st' c'. try_receive_completed hp (Received \<lparr>fw_work = w, fw_retryable_indexes = retryable\<rparr>) st c =
      Ok ((length (cw_ids w), length retryable), st', c') \<and> world_inv items n st' c' (remove1 (t, w) fl) k"
proof -
  have s: "sched_inv n st (batches_new n) fl k" using inv by (simp add: world_inv_def)
  from complete_batch_inv [OF this tw] obtain st' where st': "complete_batch (cw_batch_id w) (cw_transactions w) st = Ok st'"
      "sched_inv n st' (batches_new n) (remove1 (t, w) fl) k" "gs_unschedulables st' = gs_unschedulables st" "gs_working_set st' = gs_working_set st"
    by blast
  have ok: "work_ok w" using s tw by (auto simp: sched_inv_def)
  let ?rest = "zip (cw_ids w) (zip (cw_transactions w) (cw_max_ages w))"
  have "map fst ?rest = cw_ids w" using ok by (simp add: work_ok_def)
  then have "container_inv items c {#} (mset (map fst ?rest) + work_ids (remove1 (t, w) fl))"
    using inv work_remove(2) [OF tw] by (simp add: world_inv_def)
  moreover have "\<forall>(i, tx, age)\<in>set ?rest. good_tx tx"
    using ok unfolding work_ok_def by clarify (metis set_zip_leftD set_zip_rightD)
  ultimately obtain c' where "reinsert hp 0 retryable ?rest c = Ok c'" "container_inv items c' {#} (work_ids (remove1 (t, w) fl))"
    using reinsert_inv [OF laws] by blast
  then show ?thesis using st' inv by (simp add: try_receive_completed_def Let_def world_inv_def)
qed

section \<open>Runs of the scheduler\<close>

lemma batch_ids_left: "world_inv items n st c fl k \<Longrightarrow> m < batch_ids_left st \<Longrightarrow> k + m < 2 ^ 64"
  by (cases "k = 0") (auto simp: world_inv_def sched_inv_def works_tracked_def batch_ids_left_def nth_batch_id_def Let_def)

lemma size_work_ids: "size (work_ids fl) = sum_list (map (\<lambda>(t, w). length (cw_ids w)) fl)"
  by (induction fl) auto

lemma greedy_new_inv:
  assumes laws: "heap_laws hp items" and new: "greedy_new n config = Ok st"
  shows "world_inv items n st (container_with_capacity hp capacity) [] 0"
proof -
  obtain l where l: "(thread_aware_new n :: (scheduler_error, _) result) = Ok l" "0 < n" "n \<le> 64"
      "st = \<lparr>gs_tracker = tracker_new n, gs_locks = l, gs_num_senders = n, gs_working_set = account_set_clear,
         gs_unschedulables = [], gs_config = config\<rparr>"
    using new by (auto simp: greedy_new_def assert_that_def MAX_THREADS_def rbind_eq_Ok split: if_splits)
  have "thread_aware_new n = (Ok l :: (unit, _) result)"
    using l(1) by (auto simp: thread_aware_new_def assert_that_def split: if_splits)
  then have "table_inv n l (mset [])" using thread_history_inv [OF threads_start] table_inv_mset by blast
  moreover have "works_tracked n (tracker_new n) [] 0" by (simp add: works_tracked_def tracker_new_def nth_batch_id_def)
  moreover have "container_inv items (container_with_capacity hp capacity) {#} {#}"
    using heap_lawsD(4) [OF laws] by (simp add: container_inv_def container_with_capacity_def)
  ultimately show ?thesis using l by (simp add: world_inv_def sched_inv_def)
qed

lemma greedy_world_inv:
  assumes laws: "heap_laws hp items" and "greedy_world hp n st c fl"
  shows "\<exists>k. world_inv items n st c fl k"
  using assms(2)
proof (induction rule: greedy_world.induct)
  case (world_new config st capacity)
  then show ?case using greedy_new_inv [OF laws] by blast
next
  case (world_insert st c fl i ttl packet priority cost full c')
  from world_insert.IH obtain k where k: "world_inv items n st c fl k" by blast
  have "container_inv items c {#} (work_ids fl)" using k by (simp add: world_inv_def)
  from insert_inv [OF laws this world_insert(2,3), of packet priority cost]
  have "container_inv items c' {#} (work_ids fl)"
    using world_insert(4,5) heap_lawsD(2) [OF laws] by (auto simp: size_work_ids)
  then show ?case using k by (auto simp: world_inv_def)
next
  case (world_schedule st c fl connected pre_lock_filter summary st' c' sent)
  from world_schedule.IH obtain k where k: "world_inv items n st c fl k" by blast
  show ?case
    using schedule_inv [OF laws k, of connected pre_lock_filter] batch_ids_left [OF k] world_schedule(2,3) heap_lawsD(2) [OF laws] by auto
next
  case (world_receive st c fl t w retryable nums st' c')
  from world_receive.IH obtain k where k: "world_inv items n st c fl k" by blast
  show ?case using receive_inv [OF laws k world_receive(2), of retryable] world_receive(3) by auto
qed

section \<open>A queue over lists\<close>

lemma fold_max_member: "fold max xs x \<in> set (x # xs)" "y \<in> set (x # xs) \<Longrightarrow> y \<le> fold max xs (x :: 'a :: linorder)"
  using Max.set_eq_fold [of x xs] Max_in [of "set (x # xs)"] Max_ge [of "set (x # xs)"] by simp_all

lemma fold_min_member: "fold min xs x \<in> set (x # xs)" "y \<in> set (x # xs) \<Longrightarrow> fold min xs (x :: 'a :: linorder) \<le> y"
  using Min.set_eq_fold [of x xs] Min_in [of "set (x # xs)"] Min_le [of "set (x # xs)"] by simp_all

lemma list_pop_max:
  "list_pop_max q = (Some x, q') \<Longrightarrow> mset (snd q) = add_mset x (mset (snd q')) \<and> (\<forall>y\<in>set (snd q). y \<le> x)
     \<and> fst q' + length (snd q') = fst q + length (snd q)"
  "list_pop_max q = (None, q') \<Longrightarrow> snd q = [] \<and> q' = q"
proof -
  obtain room xs where q: "q = (room, xs)" by (cases q)
  show "list_pop_max q = (None, q') \<Longrightarrow> snd q = [] \<and> q' = q" by (cases xs) (auto simp: q Let_def)
  assume pop: "list_pop_max q = (Some x, q')"
  then obtain y ys where xs: "xs = y # ys" by (cases xs) (auto simp: q)
  have m: "x = fold max ys y" "q' = (room + 1, remove1 x xs)" using pop by (auto simp: q xs Let_def simp del: remove1.simps)
  have "x \<in> set xs" "\<forall>y\<in>set xs. y \<le> x" unfolding m(1) xs using fold_max_member by blast+
  then show "mset (snd q) = add_mset x (mset (snd q')) \<and> (\<forall>y\<in>set (snd q). y \<le> x) \<and> fst q' + length (snd q') = fst q + length (snd q)"
    using length_pos_if_in_set [of x xs] by (auto simp: q m(2) length_remove1)
qed

lemma list_heap_laws: "heap_laws list_heap (\<lambda>q. mset (snd q))"
proof -
  have min: "add_mset m (mset (remove1 m (x # xs))) = add_mset x (mset xs)" "length (remove1 m (x # xs)) = length xs"
      "\<forall>z\<in>set (remove1 m (x # xs)). m \<le> z" if "m = fold min xs x" for m x :: transaction_priority_id and xs
  proof -
    have m: "m \<in> set (x # xs)" "\<And>y. y \<in> set (x # xs) \<Longrightarrow> m \<le> y" unfolding that using fold_min_member by blast+
    then show "\<forall>z\<in>set (remove1 m (x # xs)). m \<le> z" using notin_set_remove1 by metis
    show "add_mset m (mset (remove1 m (x # xs))) = add_mset x (mset xs)" "length (remove1 m (x # xs)) = length xs"
      using m(1) by (auto simp: length_remove1 simp del: remove1.simps)
  qed
  show ?thesis
    unfolding heap_laws_def
  proof (intro conjI)
    show "\<forall>q x q'. hp_pop_max list_heap q = (Some x, q') \<longrightarrow> mset (snd q) = add_mset x (mset (snd q')) \<and>
        (\<forall>y\<in>#mset (snd q). y \<le> x) \<and> hp_capacity list_heap q' = hp_capacity list_heap q"
      using list_pop_max(1) by (fastforce simp: list_heap_def case_prod_unfold)
    show "\<forall>q q'. hp_pop_max list_heap q = (None, q') \<longrightarrow> mset (snd q) = {#} \<and> q' = q"
      using list_pop_max(2) by (fastforce simp: list_heap_def)
    show "\<forall>q x y q'. hp_push_pop_min list_heap x q = (y, q') \<longrightarrow> add_mset y (mset (snd q')) = add_mset x (mset (snd q)) \<and>
        (\<forall>z\<in>#mset (snd q'). y \<le> z) \<and> hp_capacity list_heap q' = hp_capacity list_heap q"
      using min by (auto simp: list_heap_def Let_def simp del: remove1.simps)
  qed (auto simp: list_heap_def)
qed

section \<open>Properties\<close>

lemma example_world: "greedy_world list_heap 2 example_scheduler example_container []"
proof -
  let ?packet = "\<lparr>meta_forwarded = False, meta_from_staked_node = True\<rparr>"
  have "greedy_new 2 example_config = Ok example_scheduler"
    by (simp add: greedy_new_def assert_that_def MAX_THREADS_def thread_aware_new_def example_scheduler_def)
  from world_new [OF this] have "greedy_world list_heap 2 example_scheduler (container_with_capacity list_heap 8) []" .
  then show ?thesis
    by (rule world_insert [where i = 9 and ttl = example_ttl and packet = ?packet and priority = 5 and cost = 3 and full = False])
      (simp_all add: container_with_capacity_def good_tx_def example_ttl_def example_message_def account_keys_iter_def key_segment_iter_def
        list_heap_def insert_new_transaction_def push_id_into_queue_def remaining_queue_capacity_def transaction_state_new_def
        example_container_def Let_def)
qed

lemma example_room: "hp_len list_heap (priority_queue example_container) < batch_ids_left example_scheduler"
  by (simp add: list_heap_def example_container_def batch_ids_left_def example_scheduler_def tracker_new_def)

lemma example_sent:
  obtains summary st c sent where "schedule list_heap (\<lambda>_. True) (\<lambda>_. True) example_scheduler example_container = Ok (summary, st, c, sent)"
    and "greedy_world list_heap 2 st c sent" and "9 \<in># work_ids sent"
proof -
  let ?p = "Transaction_Priority_Id 5 9"
  obtain k where k: "world_inv (\<lambda>q. mset (snd q)) 2 example_scheduler example_container [] k"
    using greedy_world_inv [OF list_heap_laws example_world] by blast
  have "k + size (mset (snd (priority_queue example_container))) < 2 ^ 64"
    using batch_ids_left [OF k example_room] by (simp add: list_heap_def)
  from schedule_first [OF list_heap_laws k this, of ?p example_ttl _ 5 3 True "\<lambda>_. True" 0 "\<lambda>_. True"]
  have "safely True (schedule list_heap (\<lambda>_. True) (\<lambda>_. True) example_scheduler example_container)
      (\<lambda>(sum, st', c', sent). 9 \<in># work_ids sent)"
    by (simp add: example_scheduler_def example_container_def example_config_def tracker_new_def)
  then obtain summary st c sent where run: "schedule list_heap (\<lambda>_. True) (\<lambda>_. True) example_scheduler example_container = Ok (summary, st, c, sent)"
      "9 \<in># work_ids sent"
    by (auto simp: safely_def split: result.splits)
  with that world_schedule [OF example_world example_room run(1)] show thesis by simp
qed

text \<open>
  C5: the scheduler never panics. In every state it reaches, with any behaviour of the workers and any
  queue that keeps its promises, a pass makes no failing assertion, no missing lookup and no index out
  of range, and it fails only when a channel is closed; and every work in flight that comes back is
  accepted, whatever indexes are to be retried. The pass needs room in the 64-bit batch ids.
\<close>

theorem greedy_never_panics:
  assumes "heap_laws hp items" and "greedy_world hp n st c fl"
  shows "(hp_len hp (priority_queue c) < batch_ids_left st \<longrightarrow>
      (case schedule hp connected pre_lock_filter st c of Ok _ \<Rightarrow> True | Err _ \<Rightarrow> \<not> (\<forall>t. connected t) | Panic \<Rightarrow> False))
    \<and> (\<forall>(t, w)\<in>set fl. \<exists>st' c'. try_receive_completed hp (Received \<lparr>fw_work = w, fw_retryable_indexes = retryable\<rparr>) st c =
      Ok ((length (cw_ids w), length retryable), st', c'))"
proof -
  obtain k where k: "world_inv items n st c fl k" using greedy_world_inv [OF assms] by blast
  have "safely (\<forall>t. connected t) (schedule hp connected pre_lock_filter st c) (\<lambda>_. True)" if "hp_len hp (priority_queue c) < batch_ids_left st"
    by (rule safely_mono [OF schedule_inv [OF assms(1) k]]) (use batch_ids_left [OF k that] heap_lawsD(2) [OF assms(1)] in auto)
  then show ?thesis
    using receive_inv [OF assms(1) k, of _ _ retryable] by (fastforce simp: safely_def split: result.splits)
qed

theorem greedy_never_panics_witness:
  "\<exists>summary st c sent. schedule list_heap (\<lambda>_. True) (\<lambda>_. True) example_scheduler example_container = Ok (summary, st, c, sent)
     \<and> sent \<noteq> [] \<and> (\<forall>(t, w)\<in>set sent. try_receive_completed list_heap (Received \<lparr>fw_work = w, fw_retryable_indexes = [0]\<rparr>) st c \<noteq> Panic)"
proof -
  obtain summary st c sent where run: "schedule list_heap (\<lambda>_. True) (\<lambda>_. True) example_scheduler example_container = Ok (summary, st, c, sent)"
    and world: "greedy_world list_heap 2 st c sent" and ids: "9 \<in># work_ids sent" by (rule example_sent)
  have "sent \<noteq> []" using ids by auto
  then show ?thesis using run greedy_never_panics [OF list_heap_laws world, of _ _ "[0]"] by fastforce
qed

lemma distinct_by_count: "(\<And>i. count (mset xs) i \<le> 1) \<Longrightarrow> distinct xs"
proof (induction xs)
  case (Cons x xs)
  have "count (mset xs) x = 0" using Cons.prems [of x] by simp
  moreover have "count (mset xs) i \<le> 1" for i using Cons.prems [of i] by (auto simp del: count_mset_0_iff split: if_splits)
  ultimately show ?case using Cons.IH by (simp add: count_mset_0_iff)
qed simp

text \<open>
  C6: what the workers hold together is always safe to execute in parallel. In every state the scheduler
  reaches, two transactions in flight on different threads never share an account that one of them
  writes, no transaction is in flight twice, and the tracker counts the transactions of each thread.
\<close>

theorem greedy_in_flight_safe:
  assumes "heap_laws hp items" and "greedy_world hp n st c fl"
  shows "(\<forall>(t, w)\<in>set fl. \<forall>(t', w')\<in>set fl. \<forall>tx\<in>set (cw_transactions w). \<forall>tx'\<in>set (cw_transactions w').
      \<not> threads_conflict (t, write_account_locks tx, read_account_locks tx) (t', write_account_locks tx', read_account_locks tx'))
    \<and> distinct (concat (map (\<lambda>(t, w). cw_ids w) fl))
    \<and> (\<forall>t<n. num_in_flight_per_thread (gs_tracker st) ! t = length (concat (map (\<lambda>(t', w). if t' = t then cw_ids w else []) fl)))"
proof -
  obtain k where k: "world_inv items n st c fl k" using greedy_world_inv [OF assms] by blast
  then have table: "table_inv n (gs_locks st) (work_flights fl)" and tr: "works_tracked n (gs_tracker st) fl k"
    and cinv: "container_inv items c {#} (work_ids fl)" by (simp_all add: world_inv_def sched_inv_def)
  have "flight t tx \<in># work_flights fl" if "(t, w) \<in> set fl" "tx \<in> set (cw_transactions w)" for t w tx
    using work_remove(1) [OF that(1)] that(2) by simp
  then have "\<not> threads_conflict (flight t tx) (flight t' tx')"
    if "(t, w) \<in> set fl" "(t', w') \<in> set fl" "tx \<in> set (cw_transactions w)" "tx' \<in> set (cw_transactions w')" for t w t' w' tx tx'
    using tl.separate [OF table] that by blast
  moreover have ids: "mset (concat (map (\<lambda>(t, w). cw_ids w) fl)) = work_ids fl" by (induction fl) auto
  have "count (work_ids fl) i \<le> 1" for i using container_inv_count(1) [OF cinv, of i] by simp
  then have "distinct (concat (map (\<lambda>(t, w). cw_ids w) fl))" unfolding ids [symmetric] by (rule distinct_by_count)
  moreover have "num_in_flight_per_thread (gs_tracker st) ! t = length (concat (map (\<lambda>(t', w). if t' = t then cw_ids w else []) fl))"
    if "t < n" for t
  proof -
    have len: "length (concat (map (\<lambda>(t', w). if t' = t then cw_ids w else []) fl)) =
        sum_list (map (\<lambda>(t', w). if t' = t then length (cw_ids w) else 0) fl)" by (induction fl) auto
    have "sum_list (map (\<lambda>(t', w). if t' = t then length (cw_ids w) else 0) fl) \<le> size (work_ids fl)" by (induction fl) auto
    also have "\<dots> < 2 ^ 64" using cinv by (simp add: container_inv_def)
    finally show ?thesis using works_trackedD(10) [OF tr that] len by simp
  qed
  ultimately show ?thesis unfolding flight_def by (auto simp del: threads_conflict.simps)
qed

theorem greedy_in_flight_safe_witness:
  "\<exists>st c fl. greedy_world list_heap 2 st c fl \<and> fl \<noteq> [] \<and> distinct (concat (map (\<lambda>(t, w). cw_ids w) fl))"
proof -
  obtain summary st c sent where world: "greedy_world list_heap 2 st c sent" and ids: "9 \<in># work_ids sent" by (rule example_sent)
  moreover have "sent \<noteq> []" using ids by auto
  ultimately show ?thesis using greedy_in_flight_safe [OF list_heap_laws world] by blast
qed

text \<open>
  C10: progress. A pass sends the transaction of highest priority whenever it passes the filter and some
  thread below its share of the compute budget has no conflict with what is in flight elsewhere.
\<close>

theorem greedy_sends_best:
  assumes "heap_laws hp items" and "greedy_world hp n st c fl" and "hp_len hp (priority_queue c) < batch_ids_left st"
    and "0 < max_scanned_transactions_per_scheduling_pass (gs_config st)" and "\<forall>t. connected t"
    and "p \<in># items (priority_queue c)" and "\<forall>p'\<in>#items (priority_queue c). p' \<le> p"
    and "id_to_transaction_state c (pid_id p) = Some (Unprocessed ttl packet priority cost fwd)"
    and "pre_lock_filter (ttl_transaction ttl)"
    and "t < n" and "cus_in_flight_per_thread (gs_tracker st) ! t < target_scheduled_cus (gs_config st) div n"
    and "\<forall>(t', w)\<in>set fl. \<forall>tx\<in>set (cw_transactions w).
      \<not> threads_conflict (t, write_account_locks (ttl_transaction ttl), read_account_locks (ttl_transaction ttl))
          (t', write_account_locks tx, read_account_locks tx)"
  shows "\<exists>summary st' c' sent. schedule hp connected pre_lock_filter st c = Ok (summary, st', c', sent)
    \<and> (\<exists>(t', w)\<in>set sent. pid_id p \<in> set (cw_ids w))"
proof -
  obtain k where k: "world_inv items n st c fl k" using greedy_world_inv [OF assms(1,2)] by blast
  have bound: "k + size (items (priority_queue c)) < 2 ^ 64"
    using batch_ids_left [OF k assms(3)] heap_lawsD(2) [OF assms(1)] by simp
  have "h \<in># work_flights fl \<Longrightarrow> \<exists>(t', w)\<in>set fl. \<exists>tx\<in>set (cw_transactions w). h = flight t' tx" for h
    by (induction fl) auto
  then have free: "\<forall>h\<in>#work_flights fl. \<not> threads_conflict (flight t (ttl_transaction ttl)) h"
    using assms(12) unfolding flight_def by fast
  have "safely (\<forall>t. connected t) (schedule hp connected pre_lock_filter st c) (\<lambda>(sum, st', c', sent). pid_id p \<in># work_ids sent)"
    by (rule schedule_first [OF assms(1) k bound assms(4,6,7,8) _ assms(10,11) free]) (rule assms(9))
  moreover have "i \<in># work_ids sent \<Longrightarrow> \<exists>(t', w)\<in>set sent. i \<in> set (cw_ids w)" for i sent by (induction sent) auto
  ultimately show ?thesis using assms(5) by (auto simp: safely_def split: result.splits)
qed

theorem greedy_sends_best_witness:
  "\<exists>summary st' c' sent. schedule list_heap (\<lambda>_. True) (\<lambda>_. True) example_scheduler example_container = Ok (summary, st', c', sent)
     \<and> (\<exists>(t', w)\<in>set sent. 9 \<in> set (cw_ids w))"
  using greedy_sends_best [OF list_heap_laws example_world example_room, of "\<lambda>_. True" "Transaction_Priority_Id 5 9" example_ttl _ 5 3 True "\<lambda>_. True" 0]
  by (simp add: example_scheduler_def example_container_def example_config_def tracker_new_def)

end
