(* ===== verification/Program_Account.thy ===== *)
theory Program_Account
  imports Pubkey
begin

text \<open>
  What on-chain programs written against the SDK see: the errors they return
  (\<^verbatim>\<open>sdk/program-error/src/lib.rs\<close>) and the accounts passed to them (\<^verbatim>\<open>sdk/account-info/src/lib.rs\<close>).
\<close>

section \<open>Definitions\<close>

datatype program_error =
    Custom nat
  | InvalidArgument
  | InvalidInstructionData
  | InvalidAccountData
  | AccountDataTooSmall
  | InsufficientFunds
  | IncorrectProgramId
  | MissingRequiredSignature
  | AccountAlreadyInitialized
  | UninitializedAccount
  | NotEnoughAccountKeys
  | AccountBorrowFailed
  | MaxSeedLengthExceeded
  | InvalidSeeds
  | BorshIoError string
  | AccountNotRentExempt
  | UnsupportedSysvar
  | IllegalOwner
  | MaxAccountsDataAllocationsExceeded
  | InvalidRealloc
  | MaxInstructionTraceLengthExceeded
  | BuiltinProgramsMustConsumeComputeUnits
  | InvalidAccountOwner
  | ArithmeticOverflow
  | Immutable
  | IncorrectAuthority

text \<open>
  The accounts of an instruction: \<open>AccountInfo\<close> names an account, and the cells that hold its lamports, data
  and owner are those of a store by key, so that two infos of one account share them.
\<close>

record account_info =
  ai_key :: pubkey
  ai_is_signer :: bool

record 'd program_account =
  pa_lamports :: nat
  pa_data :: 'd
  pa_owner :: pubkey

type_synonym 'd account_store = "pubkey \<Rightarrow> 'd program_account"

text \<open>The first \<open>n\<close> calls of \<open>next_account_info\<close>, and what the iterator still holds.\<close>

definition next_account_infos ::
  "nat \<Rightarrow> account_info list \<Rightarrow> (program_error, account_info list \<times> account_info list) result" where
  "next_account_infos n accounts =
     (if length accounts < n then Err NotEnoughAccountKeys else Ok (take n accounts, drop n accounts))"

section \<open>Errors and accounts of a program\<close>

end
