(* ===== verification/Lockup_Pool.thy ===== *)
theory Lockup_Pool
  imports Program_Account Std_Slice "HOL-Library.Multiset"
begin

text \<open>
  The pool of the Paladin lockup program (\<^verbatim>\<open>paladin-programs/lockup/program/src/state.rs\<close>, \<^verbatim>\<open>error.rs\<close> and
  the parts of \<^verbatim>\<open>processor.rs\<close> that work on the pool): an array of 1024 entries that lists the largest
  lockups in descending order. \<open>pool_inv\<close> describes the well-formed pools; the lemmas say what entering
  and leaving the pool does to its entries, from the contract of binary search only.
\<close>

section \<open>Definitions\<close>

definition LOCKUP_CAPACITY :: nat where "LOCKUP_CAPACITY = 1024"

record lockup_pool_entry =
  pe_lockup :: pubkey
  pe_amount :: nat
  pe_metadata :: "byte list"

definition lockup_pool_entry_default :: lockup_pool_entry where
  "lockup_pool_entry_default = \<lparr>pe_lockup = 0, pe_amount = 0, pe_metadata = replicate 32 0\<rparr>"

record lockup_pool =
  lp_discriminator :: "byte list"
  lp_entries :: "lockup_pool_entry list"
  lp_entries_len :: nat

record lockup =
  lk_discriminator :: "byte list"
  lk_amount :: nat
  lk_authority :: pubkey
  lk_start_timestamp :: nat
  lk_end_timestamp :: "nat option"
  lk_mint :: pubkey
  lk_pool :: pubkey
  lk_metadata :: "byte list"

datatype paladin_lockup_error =
    IncorrectMint
  | IncorrectEscrowAuthorityAddress
  | IncorrectEscrowTokenAccount
  | LockupActive
  | LockupAlreadyUnlocked
  | AmountTooLow
  | IncorrectPool

fun lockup_error_code :: "paladin_lockup_error \<Rightarrow> nat" where
  "lockup_error_code IncorrectMint = 0"
| "lockup_error_code IncorrectEscrowAuthorityAddress = 1"
| "lockup_error_code IncorrectEscrowTokenAccount = 2"
| "lockup_error_code LockupActive = 3"
| "lockup_error_code LockupAlreadyUnlocked = 4"
| "lockup_error_code AmountTooLow = 5"
| "lockup_error_code IncorrectPool = 6"

definition lockup_err :: "paladin_lockup_error \<Rightarrow> program_error" where
  "lockup_err e = Custom (lockup_error_code e)"

text \<open>The part of \<open>process_lockup\<close> that enters a lockup into the pool.\<close>

definition pool_insert :: "pubkey \<Rightarrow> nat \<Rightarrow> byte list \<Rightarrow> lockup_pool \<Rightarrow> (program_error, lockup_pool) result" where
  "pool_insert key amount metadata pool =
     (let last_index = min (lp_entries_len pool) (LOCKUP_CAPACITY - 1) in
      rbind (assert_that (last_index < length (lp_entries pool))) (\<lambda>_.
      let last_amount = pe_amount (lp_entries pool ! last_index) in
      rbind (if lp_entries_len pool = length (lp_entries pool) then
               if last_amount < amount then Ok (lp_entries_len pool) else Err (lockup_err AmountTooLow)
             else unwrap (checked_add_u64 (lp_entries_len pool) 1)) (\<lambda>entries_len.
      let index = (case binary_search_by (\<lambda>entry. cmp amount (pe_amount entry)) (lp_entries pool) of Inr i \<Rightarrow> i | Inl i \<Rightarrow> i);
          entries = (lp_entries pool)[length (lp_entries pool) - 1 := \<lparr>pe_lockup = key, pe_amount = amount, pe_metadata = metadata\<rparr>] in
      rbind (assert_that (index < length entries)) (\<lambda>_.
      Ok (pool\<lparr>lp_entries := take index entries @ rotate_right1 (drop index entries), lp_entries_len := entries_len\<rparr>)))))"

text \<open>
  The part of \<open>process_unlock\<close> that takes a lockup out of the pool. \<open>position\<close> is the index of the first
  element that satisfies the predicate.
\<close>

fun position :: "('a \<Rightarrow> bool) \<Rightarrow> 'a list \<Rightarrow> nat option" where
  "position p [] = None"
| "position p (x # xs) = (if p x then Some 0 else map_option Suc (position p xs))"

definition pool_remove :: "pubkey \<Rightarrow> nat \<Rightarrow> lockup_pool \<Rightarrow> (program_error, lockup_pool) result" where
  "pool_remove key amount pool =
     (let point = partition_point (\<lambda>entry. amount < pe_amount entry) (lp_entries pool) in
      if point \<noteq> lp_entries_len pool then
        rbind (unwrap (position (\<lambda>entry. pe_lockup entry = key)
          (takeWhile (\<lambda>entry. pe_amount entry = amount) (drop point (lp_entries pool))))) (\<lambda>offset.
        let index = point + offset;
            entries = (lp_entries pool)[index := lockup_pool_entry_default] in
        rbind (unwrap (checked_sub (lp_entries_len pool) 1)) (\<lambda>entries_len.
        Ok (pool\<lparr>lp_entries := take index entries @ rotate_left1 (drop index entries), lp_entries_len := entries_len\<rparr>)))
      else Ok pool)"

text \<open>The entries of a pool, and the well-formed pools: the entries in use come first, in descending order.\<close>

definition pool_entries :: "lockup_pool \<Rightarrow> lockup_pool_entry list" where
  "pool_entries pool = take (lp_entries_len pool) (lp_entries pool)"

definition pool_inv :: "lockup_pool \<Rightarrow> bool" where
  "pool_inv pool \<longleftrightarrow> length (lp_entries pool) = LOCKUP_CAPACITY \<and> lp_entries_len pool \<le> LOCKUP_CAPACITY
     \<and> sorted_wrt (\<lambda>x y. pe_amount y \<le> pe_amount x) (pool_entries pool)
     \<and> (\<forall>e\<in>set (pool_entries pool). 0 < pe_amount e)
     \<and> drop (lp_entries_len pool) (lp_entries pool) = replicate (LOCKUP_CAPACITY - lp_entries_len pool) lockup_pool_entry_default
     \<and> distinct (map pe_lockup (pool_entries pool))"

abbreviation (input) descending :: "lockup_pool_entry list \<Rightarrow> bool" where
  "descending \<equiv> sorted_wrt (\<lambda>x y. pe_amount y \<le> pe_amount x)"

section \<open>Entering and leaving the pool\<close>

lemma pool_split:
  assumes "pool_inv pool"
  shows "lp_entries pool = pool_entries pool @ replicate (LOCKUP_CAPACITY - lp_entries_len pool) lockup_pool_entry_default"
    and "length (pool_entries pool) = lp_entries_len pool"
proof -
  show "lp_entries pool = pool_entries pool @ replicate (LOCKUP_CAPACITY - lp_entries_len pool) lockup_pool_entry_default"
    using assms append_take_drop_id [of "lp_entries_len pool" "lp_entries pool"] by (simp add: pool_inv_def pool_entries_def)
  show "length (pool_entries pool) = lp_entries_len pool" using assms by (simp add: pool_inv_def pool_entries_def)
qed

lemma default_amount [simp]: "pe_amount lockup_pool_entry_default = 0"
  by (simp add: lockup_pool_entry_default_def)

lemma pool_descending:
  assumes "pool_inv pool"
  shows "descending (lp_entries pool)"
proof -
  have "descending (replicate m lockup_pool_entry_default)" for m by (induction m) auto
  then show ?thesis
    using assms pool_split(1) [OF assms] by (auto simp: pool_inv_def sorted_wrt_append)
qed

lemma pool_invI:
  assumes "lp_entries pool = xs @ replicate (LOCKUP_CAPACITY - length xs) lockup_pool_entry_default" and "lp_entries_len pool = length xs"
    and "length xs \<le> LOCKUP_CAPACITY" and "descending xs" and "\<forall>e\<in>set xs. 0 < pe_amount e" and "distinct (map pe_lockup xs)"
  shows "pool_inv pool" and "pool_entries pool = xs"
  using assms by (simp_all add: pool_inv_def pool_entries_def)

text \<open>The binary search finds a place that keeps the order.\<close>

lemma search_place:
  assumes "descending xs" and "k = (case binary_search_by (\<lambda>e. cmp amount (pe_amount e)) xs of Inr i \<Rightarrow> i | Inl i \<Rightarrow> i)"
  shows "k \<le> length xs" and "j < k \<Longrightarrow> amount \<le> pe_amount (xs ! j)" and "k \<le> j \<Longrightarrow> j < length xs \<Longrightarrow> pe_amount (xs ! j) \<le> amount"
proof -
  let ?f = "\<lambda>e. cmp amount (pe_amount e)"
  have "partitioned_by ?f xs"
    unfolding partitioned_by_def by (rule sorted_wrt_mono_rel [OF _ assms(1)]) (auto simp: cmp_def)
  moreover have "(case binary_search_by ?f xs of Inl i \<Rightarrow> i | Inr i \<Rightarrow> i) = k" using assms(2) by (simp split: sum.splits)
  ultimately have "k \<le> length xs" "j < k \<Longrightarrow> ?f (xs ! j) \<noteq> Greater" "k \<le> j \<Longrightarrow> j < length xs \<Longrightarrow> ?f (xs ! j) \<noteq> Less"
    using slice_bs.insertion_point by blast+
  then show "k \<le> length xs" and "j < k \<Longrightarrow> amount \<le> pe_amount (xs ! j)" and "k \<le> j \<Longrightarrow> j < length xs \<Longrightarrow> pe_amount (xs ! j) \<le> amount"
    by (auto simp: cmp_def split: if_splits)
qed

lemma place_last:
  assumes "k < length xs"
  shows "take k (xs[length xs - 1 := e]) @ rotate_right1 (drop k (xs[length xs - 1 := e])) = take k (butlast xs) @ e # drop k (butlast xs)"
proof -
  obtain ys y where xs: "xs = ys @ [y]" using assms by (cases xs rule: rev_cases) auto
  then have "xs[length xs - 1 := e] = ys @ [e]" "k \<le> length ys" using assms by (auto simp: list_update_append)
  then show ?thesis by (simp add: xs rotate_right1_def)
qed

lemma descending_insert:
  assumes "descending xs" and "k \<le> length xs" and "\<And>j. j < k \<Longrightarrow> pe_amount e \<le> pe_amount (xs ! j)"
    and "\<And>j. k \<le> j \<Longrightarrow> j < length xs \<Longrightarrow> pe_amount (xs ! j) \<le> pe_amount e"
  shows "descending (take k xs @ e # drop k xs)"
proof -
  have "\<forall>x\<in>set (take k xs). pe_amount e \<le> pe_amount x" using assms(2,3) by (auto simp: in_set_conv_nth)
  moreover have "\<forall>x\<in>set (drop k xs). pe_amount x \<le> pe_amount e" using assms(4) by (auto simp: in_set_conv_nth)
  moreover have "descending (take k xs @ drop k xs)" using assms(1) by simp
  ultimately show ?thesis unfolding sorted_wrt_append by auto
qed

lemma distinct_insert: "distinct ys \<Longrightarrow> z \<notin> set ys \<Longrightarrow> distinct (take k ys @ z # drop k ys)"
  using set_take_disj_set_drop_if_distinct [of ys k k] by (auto dest: in_set_takeD in_set_dropD)

lemma pool_insert_entries:
  fixes metadata :: "byte list"
  assumes inv: "pool_inv pool" and amount: "0 < amount" "amount \<le> u64_max" and fresh: "key \<notin> pe_lockup ` set (pool_entries pool)"
  defines "xs \<equiv> (if lp_entries_len pool = LOCKUP_CAPACITY then butlast (pool_entries pool) else pool_entries pool)"
    and "e \<equiv> \<lparr>pe_lockup = key, pe_amount = amount, pe_metadata = metadata\<rparr>"
  shows "if lp_entries_len pool = LOCKUP_CAPACITY \<and> amount \<le> pe_amount (last (pool_entries pool))
    then pool_insert key amount metadata pool = Err (lockup_err AmountTooLow)
    else \<exists>k pool'. pool_insert key amount metadata pool = Ok pool' \<and> pool_inv pool' \<and> k \<le> length xs
      \<and> pool_entries pool' = take k xs @ e # drop k xs \<and> lp_discriminator pool' = lp_discriminator pool"
proof -
  let ?E = "lp_entries pool" and ?n = "lp_entries_len pool"
  note split = pool_split [OF inv]
  have len: "length ?E = LOCKUP_CAPACITY" and n: "?n \<le> LOCKUP_CAPACITY" using inv by (simp_all add: pool_inv_def)
  define k where "k = (case binary_search_by (\<lambda>e. cmp amount (pe_amount e)) ?E of Inr i \<Rightarrow> i | Inl i \<Rightarrow> i)"
  note place = search_place [OF pool_descending [OF inv] k_def]
  have cap: "0 < LOCKUP_CAPACITY" "LOCKUP_CAPACITY \<le> u64_max" by (simp_all add: LOCKUP_CAPACITY_def)
  have last: "?E ! (LOCKUP_CAPACITY - 1) = last (pool_entries pool)" if "?n = LOCKUP_CAPACITY"
    using split that cap by (cases "pool_entries pool" rule: rev_cases) (auto simp: nth_append)
  show ?thesis
  proof (cases "?n = LOCKUP_CAPACITY \<and> amount \<le> pe_amount (last (pool_entries pool))")
    case True
    then show ?thesis using last len cap by (simp add: pool_insert_def Let_def assert_that_def)
  next
    case False
    have room: "k < length ?E \<and> k \<le> length xs"
    proof (cases "?n = LOCKUP_CAPACITY")
      case True
      then have "\<not> LOCKUP_CAPACITY - 1 < k" using place(2) [of "LOCKUP_CAPACITY - 1"] False last by auto
      then show ?thesis using True cap split(2) len by (simp add: xs_def)
    next
      case below: False
      then have "?E ! ?n = lockup_pool_entry_default" using split n by (simp add: nth_append)
      then have "\<not> ?n < k" using place(2) [of ?n] amount by auto
      then show ?thesis using below n len split(2) by (simp add: xs_def)
    qed
    have lx: "length xs = (if ?n = LOCKUP_CAPACITY then ?n - 1 else ?n)" using split(2) by (simp add: xs_def)
    have E': "butlast ?E = xs @ replicate (LOCKUP_CAPACITY - 1 - length xs) lockup_pool_entry_default"
      using split n by (auto simp: xs_def butlast_append butlast_conv_take [of "replicate _ _"])
    let ?zs = "take k xs @ e # drop k xs"
    have nth: "?E ! j = xs ! j" if "j < length xs" for j
      using that E' len nth_butlast [of j ?E] by (simp add: nth_append)
    have "descending ?zs"
    proof (rule descending_insert)
      show "descending xs" using inv by (simp add: xs_def pool_inv_def sorted_wrt_butlast)
      show "k \<le> length xs" using room by simp
      show "pe_amount e \<le> pe_amount (xs ! j)" if "j < k" for j
        using place(2) [OF that] nth [of j] room that by (simp add: e_def)
      show "pe_amount (xs ! j) \<le> pe_amount e" if "k \<le> j" "j < length xs" for j
        using place(3) [of j] nth [of j] that lx n len by (simp add: e_def split: if_splits)
    qed
    have sub: "set xs \<subseteq> set (pool_entries pool)" by (auto simp: xs_def dest: in_set_butlastD)
    have "distinct (map pe_lockup xs)" using inv by (simp add: xs_def pool_inv_def map_butlast distinct_butlast)
    moreover have "key \<notin> set (map pe_lockup xs)" using fresh sub by auto
    ultimately have "distinct (map pe_lockup ?zs)" using distinct_insert [of "map pe_lockup xs" key k] by (simp add: take_map drop_map e_def)
    moreover have "\<forall>x\<in>set ?zs. 0 < pe_amount x"
      using inv sub amount(1) unfolding pool_inv_def by (auto simp: e_def dest: in_set_takeD in_set_dropD)
    ultimately have zs: "descending ?zs" "\<forall>x\<in>set ?zs. 0 < pe_amount x" "distinct (map pe_lockup ?zs)"
      using \<open>descending ?zs\<close> by blast+
    let ?p = "pool\<lparr>lp_entries := take k (butlast ?E) @ e # drop k (butlast ?E), lp_entries_len := length xs + 1\<rparr>"
    have "pool_insert key amount metadata pool = Ok ?p"
      using False last len cap n amount place room lx place_last [of k ?E e]
      by (auto simp: pool_insert_def Let_def assert_that_def k_def [symmetric] e_def [symmetric] checked_add_u64_def unwrap_def)
    moreover have "lp_entries ?p = ?zs @ replicate (LOCKUP_CAPACITY - length ?zs) lockup_pool_entry_default"
      using E' room by simp
    from pool_invI [OF this] zs have "pool_inv ?p" "pool_entries ?p = ?zs" using lx n cap room by auto
    ultimately show ?thesis using False room by auto
  qed
qed

text \<open>A lockup leaves the pool.\<close>

lemma position_None: "position p xs = None \<longleftrightarrow> (\<forall>x\<in>set xs. \<not> p x)"
  by (induction xs) auto

lemma position_Some: "position p xs = Some i \<Longrightarrow> i < length xs \<and> p (xs ! i)"
  by (induction xs arbitrary: i) (auto split: if_splits)

lemma filter_other_keys:
  assumes "distinct (map f xs)" and "i < length xs"
  shows "filter (\<lambda>x. f x \<noteq> f (xs ! i)) xs = take i xs @ drop (Suc i) xs"
proof -
  have xs: "xs = take i xs @ xs ! i # drop (Suc i) xs" using assms(2) by (rule id_take_nth_drop)
  have "distinct (map f (take i xs @ xs ! i # drop (Suc i) xs))" using assms(1) xs by simp
  then have "f (xs ! i) \<notin> f ` set (take i xs)" "f (xs ! i) \<notin> f ` set (drop (Suc i) xs)" by simp_all
  then have "\<forall>x\<in>set (take i xs) \<union> set (drop (Suc i) xs). f x \<noteq> f (xs ! i)" by (metis Un_iff image_eqI)
  then have "filter (\<lambda>x. f x \<noteq> f (xs ! i)) (take i xs @ xs ! i # drop (Suc i) xs) = take i xs @ drop (Suc i) xs"
    by (simp add: filter_id_conv)
  then show ?thesis using xs by simp
qed

lemma in_takeWhile: "i < length ys \<Longrightarrow> (\<And>j. j \<le> i \<Longrightarrow> p (ys ! j)) \<Longrightarrow> ys ! i \<in> set (takeWhile p ys)"
  using length_takeWhile_less_P_nth [of "Suc i" p ys] takeWhile_nth [of i p ys]
  by (metis Suc_le_eq less_Suc_eq_le nth_mem)

text \<open>The entries of a greater amount come first, then those of the same amount.\<close>

lemma pool_point:
  assumes inv: "pool_inv pool" and amount: "0 < amount"
  defines "k \<equiv> partition_point (\<lambda>e. amount < pe_amount e) (lp_entries pool)"
  shows "k \<le> lp_entries_len pool" and "j < k \<Longrightarrow> amount < pe_amount (pool_entries pool ! j)"
    and "k \<le> j \<Longrightarrow> j < LOCKUP_CAPACITY \<Longrightarrow> pe_amount (lp_entries pool ! j) \<le> amount"
    and "e \<in> set (takeWhile (\<lambda>e. pe_amount e = amount) (drop k (lp_entries pool))) \<longleftrightarrow> e \<in> set (pool_entries pool) \<and> pe_amount e = amount"
proof -
  let ?E = "lp_entries pool" and ?xs = "pool_entries pool" and ?p = "\<lambda>e. amount < pe_amount e"
  note split = pool_split [OF inv]
  have len: "length ?E = LOCKUP_CAPACITY" and n: "lp_entries_len pool \<le> LOCKUP_CAPACITY" using inv by (simp_all add: pool_inv_def)
  define m where "m = length (takeWhile ?p ?xs)"
  have m: "m \<le> lp_entries_len pool" unfolding m_def split(2) [symmetric] by (rule length_takeWhile_le)
  have before: "?p (?xs ! j)" if "j < m" for j using that nth_mem [of j "takeWhile ?p ?xs"] takeWhile_nth [of j ?p ?xs] set_takeWhileD by (fastforce simp: m_def)
  have nth: "?E ! j = ?xs ! j" if "j < lp_entries_len pool" for j using that split by (simp add: nth_append)
  have after: "pe_amount (?E ! j) \<le> amount" if "m \<le> j" "j < LOCKUP_CAPACITY" for j
  proof (cases "m < lp_entries_len pool")
    case True
    then have "\<not> ?p (?E ! m)" using nth_length_takeWhile [of ?p ?xs] split(2) nth [of m] by (simp add: m_def)
    moreover have "pe_amount (?E ! j) \<le> pe_amount (?E ! m)"
      using pool_descending [OF inv] that len by (cases "m = j") (auto simp: sorted_wrt_iff_nth_less)
    ultimately show ?thesis by simp
  next
    case False
    then have "?E ! j = lockup_pool_entry_default" using that m split by (simp add: nth_append)
    then show ?thesis by simp
  qed
  have k: "k = m" unfolding k_def
    by (rule partition_point_eq) (use m n len before after nth in \<open>auto simp: not_less\<close>)
  show "k \<le> lp_entries_len pool" and "j < k \<Longrightarrow> ?p (?xs ! j)" and "k \<le> j \<Longrightarrow> j < LOCKUP_CAPACITY \<Longrightarrow> pe_amount (?E ! j) \<le> amount"
    using m before after by (simp_all add: k)
  show "e \<in> set (takeWhile (\<lambda>e. pe_amount e = amount) (drop k ?E)) \<longleftrightarrow> e \<in> set ?xs \<and> pe_amount e = amount"
  proof
    assume "e \<in> set (takeWhile (\<lambda>e. pe_amount e = amount) (drop k ?E))"
    then have "e \<in> set ?E" "pe_amount e = amount" by (auto dest: set_takeWhileD in_set_dropD)
    then show "e \<in> set ?xs \<and> pe_amount e = amount" using amount by (subst (asm) split(1)) auto
  next
    assume e: "e \<in> set ?xs \<and> pe_amount e = amount"
    then obtain i where i: "i < lp_entries_len pool" "?xs ! i = e" using split(2) by (auto simp: in_set_conv_nth)
    have "m \<le> i" using before [of i] i e by (auto simp: not_less [symmetric])
    have "pe_amount (?E ! (m + j)) = amount" if "j \<le> i - m" for j
    proof -
      have "pe_amount (?E ! i) \<le> pe_amount (?E ! (m + j))"
        using pool_descending [OF inv] that i(1) n len \<open>m \<le> i\<close> by (cases "m + j = i") (auto simp: sorted_wrt_iff_nth_less)
      then show ?thesis using after [of "m + j"] that i n nth [of i] e \<open>m \<le> i\<close> by simp
    qed
    then have "drop m ?E ! (i - m) \<in> set (takeWhile (\<lambda>e. pe_amount e = amount) (drop m ?E))"
      using i n len \<open>m \<le> i\<close> by (intro in_takeWhile) auto
    then show "e \<in> set (takeWhile (\<lambda>e. pe_amount e = amount) (drop k ?E))" using i n len nth [of i] \<open>m \<le> i\<close> by (simp add: k)
  qed
qed

lemma pool_remove_absent:
  assumes inv: "pool_inv pool" and amount: "0 < amount"
    and absent: "\<not> (\<exists>e\<in>set (pool_entries pool). pe_lockup e = key \<and> pe_amount e = amount)"
  shows "pool_remove key amount pool = (if \<forall>e\<in>set (pool_entries pool). amount < pe_amount e then Ok pool else Panic)"
proof -
  let ?k = "partition_point (\<lambda>e. amount < pe_amount e) (lp_entries pool)"
  note point = pool_point [OF inv amount] and split = pool_split [OF inv]
  have "?k = lp_entries_len pool \<longleftrightarrow> (\<forall>e\<in>set (pool_entries pool). amount < pe_amount e)"
  proof
    assume "?k = lp_entries_len pool"
    then show "\<forall>e\<in>set (pool_entries pool). amount < pe_amount e" using point(2) split(2) by (auto simp: in_set_conv_nth)
  next
    assume all: "\<forall>e\<in>set (pool_entries pool). amount < pe_amount e"
    have "\<not> ?k < lp_entries_len pool"
    proof
      assume k: "?k < lp_entries_len pool"
      then have "lp_entries pool ! ?k = pool_entries pool ! ?k" using split by (simp add: nth_append)
      moreover have "pool_entries pool ! ?k \<in> set (pool_entries pool)" using k split(2) by simp
      ultimately show False using point(3) [of ?k] k all inv by (fastforce simp: pool_inv_def)
    qed
    then show "?k = lp_entries_len pool" using point(1) by simp
  qed
  moreover have "position (\<lambda>e. pe_lockup e = key) (takeWhile (\<lambda>e. pe_amount e = amount) (drop ?k (lp_entries pool))) = None"
    using absent point(4) by (auto simp: position_None)
  ultimately show ?thesis by (simp add: pool_remove_def Let_def unwrap_def)
qed

lemma pool_remove_present:
  assumes inv: "pool_inv pool" and e: "e \<in> set (pool_entries pool)"
  shows "\<exists>pool'. pool_remove (pe_lockup e) (pe_amount e) pool = Ok pool' \<and> pool_inv pool'
    \<and> pool_entries pool' = filter (\<lambda>x. pe_lockup x \<noteq> pe_lockup e) (pool_entries pool) \<and> lp_discriminator pool' = lp_discriminator pool"
proof -
  let ?a = "pe_amount e" and ?key = "pe_lockup e" and ?E = "lp_entries pool" and ?xs = "pool_entries pool"
  let ?k = "partition_point (\<lambda>x. ?a < pe_amount x) ?E" and ?n = "lp_entries_len pool"
  let ?B = "takeWhile (\<lambda>x. pe_amount x = ?a) (drop ?k ?E)"
  have amount: "0 < ?a" using inv e by (simp add: pool_inv_def)
  note point = pool_point [OF inv amount] and split = pool_split [OF inv]
  have len: "length ?E = LOCKUP_CAPACITY" and n: "?n \<le> LOCKUP_CAPACITY" and d: "distinct (map pe_lockup ?xs)"
    and desc: "descending ?xs" and pos: "\<forall>x\<in>set ?xs. 0 < pe_amount x" using inv by (simp_all add: pool_inv_def)
  obtain off where off: "position (\<lambda>x. pe_lockup x = ?key) ?B = Some off"
    using e point(4) [of e] position_None [of "\<lambda>x. pe_lockup x = ?key" ?B] by fastforce
  let ?i = "?k + off"
  have B: "off < length ?B" "pe_lockup (?B ! off) = ?key" using position_Some [OF off] by auto
  then have "?B ! off = ?E ! ?i" "off < length (drop ?k ?E)"
    using takeWhile_nth [of off _ "drop ?k ?E"] len point(1) n length_takeWhile_le [of _ "drop ?k ?E"] by (auto intro: less_le_trans)
  then have at: "pe_lockup (?E ! ?i) = ?key" "pe_amount (?E ! ?i) = ?a" "?i < LOCKUP_CAPACITY"
    using B len nth_mem [OF B(1)] by (auto dest: set_takeWhileD)
  have i: "?i < ?n"
  proof (rule ccontr)
    assume "\<not> ?i < ?n"
    then have "?E ! ?i = lockup_pool_entry_default" using at(3) split by (simp add: nth_append)
    then show False using at(2) amount by simp
  qed
  let ?zs = "take ?i ?xs @ drop (Suc ?i) ?xs"
  have xi: "?xs ! ?i = ?E ! ?i" using i split by (simp add: nth_append)
  have zs: "?zs = filter (\<lambda>x. pe_lockup x \<noteq> ?key) ?xs"
    using filter_other_keys [OF d, of ?i] i split(2) xi at(1) by simp
  let ?p = "pool\<lparr>lp_entries := take ?i ?E @ drop (Suc ?i) ?E @ [lockup_pool_entry_default], lp_entries_len := ?n - 1\<rparr>"
  have "drop ?i (?E[?i := lockup_pool_entry_default]) = lockup_pool_entry_default # drop (Suc ?i) ?E"
    using at(3) len by (simp add: upd_conv_take_nth_drop)
  moreover have "?k \<noteq> ?n" using i by simp
  ultimately have run: "pool_remove ?key ?a pool = Ok ?p"
    using off i by (simp add: pool_remove_def Let_def unwrap_def rotate_left1_def checked_sub_def)
  have "lp_entries ?p = ?zs @ replicate (LOCKUP_CAPACITY - length ?zs) lockup_pool_entry_default"
  proof -
    have "replicate (LOCKUP_CAPACITY - ?n) lockup_pool_entry_default @ [lockup_pool_entry_default] = replicate (LOCKUP_CAPACITY - (?n - 1)) lockup_pool_entry_default"
      using i n by (simp add: replicate_append_same Suc_diff_le [symmetric] flip: replicate_Suc)
    then show ?thesis using i split n by (subst (1 2) split(1)) simp
  qed
  moreover have "lp_entries_len ?p = length ?zs" "length ?zs \<le> LOCKUP_CAPACITY" using i n split(2) by simp_all
  moreover have "descending ?zs" "\<forall>x\<in>set ?zs. 0 < pe_amount x" "distinct (map pe_lockup ?zs)"
    unfolding zs using desc pos d by (simp_all add: sorted_wrt_filter distinct_map_filter)
  ultimately have "pool_inv ?p" "pool_entries ?p = ?zs" by (rule pool_invI)+
  then show ?thesis using run zs by auto
qed

end
