(* ===== verification/Lockup_Program.thy ===== *)
theory Lockup_Program
  imports Lockup_Pool
begin

text \<open>
  The Paladin lockup program: \<^verbatim>\<open>paladin-programs/lockup/program/src/processor.rs\<close>, \<^verbatim>\<open>instruction.rs\<close> and the
  escrow address of \<^verbatim>\<open>state.rs\<close>. The accounts are a store by key, so that two infos of one account share
  it; a second borrow that the cells refuse is a branch of the model. The token program and the address
  of an associated token account are parameters. Log messages are left out. For each instruction, a lemma
  lists what a successful run has checked and done.
\<close>

section \<open>Definitions\<close>

text \<open>
  The states are plain data, so the bytes of an account of the size of one of them are that state;
  \<open>Other_Bytes\<close> is data of any other length.
\<close>

datatype lockup_data = Pool_Bytes lockup_pool | Lockup_Bytes lockup | Other_Bytes "byte list"

text \<open>
  The token program and the addresses of associated token accounts belong to other crates: the decimals
  of a mint, and a transfer from a source to a destination by an authority that does or does not sign,
  with the accounts passed on to transfer hooks.
\<close>

record 'tok token_ops =
  tk_associated_address :: "pubkey \<Rightarrow> pubkey \<Rightarrow> pubkey \<Rightarrow> pubkey"
  tk_decimals :: "'tok \<Rightarrow> pubkey \<Rightarrow> (program_error, nat) result"
  tk_transfer_checked :: "'tok \<Rightarrow> pubkey \<Rightarrow> pubkey \<Rightarrow> pubkey \<Rightarrow> pubkey \<Rightarrow> bool \<Rightarrow> account_info list \<Rightarrow> nat \<Rightarrow> nat \<Rightarrow>
    (program_error, 'tok) result"

record 'tok lockup_env =
  le_sha256 :: hash_function
  le_is_curve_point :: "hash \<Rightarrow> bool"
  le_pool_discriminator :: "byte list"
  le_lockup_discriminator :: "byte list"
  le_tokens :: "'tok token_ops"

record 'tok lockup_world =
  lw_accounts :: "lockup_data account_store"
  lw_tokens :: 'tok
  lw_unix_timestamp :: int

definition LOCKUP_COOLDOWN_SECONDS :: nat where "LOCKUP_COOLDOWN_SECONDS = 30 * 60"

definition SEED_PREFIX_ESCROW_AUTHORITY :: "byte list" where
  "SEED_PREFIX_ESCROW_AUTHORITY = [101, 115, 99, 114, 111, 119, 95, 97, 117, 116, 104, 111, 114, 105, 116, 121]"

definition collect_escrow_authority_seeds :: "byte list list" where
  "collect_escrow_authority_seeds = [SEED_PREFIX_ESCROW_AUTHORITY]"

definition collect_escrow_authority_signer_seeds :: "nat \<Rightarrow> byte list list" where
  "collect_escrow_authority_signer_seeds bump_seed = [SEED_PREFIX_ESCROW_AUTHORITY, [word_of_nat bump_seed]]"

definition get_escrow_authority_address_and_bump_seed ::
  "'tok lockup_env \<Rightarrow> pubkey \<Rightarrow> (program_error, pubkey \<times> nat) result" where
  "get_escrow_authority_address_and_bump_seed env program_id =
     unwrap (try_find_program_address (le_sha256 env) (le_is_curve_point env) collect_escrow_authority_seeds program_id)"

definition get_escrow_authority_address :: "'tok lockup_env \<Rightarrow> pubkey \<Rightarrow> (program_error, pubkey) result" where
  "get_escrow_authority_address env program_id =
     rbind (get_escrow_authority_address_and_bump_seed env program_id) (\<lambda>(address, _). Ok address)"

text \<open>A call with signer seeds signs for the address that the seeds derive.\<close>

definition signed_by_seeds :: "'tok lockup_env \<Rightarrow> pubkey \<Rightarrow> byte list list \<Rightarrow> pubkey \<Rightarrow> bool" where
  "signed_by_seeds env program_id seeds key \<longleftrightarrow>
     create_program_address (le_sha256 env) (le_is_curve_point env) seeds program_id = Ok key"

definition as_u64 :: "int \<Rightarrow> nat" where "as_u64 i = nat (i mod 2 ^ 64)"

text \<open>\<open>ArrayDiscriminator::UNINITIALIZED\<close>.\<close>

definition uninitialized :: "byte list" where "uninitialized = replicate 8 0"

text \<open>The assertions on the pool account, and its state.\<close>

definition borrow_pool :: "pubkey \<Rightarrow> lockup_data program_account \<Rightarrow> (program_error, lockup_pool) result" where
  "borrow_pool program_id account =
     rbind (assert_that (pa_owner account = program_id)) (\<lambda>_.
     case pa_data account of Pool_Bytes pool \<Rightarrow> Ok pool | _ \<Rightarrow> Panic)"

text \<open>The state of a lockup account, which has the size of one.\<close>

fun lockup_state :: "lockup_data \<Rightarrow> lockup option" where
  "lockup_state (Lockup_Bytes l) = Some l"
| "lockup_state _ = None"

definition borrow_lockup ::
  "'tok lockup_env \<Rightarrow> pubkey \<Rightarrow> lockup_data program_account \<Rightarrow> (program_error, lockup) result" where
  "borrow_lockup env program_id account =
     rbind (ensure (pa_owner account = program_id) InvalidAccountOwner) (\<lambda>_.
     rbind (ok_or UninitializedAccount (lockup_state (pa_data account))) (\<lambda>state.
     rbind (ensure (lk_discriminator state = le_lockup_discriminator env) UninitializedAccount) (\<lambda>_.
     Ok state)))"

definition set_data :: "pubkey \<Rightarrow> 'd \<Rightarrow> 'd account_store \<Rightarrow> 'd account_store" where
  "set_data key d accounts = accounts(key := (accounts key)\<lparr>pa_data := d\<rparr>)"

definition set_lamports_of :: "pubkey \<Rightarrow> nat \<Rightarrow> 'd account_store \<Rightarrow> 'd account_store" where
  "set_lamports_of key l accounts = accounts(key := (accounts key)\<lparr>pa_lamports := l\<rparr>)"

definition process_initialize_lockup_pool ::
  "'tok lockup_env \<Rightarrow> pubkey \<Rightarrow> account_info list \<Rightarrow> 'tok lockup_world \<Rightarrow> (program_error, 'tok lockup_world) result" where
  "process_initialize_lockup_pool env program_id accounts w =
     rbind (next_account_infos 1 accounts) (\<lambda>(ai, _).
     let key = ai_key (ai ! 0) in
     rbind (borrow_pool program_id (lw_accounts w key)) (\<lambda>pool.
     Ok (w\<lparr>lw_accounts := set_data key (Pool_Bytes (pool\<lparr>lp_discriminator := le_pool_discriminator env\<rparr>)) (lw_accounts w)\<rparr>)))"

text \<open>
  The pool stays mutably borrowed while the lockup is read, so the length of a lockup account that is the
  pool account cannot be taken, and a mint that is one of the two accounts cannot be borrowed.
\<close>

definition process_lockup ::
  "'tok lockup_env \<Rightarrow> pubkey \<Rightarrow> account_info list \<Rightarrow> byte list \<Rightarrow> nat \<Rightarrow> 'tok lockup_world \<Rightarrow>
   (program_error, 'tok lockup_world) result" where
  "process_lockup env program_id accounts metadata amount w =
     rbind (next_account_infos 9 accounts) (\<lambda>(ai, rest).
     let lockup_authority = ai ! 0; token_owner = ai ! 1; token_account = ai_key (ai ! 2); lockup_pool = ai_key (ai ! 3);
         lockup_key = ai_key (ai ! 4); escrow_authority = ai_key (ai ! 5); escrow_token_account = ai_key (ai ! 6);
         mint = ai_key (ai ! 7); token_program = ai_key (ai ! 8); tk = le_tokens env in
     rbind (borrow_pool program_id (lw_accounts w lockup_pool)) (\<lambda>pool.
     rbind (ensure (pa_owner (lw_accounts w lockup_key) = program_id) InvalidAccountOwner) (\<lambda>_.
     rbind (assert_that (lockup_key \<noteq> lockup_pool)) (\<lambda>_.
     rbind (ok_or InvalidAccountData (lockup_state (pa_data (lw_accounts w lockup_key)))) (\<lambda>old.
     rbind (ensure (lk_discriminator old = uninitialized) AccountAlreadyInitialized) (\<lambda>_.
     rbind (get_escrow_authority_address env program_id) (\<lambda>escrow.
     rbind (ensure (escrow_authority = escrow) (lockup_err IncorrectEscrowAuthorityAddress)) (\<lambda>_.
     rbind (ensure (escrow_token_account = tk_associated_address tk escrow_authority mint token_program)
       (lockup_err IncorrectEscrowTokenAccount)) (\<lambda>_.
     let state = \<lparr>lk_discriminator = le_lockup_discriminator env, lk_amount = amount, lk_authority = ai_key lockup_authority,
           lk_start_timestamp = as_u64 (lw_unix_timestamp w), lk_end_timestamp = None, lk_mint = mint, lk_pool = lockup_pool,
           lk_metadata = metadata\<rparr> in
     rbind (pool_insert lockup_key amount metadata pool) (\<lambda>pool.
     rbind (ensure (mint \<noteq> lockup_pool \<and> mint \<noteq> lockup_key) AccountBorrowFailed) (\<lambda>_.
     rbind (tk_decimals tk (lw_tokens w) mint) (\<lambda>decimals.
     rbind (tk_transfer_checked tk (lw_tokens w) token_account mint escrow_token_account (ai_key token_owner)
       (ai_is_signer token_owner) rest amount decimals) (\<lambda>tokens.
     Ok (w\<lparr>lw_accounts := set_data lockup_pool (Pool_Bytes pool) (set_data lockup_key (Lockup_Bytes state) (lw_accounts w)),
           lw_tokens := tokens\<rparr>))))))))))))))"

definition process_unlock ::
  "'tok lockup_env \<Rightarrow> pubkey \<Rightarrow> account_info list \<Rightarrow> 'tok lockup_world \<Rightarrow> (program_error, 'tok lockup_world) result" where
  "process_unlock env program_id accounts w =
     rbind (next_account_infos 3 accounts) (\<lambda>(ai, _).
     let lockup_authority = ai ! 0; lockup_pool = ai_key (ai ! 1); lockup_key = ai_key (ai ! 2) in
     rbind (borrow_pool program_id (lw_accounts w lockup_pool)) (\<lambda>pool.
     rbind (ensure (ai_is_signer lockup_authority) MissingRequiredSignature) (\<lambda>_.
     rbind (ensure (pa_owner (lw_accounts w lockup_key) = program_id) InvalidAccountOwner) (\<lambda>_.
     rbind (assert_that (lockup_key \<noteq> lockup_pool)) (\<lambda>_.
     rbind (borrow_lockup env program_id (lw_accounts w lockup_key)) (\<lambda>state.
     rbind (ensure (lk_authority state = ai_key lockup_authority) IncorrectAuthority) (\<lambda>_.
     rbind (ensure (lk_end_timestamp state = None) (lockup_err LockupAlreadyUnlocked)) (\<lambda>_.
     let now = as_u64 (lw_unix_timestamp w);
         state = state\<lparr>lk_end_timestamp := (if now = 0 then None else Some now)\<rparr> in
     rbind (ensure (lockup_pool = lk_pool state) (lockup_err IncorrectPool)) (\<lambda>_.
     rbind (pool_remove lockup_key (lk_amount state) pool) (\<lambda>pool.
     Ok (w\<lparr>lw_accounts := set_data lockup_pool (Pool_Bytes pool) (set_data lockup_key (Lockup_Bytes state) (lw_accounts w))\<rparr>)))))))))))"

text \<open>A closed account goes back to the system program, whose id is the key of zeros.\<close>

definition process_withdraw ::
  "'tok lockup_env \<Rightarrow> pubkey \<Rightarrow> account_info list \<Rightarrow> 'tok lockup_world \<Rightarrow> (program_error, 'tok lockup_world) result" where
  "process_withdraw env program_id accounts w =
     rbind (next_account_infos 8 accounts) (\<lambda>(ai, rest).
     let lockup_authority = ai ! 0; lamport_destination = ai_key (ai ! 1); token_destination = ai_key (ai ! 2);
         lockup_key = ai_key (ai ! 3); escrow_authority = ai_key (ai ! 4); escrow_token_account = ai_key (ai ! 5);
         mint = ai_key (ai ! 6); token_program = ai_key (ai ! 7); tk = le_tokens env; accts = lw_accounts w in
     rbind (ensure (ai_is_signer lockup_authority) MissingRequiredSignature) (\<lambda>_.
     rbind (borrow_lockup env program_id (accts lockup_key)) (\<lambda>state.
     rbind (get_escrow_authority_address_and_bump_seed env program_id) (\<lambda>(escrow, bump_seed).
     rbind (ensure (escrow_authority = escrow) (lockup_err IncorrectEscrowAuthorityAddress)) (\<lambda>_.
     rbind (ensure (escrow_token_account = tk_associated_address tk escrow_authority mint token_program)
       (lockup_err IncorrectEscrowTokenAccount)) (\<lambda>_.
     rbind (ensure (lk_authority state = ai_key lockup_authority) IncorrectAuthority) (\<lambda>_.
     rbind (ensure (lk_mint state = mint) (lockup_err IncorrectMint)) (\<lambda>_.
     rbind (ok_or (lockup_err LockupActive) (lk_end_timestamp state)) (\<lambda>end_timestamp.
     let unlock_timestamp = sat_add_u64 end_timestamp LOCKUP_COOLDOWN_SECONDS in
     rbind (ensure (unlock_timestamp \<le> as_u64 (lw_unix_timestamp w)) (lockup_err LockupActive)) (\<lambda>_.
     rbind (tk_decimals tk (lw_tokens w) mint) (\<lambda>decimals.
     rbind (tk_transfer_checked tk (lw_tokens w) escrow_token_account mint token_destination escrow_authority
       (signed_by_seeds env program_id (collect_escrow_authority_signer_seeds bump_seed) escrow_authority) rest
       (lk_amount state) decimals) (\<lambda>tokens.
     rbind (ok_or ArithmeticOverflow
       (checked_add_u64 (pa_lamports (accts lockup_key)) (pa_lamports (accts lamport_destination)))) (\<lambda>new_lamports.
     let accts = set_lamports_of lamport_destination new_lamports (set_lamports_of lockup_key 0 accts);
         accts = accts(lockup_key := (accts lockup_key)\<lparr>pa_data := Other_Bytes [], pa_owner := 0\<rparr>) in
     Ok (w\<lparr>lw_accounts := accts, lw_tokens := tokens\<rparr>))))))))))))))"

datatype lockup_instruction = InitializeLockupPool | Lockup_Tokens "byte list" nat | Unlock | Withdraw_Tokens

definition u64_to_le_bytes :: "nat \<Rightarrow> byte list" where
  "u64_to_le_bytes n = map (\<lambda>i. word_of_nat (n div 256 ^ i)) [0..<8]"

definition u64_from_le_bytes :: "byte list \<Rightarrow> nat" where
  "u64_from_le_bytes bs = foldr (\<lambda>b n. unat b + 256 * n) bs 0"

fun lockup_pack :: "lockup_instruction \<Rightarrow> byte list" where
  "lockup_pack InitializeLockupPool = [0]"
| "lockup_pack (Lockup_Tokens metadata amount) = 1 # metadata @ u64_to_le_bytes amount"
| "lockup_pack Unlock = [2]"
| "lockup_pack Withdraw_Tokens = [3]"

definition lockup_unpack :: "byte list \<Rightarrow> (program_error, lockup_instruction) result" where
  "lockup_unpack input =
     (case input of
        [] \<Rightarrow> Err InvalidInstructionData
      | tag # rest \<Rightarrow>
          if tag = 0 then Ok InitializeLockupPool
          else if tag = 1 \<and> length rest = 40 then Ok (Lockup_Tokens (take 32 rest) (u64_from_le_bytes (drop 32 rest)))
          else if tag = 2 then Ok Unlock
          else if tag = 3 then Ok Withdraw_Tokens
          else Err InvalidInstructionData)"

definition lockup_process ::
  "'tok lockup_env \<Rightarrow> pubkey \<Rightarrow> account_info list \<Rightarrow> byte list \<Rightarrow> 'tok lockup_world \<Rightarrow> (program_error, 'tok lockup_world) result" where
  "lockup_process env program_id accounts input w =
     rbind (lockup_unpack input) (\<lambda>instruction.
     case instruction of
       InitializeLockupPool \<Rightarrow> process_initialize_lockup_pool env program_id accounts w
     | Lockup_Tokens metadata amount \<Rightarrow> process_lockup env program_id accounts metadata amount w
     | Unlock \<Rightarrow> process_unlock env program_id accounts w
     | Withdraw_Tokens \<Rightarrow> process_withdraw env program_id accounts w)"

section \<open>The instructions, inverted\<close>

lemma process_lockup_Ok:
  assumes "process_lockup env program_id accounts metadata amount w = Ok w'"
  obtains pool old escrow pool' decimals tokens where
    "length accounts \<ge> 9" and "pa_owner (lw_accounts w (ai_key (accounts ! 3))) = program_id"
    and "pa_data (lw_accounts w (ai_key (accounts ! 3))) = Pool_Bytes pool"
    and "pa_owner (lw_accounts w (ai_key (accounts ! 4))) = program_id" and "ai_key (accounts ! 4) \<noteq> ai_key (accounts ! 3)"
    and "pa_data (lw_accounts w (ai_key (accounts ! 4))) = Lockup_Bytes old" and "lk_discriminator old = uninitialized"
    and "get_escrow_authority_address env program_id = Ok escrow" and "ai_key (accounts ! 5) = escrow"
    and "ai_key (accounts ! 6) = tk_associated_address (le_tokens env) escrow (ai_key (accounts ! 7)) (ai_key (accounts ! 8))"
    and "pool_insert (ai_key (accounts ! 4)) amount metadata pool = Ok pool'"
    and "tk_transfer_checked (le_tokens env) (lw_tokens w) (ai_key (accounts ! 2)) (ai_key (accounts ! 7)) (ai_key (accounts ! 6))
      (ai_key (accounts ! 1)) (ai_is_signer (accounts ! 1)) (drop 9 accounts) amount decimals = Ok tokens"
    and "w' = w\<lparr>lw_accounts := set_data (ai_key (accounts ! 3)) (Pool_Bytes pool') (set_data (ai_key (accounts ! 4))
      (Lockup_Bytes \<lparr>lk_discriminator = le_lockup_discriminator env, lk_amount = amount, lk_authority = ai_key (accounts ! 0),
           lk_start_timestamp = as_u64 (lw_unix_timestamp w), lk_end_timestamp = None, lk_mint = ai_key (accounts ! 7),
           lk_pool = ai_key (accounts ! 3), lk_metadata = metadata\<rparr>) (lw_accounts w)), lw_tokens := tokens\<rparr>"
proof -
  have len: "length accounts \<ge> 9" using assms by (cases "length accounts < 9") (auto simp: process_lockup_def next_account_infos_def)
  then show thesis
    using assms that
    by (auto simp: process_lockup_def next_account_infos_def Let_def borrow_pool_def result_simps
        split: lockup_data.splits elim!: lockup_state.elims)
qed

lemma process_unlock_Ok:
  assumes "process_unlock env program_id accounts w = Ok w'"
  obtains pool state pool' where
    "length accounts \<ge> 3" and "pa_owner (lw_accounts w (ai_key (accounts ! 1))) = program_id"
    and "pa_data (lw_accounts w (ai_key (accounts ! 1))) = Pool_Bytes pool" and "ai_key (accounts ! 2) \<noteq> ai_key (accounts ! 1)"
    and "pa_owner (lw_accounts w (ai_key (accounts ! 2))) = program_id"
    and "pa_data (lw_accounts w (ai_key (accounts ! 2))) = Lockup_Bytes state"
    and "lk_discriminator state = le_lockup_discriminator env" and "lk_pool state = ai_key (accounts ! 1)"
    and "lk_end_timestamp state = None" and "lk_authority state = ai_key (accounts ! 0)" and "ai_is_signer (accounts ! 0)"
    and "pool_remove (ai_key (accounts ! 2)) (lk_amount state) pool = Ok pool'"
    and "w' = w\<lparr>lw_accounts := set_data (ai_key (accounts ! 1)) (Pool_Bytes pool') (set_data (ai_key (accounts ! 2))
      (Lockup_Bytes (state\<lparr>lk_end_timestamp := (if as_u64 (lw_unix_timestamp w) = 0 then None else Some (as_u64 (lw_unix_timestamp w)))\<rparr>))
      (lw_accounts w))\<rparr>"
proof -
  have len: "length accounts \<ge> 3" using assms by (cases "length accounts < 3") (auto simp: process_unlock_def next_account_infos_def)
  then show thesis
    using assms that
    by (auto simp: process_unlock_def next_account_infos_def Let_def borrow_pool_def borrow_lockup_def result_simps
        split: lockup_data.splits elim!: lockup_state.elims)
qed

lemma process_withdraw_Ok:
  assumes "process_withdraw env program_id accounts w = Ok w'"
  obtains state escrow bump end_timestamp decimals tokens new_lamports where
    "length accounts \<ge> 8" and "ai_is_signer (accounts ! 0)"
    and "pa_owner (lw_accounts w (ai_key (accounts ! 3))) = program_id"
    and "pa_data (lw_accounts w (ai_key (accounts ! 3))) = Lockup_Bytes state" and "lk_discriminator state = le_lockup_discriminator env"
    and "get_escrow_authority_address_and_bump_seed env program_id = Ok (escrow, bump)"
    and "lk_authority state = ai_key (accounts ! 0)" and "lk_mint state = ai_key (accounts ! 6)"
    and "lk_end_timestamp state = Some end_timestamp"
    and "sat_add_u64 end_timestamp LOCKUP_COOLDOWN_SECONDS \<le> as_u64 (lw_unix_timestamp w)"
    and "ai_key (accounts ! 5) = tk_associated_address (le_tokens env) escrow (ai_key (accounts ! 6)) (ai_key (accounts ! 7))"
    and "tk_transfer_checked (le_tokens env) (lw_tokens w) (ai_key (accounts ! 5)) (ai_key (accounts ! 6)) (ai_key (accounts ! 2)) escrow
      (signed_by_seeds env program_id (collect_escrow_authority_signer_seeds bump) escrow) (drop 8 accounts) (lk_amount state) decimals = Ok tokens"
    and "new_lamports = pa_lamports (lw_accounts w (ai_key (accounts ! 3))) + pa_lamports (lw_accounts w (ai_key (accounts ! 1)))"
    and "w' = w\<lparr>lw_accounts := (let accts = set_lamports_of (ai_key (accounts ! 1)) new_lamports (set_lamports_of (ai_key (accounts ! 3)) 0 (lw_accounts w))
      in accts(ai_key (accounts ! 3) := (accts (ai_key (accounts ! 3)))\<lparr>pa_data := Other_Bytes [], pa_owner := 0\<rparr>)), lw_tokens := tokens\<rparr>"
proof -
  have len: "length accounts \<ge> 8" using assms by (cases "length accounts < 8") (auto simp: process_withdraw_def next_account_infos_def)
  then show thesis
    using assms that
    by (auto simp: process_withdraw_def next_account_infos_def Let_def borrow_lockup_def result_simps checked_add_u64_def
        split: lockup_data.splits if_splits elim!: lockup_state.elims)
qed

end
