(* ===== verification/Lockup_Runs.thy ===== *)
theory Lockup_Runs
  imports Lockup_Program
begin

text \<open>
  Runs of the lockup program: its instructions, submitted by anybody with any accounts, interleaved with
  what others can do outside it. The token program is a parameter with the laws \<open>token_laws\<close> of a mint. Two
  invariants are kept by every step: the escrow authority holds what is owed of such a mint to the open
  lockups, and, as long as lockups have positive amounts, every pool lists open lockups in order.
\<close>

section \<open>Definitions\<close>

text \<open>
  What is relied on of the token programs, seen through the owner of a token account, who may spend the
  tokens of a mint from it, and what an owner holds of a mint in all accounts together. The program accepts
  every mint, and mints differ: one with the transfer-fee extension of Token-2022 credits less than was
  sent, one with a permanent delegate lets the delegate spend from every account, and a transfer hook runs
  a program of the mint's choice. The laws are therefore those of one mint \<open>m\<close>, which has none of these
  extensions; they are the behaviour that is documented for such a mint.

  Nobody but the escrow authority may spend tokens of \<open>m\<close> that it owns. This can be expected of such a mint
  because the program signs for the escrow authority with transfers only, so that no delegate is ever
  approved, and because an account that changes its owner loses its delegate.
\<close>

record 'tok token_view =
  tv_owner :: "'tok \<Rightarrow> pubkey \<Rightarrow> pubkey"
  tv_may_spend :: "'tok \<Rightarrow> pubkey \<Rightarrow> pubkey \<Rightarrow> pubkey \<Rightarrow> bool"
  tv_holdings :: "'tok \<Rightarrow> pubkey \<Rightarrow> pubkey \<Rightarrow> nat"

definition escrow_guarded :: "'tok token_view \<Rightarrow> pubkey \<Rightarrow> pubkey \<Rightarrow> 'tok \<Rightarrow> bool" where
  "escrow_guarded tv escrow m tok \<longleftrightarrow>
     (\<forall>src auth. tv_owner tv tok src = escrow \<longrightarrow> tv_may_spend tv tok m src auth \<longrightarrow> auth = escrow)"

text \<open>
  A transfer of \<open>m\<close> needs the signature of an authority that may spend from the source, moves exactly the
  amount and changes no owner; an associated account that receives tokens belongs to the owner it is derived
  from. A transfer of another mint, whatever its extensions, takes no tokens of \<open>m\<close> from the escrow
  authority and lets nobody else spend them.
\<close>

definition token_laws :: "'tok token_ops \<Rightarrow> 'tok token_view \<Rightarrow> pubkey \<Rightarrow> pubkey \<Rightarrow> bool" where
  "token_laws tk tv escrow m \<longleftrightarrow>
     (\<forall>tok src dst auth signed rest amount dec tok'.
        tk_transfer_checked tk tok src m dst auth signed rest amount dec = Ok tok' \<longrightarrow>
          signed \<and> tv_may_spend tv tok m src auth \<and> tv_owner tv tok' = tv_owner tv tok \<and>
          (\<forall>s a. tv_may_spend tv tok' m s a \<longrightarrow> tv_may_spend tv tok m s a) \<and>
          (\<forall>o1. tv_holdings tv tok' o1 m + (if o1 = tv_owner tv tok src then amount else 0) =
                tv_holdings tv tok o1 m + (if o1 = tv_owner tv tok dst then amount else 0)) \<and>
          (\<forall>o1 tp. dst = tk_associated_address tk o1 m tp \<longrightarrow> tv_owner tv tok dst = o1)) \<and>
     (\<forall>tok src mint dst auth signed rest amount dec tok'.
        tk_transfer_checked tk tok src mint dst auth signed rest amount dec = Ok tok' \<longrightarrow>
          mint \<noteq> m \<longrightarrow> escrow_guarded tv escrow m tok \<longrightarrow>
          escrow_guarded tv escrow m tok' \<and> tv_holdings tv tok escrow m \<le> tv_holdings tv tok' escrow m)"

text \<open>The data of an account that was just given to the program.\<close>

fun zeroed :: "lockup_data \<Rightarrow> bool" where
  "zeroed (Pool_Bytes pool) = (pool = \<lparr>lp_discriminator = uninitialized,
     lp_entries = replicate LOCKUP_CAPACITY lockup_pool_entry_default, lp_entries_len = 0\<rparr>)"
| "zeroed (Lockup_Bytes l) = (l = \<lparr>lk_discriminator = uninitialized, lk_amount = 0, lk_authority = 0, lk_start_timestamp = 0,
     lk_end_timestamp = None, lk_mint = 0, lk_pool = 0, lk_metadata = replicate 32 0\<rparr>)"
| "zeroed (Other_Bytes bs) = (\<forall>b\<in>set bs. b = 0)"

text \<open>
  What others can do between two instructions of the program: they leave the data of its accounts, can
  give it accounts with zeroed data, and can neither take tokens of the mint \<open>m\<close> from the escrow authority
  nor become able to spend them. Time passes.
\<close>

definition outside_step :: "pubkey \<Rightarrow> 'tok token_view \<Rightarrow> pubkey \<Rightarrow> pubkey \<Rightarrow> 'tok lockup_world \<Rightarrow> 'tok lockup_world \<Rightarrow> bool" where
  "outside_step program_id tv escrow m w w' \<longleftrightarrow>
     (\<forall>k. (pa_owner (lw_accounts w k) = program_id \<longrightarrow>
             pa_owner (lw_accounts w' k) = program_id \<and> pa_data (lw_accounts w' k) = pa_data (lw_accounts w k))
        \<and> (pa_owner (lw_accounts w k) \<noteq> program_id \<longrightarrow> pa_owner (lw_accounts w' k) = program_id \<longrightarrow> zeroed (pa_data (lw_accounts w' k))))
     \<and> tv_holdings tv (lw_tokens w) escrow m \<le> tv_holdings tv (lw_tokens w') escrow m
     \<and> escrow_guarded tv escrow m (lw_tokens w')"

inductive lockup_run ::
  "'tok lockup_env \<Rightarrow> pubkey \<Rightarrow> 'tok token_view \<Rightarrow> pubkey \<Rightarrow> pubkey \<Rightarrow> (nat \<Rightarrow> bool) \<Rightarrow> 'tok lockup_world \<Rightarrow> bool"
  for env program_id tv escrow m amount_ok where
  lockup_start: "(\<And>k. pa_owner (lw_accounts w k) \<noteq> program_id) \<Longrightarrow> escrow_guarded tv escrow m (lw_tokens w) \<Longrightarrow>
    lockup_run env program_id tv escrow m amount_ok w"
| lockup_instr: "lockup_run env program_id tv escrow m amount_ok w \<Longrightarrow> lockup_process env program_id accounts input w = Ok w' \<Longrightarrow>
    (\<And>a. a \<in> set accounts \<Longrightarrow> ai_is_signer a \<Longrightarrow> ai_key a \<noteq> escrow) \<Longrightarrow>
    (\<And>metadata amount. lockup_unpack input = Ok (Lockup_Tokens metadata amount) \<Longrightarrow> amount_ok amount) \<Longrightarrow>
    lockup_run env program_id tv escrow m amount_ok w'"
| lockup_outside: "lockup_run env program_id tv escrow m amount_ok w \<Longrightarrow> outside_step program_id tv escrow m w w' \<Longrightarrow>
    lockup_run env program_id tv escrow m amount_ok w'"

text \<open>What the program owes for an account, in tokens of a mint.\<close>

definition open_lockup :: "'tok lockup_env \<Rightarrow> pubkey \<Rightarrow> lockup_data program_account \<Rightarrow> lockup option" where
  "open_lockup env program_id account =
     (case lockup_state (pa_data account) of
        Some l \<Rightarrow> if pa_owner account = program_id \<and> lk_discriminator l = le_lockup_discriminator env then Some l else None
      | None \<Rightarrow> None)"

definition owed_for :: "'tok lockup_env \<Rightarrow> pubkey \<Rightarrow> lockup_data program_account \<Rightarrow> pubkey \<Rightarrow> nat" where
  "owed_for env program_id account mint =
     (case open_lockup env program_id account of Some l \<Rightarrow> if lk_mint l = mint then lk_amount l else 0 | None \<Rightarrow> 0)"

definition open_keys :: "'tok lockup_env \<Rightarrow> pubkey \<Rightarrow> lockup_data account_store \<Rightarrow> pubkey set" where
  "open_keys env program_id accts = {k. open_lockup env program_id (accts k) \<noteq> None}"

definition owed :: "'tok lockup_env \<Rightarrow> pubkey \<Rightarrow> lockup_data account_store \<Rightarrow> pubkey \<Rightarrow> nat" where
  "owed env program_id accts mint =
     (\<Sum>k\<in>open_keys env program_id accts. owed_for env program_id (accts k) mint)"

definition escrow_solvent :: "'tok lockup_env \<Rightarrow> pubkey \<Rightarrow> 'tok token_view \<Rightarrow> pubkey \<Rightarrow> pubkey \<Rightarrow> 'tok lockup_world \<Rightarrow> bool" where
  "escrow_solvent env program_id tv escrow m w \<longleftrightarrow>
     finite (open_keys env program_id (lw_accounts w)) \<and> escrow_guarded tv escrow m (lw_tokens w)
     \<and> owed env program_id (lw_accounts w) m \<le> tv_holdings tv (lw_tokens w) escrow m"

text \<open>Changes that keep what is open, and giving accounts to the program.\<close>

abbreviation (input) open_view :: "'tok lockup_env \<Rightarrow> pubkey \<Rightarrow> lockup_data program_account \<Rightarrow> (pubkey \<times> nat) option" where
  "open_view env program_id a \<equiv> map_option (\<lambda>l. (lk_mint l, lk_amount l)) (open_lockup env program_id a)"

text \<open>Every entry of a pool is an open lockup of that pool, with its amount, that was not unlocked.\<close>

definition entry_backed :: "'tok lockup_env \<Rightarrow> pubkey \<Rightarrow> lockup_data account_store \<Rightarrow> pubkey \<Rightarrow> lockup_pool_entry \<Rightarrow> bool" where
  "entry_backed env program_id accts pool_key e \<longleftrightarrow>
     (\<exists>l. open_lockup env program_id (accts (pe_lockup e)) = Some l \<and> lk_amount l = pe_amount e \<and> lk_pool l = pool_key
        \<and> lk_end_timestamp l = None)"

definition pools_ok :: "'tok lockup_env \<Rightarrow> pubkey \<Rightarrow> lockup_data account_store \<Rightarrow> bool" where
  "pools_ok env program_id accts \<longleftrightarrow>
     (\<forall>k l. open_lockup env program_id (accts k) = Some l \<longrightarrow> 0 < lk_amount l) \<and>
     (\<forall>k pool. pa_owner (accts k) = program_id \<longrightarrow> pa_data (accts k) = Pool_Bytes pool \<longrightarrow>
        pool_inv pool \<and> (\<forall>e\<in>set (pool_entries pool). entry_backed env program_id accts k e))"

section \<open>Solvency\<close>

lemma owed_for_open: "open_lockup env program_id a = None \<Longrightarrow> owed_for env program_id a m = 0"
  and owed_for_closed: "k \<notin> open_keys env program_id accts \<Longrightarrow> owed_for env program_id (accts k) m = 0"
  by (simp_all add: owed_for_def open_keys_def)

lemma owed_update:
  assumes fin: "finite (open_keys env program_id accts)"
  shows "finite (open_keys env program_id (accts(k0 := a)))"
    and "owed env program_id (accts(k0 := a)) m + owed_for env program_id (accts k0) m = owed env program_id accts m + owed_for env program_id a m"
proof -
  let ?S = "insert k0 (open_keys env program_id accts)" and ?o = "\<lambda>a. owed_for env program_id a m"
  have sub: "open_keys env program_id (accts(k0 := a)) \<subseteq> ?S" by (auto simp: open_keys_def)
  show "finite (open_keys env program_id (accts(k0 := a)))" by (rule finite_subset [OF sub]) (use fin in simp)
  have all: "owed env program_id accts' m = (\<Sum>k\<in>?S. ?o (accts' k))" if "open_keys env program_id accts' \<subseteq> ?S" for accts'
    unfolding owed_def
  proof (rule sum.mono_neutral_left)
    show "\<forall>k\<in>?S - open_keys env program_id accts'. ?o (accts' k) = 0" by (auto simp: owed_for_closed [of _ env program_id accts'])
  qed (use fin that in simp_all)
  have "owed env program_id (accts(k0 := a)) m = ?o a + (\<Sum>k\<in>?S - {k0}. ?o (accts k))"
    unfolding all [OF sub] using fin by (subst sum.remove [of _ k0]) auto
  moreover have "owed env program_id accts m = ?o (accts k0) + (\<Sum>k\<in>?S - {k0}. ?o (accts k))"
    using fin by (subst all) (auto simp: sum.remove [of _ k0])
  ultimately show "owed env program_id (accts(k0 := a)) m + ?o (accts k0) = owed env program_id accts m + ?o a" by simp
qed

lemma owed_same:
  assumes "\<And>k. open_view env program_id (accts' k) = open_view env program_id (accts k)"
  shows "open_keys env program_id accts' = open_keys env program_id accts" and "owed env program_id accts' = owed env program_id accts"
proof -
  have "open_lockup env program_id (accts' k) = None \<longleftrightarrow> open_lockup env program_id (accts k) = None" for k
    using arg_cong [OF assms, of "\<lambda>x. x = None" k] by simp
  then show *: "open_keys env program_id accts' = open_keys env program_id accts" by (simp only: open_keys_def)
  have view: "owed_for env program_id a m = (case open_view env program_id a of Some (mint, amount) \<Rightarrow> if mint = m then amount else 0 | None \<Rightarrow> 0)" for a m
    by (simp add: owed_for_def split: option.splits)
  show "owed env program_id accts' = owed env program_id accts" unfolding owed_def * view by (intro ext sum.cong refl) (simp only: assms)
qed

lemma open_lockup_simps [simp]:
  "open_lockup env program_id (a\<lparr>pa_lamports := x\<rparr>) = open_lockup env program_id a"
  "open_lockup env program_id (a\<lparr>pa_data := Pool_Bytes p\<rparr>) = None"
  "open_lockup env program_id (a\<lparr>pa_data := Other_Bytes bs, pa_owner := ow\<rparr>) = None"
  "pa_data a = Pool_Bytes p \<Longrightarrow> open_lockup env program_id a = None"
  by (auto simp: open_lockup_def split: option.splits)

lemma process_initialize_Ok:
  assumes "process_initialize_lockup_pool env program_id accounts w = Ok w'"
  obtains p where "pa_data (lw_accounts w (ai_key (accounts ! 0))) = Pool_Bytes p" and "pa_owner (lw_accounts w (ai_key (accounts ! 0))) = program_id"
    and "w' = w\<lparr>lw_accounts := set_data (ai_key (accounts ! 0)) (Pool_Bytes (p\<lparr>lp_discriminator := le_pool_discriminator env\<rparr>)) (lw_accounts w)\<rparr>"
proof -
  have "accounts \<noteq> []" using assms by (auto simp: process_initialize_lockup_pool_def next_account_infos_def)
  then show thesis
    using assms that
    by (cases "pa_data (lw_accounts w (ai_key (accounts ! 0)))")
      (auto simp: process_initialize_lockup_pool_def next_account_infos_def borrow_pool_def result_simps Let_def neq_Nil_conv)
qed

lemma initialize_solvent:
  assumes "process_initialize_lockup_pool env program_id accounts w = Ok w'" and "escrow_solvent env program_id tv escrow m w"
  shows "escrow_solvent env program_id tv escrow m w'"
proof -
  let ?k = "ai_key (accounts ! 0)"
  obtain p where p: "pa_data (lw_accounts w ?k) = Pool_Bytes p"
      "w' = w\<lparr>lw_accounts := set_data ?k (Pool_Bytes (p\<lparr>lp_discriminator := le_pool_discriminator env\<rparr>)) (lw_accounts w)\<rparr>"
    by (rule process_initialize_Ok [OF assms(1)])
  have "open_view env program_id (lw_accounts w' k) = open_view env program_id (lw_accounts w k)" for k
    using p by (cases "k = ?k") (auto simp: set_data_def)
  then show ?thesis using owed_same [of env program_id "lw_accounts w'" "lw_accounts w"] assms(2) p(2) by (simp add: escrow_solvent_def)
qed

lemma token_lawsD:
  assumes "token_laws tk tv escrow m" and "tk_transfer_checked tk tok src m dst auth sg rest amount dec = Ok tok'"
  shows "sg" and "tv_may_spend tv tok m src auth" and "tv_owner tv tok' = tv_owner tv tok"
    and "tv_may_spend tv tok' m s a \<Longrightarrow> tv_may_spend tv tok m s a"
    and "tv_holdings tv tok' o1 m + (if o1 = tv_owner tv tok src then amount else 0) =
      tv_holdings tv tok o1 m + (if o1 = tv_owner tv tok dst then amount else 0)"
    and "dst = tk_associated_address tk o1 m tp \<Longrightarrow> tv_owner tv tok dst = o1"
  using assms unfolding token_laws_def by blast+

lemma other_mint:
  assumes "token_laws tk tv escrow m" and "tk_transfer_checked tk tok src mint dst auth sg rest amount dec = Ok tok'"
    and "escrow_guarded tv escrow m tok" and "mint \<noteq> m"
  shows "escrow_guarded tv escrow m tok'" and "tv_holdings tv tok escrow m \<le> tv_holdings tv tok' escrow m"
  using assms unfolding token_laws_def by blast+

lemma transfer_guarded:
  assumes laws: "token_laws tk tv escrow m" and run: "tk_transfer_checked tk tok src mint dst auth sg rest amount dec = Ok tok'"
    and guarded: "escrow_guarded tv escrow m tok"
  shows "escrow_guarded tv escrow m tok'"
proof (cases "mint = m")
  case True
  show ?thesis
    using guarded token_lawsD(3,4) [OF laws run [unfolded True]] unfolding escrow_guarded_def by metis
next
  case False
  then show ?thesis using other_mint(1) [OF laws run guarded] by blast
qed

lemma withdraw_takes:
  assumes laws: "token_laws tk tv escrow m" and run: "tk_transfer_checked tk tok src mint dst auth sg rest amount dec = Ok tok'"
    and guarded: "escrow_guarded tv escrow m tok"
  shows "tv_holdings tv tok escrow m \<le> tv_holdings tv tok' escrow m + (if m = mint then amount else 0)"
proof (cases "m = mint")
  case True
  show ?thesis
    using token_lawsD(5) [OF laws run [folded True], of escrow] True
    by (cases "escrow = tv_owner tv tok src"; cases "escrow = tv_owner tv tok dst") simp_all
next
  case False
  then show ?thesis using other_mint(2) [OF laws run guarded] by simp
qed

lemma lockup_pays_in:
  assumes laws: "token_laws (le_tokens env) tv escrow m" and esc: "get_escrow_authority_address env program_id = Ok escrow"
    and guarded: "escrow_guarded tv escrow m (lw_tokens w)"
    and signers: "\<And>a. a \<in> set accounts \<Longrightarrow> ai_is_signer a \<Longrightarrow> ai_key a \<noteq> escrow"
    and run: "process_lockup env program_id accounts metadata amount w = Ok w'"
  shows "tv_holdings tv (lw_tokens w) escrow m + (if m = ai_key (accounts ! 7) then amount else 0) \<le> tv_holdings tv (lw_tokens w') escrow m"
    and "escrow_guarded tv escrow m (lw_tokens w')"
proof -
  let ?mint = "ai_key (accounts ! 7)"
  obtain decimals where *: "length accounts \<ge> 9" "ai_key (accounts ! 6) = tk_associated_address (le_tokens env) escrow ?mint (ai_key (accounts ! 8))"
    "tk_transfer_checked (le_tokens env) (lw_tokens w) (ai_key (accounts ! 2)) ?mint (ai_key (accounts ! 6))
      (ai_key (accounts ! 1)) (ai_is_signer (accounts ! 1)) (drop 9 accounts) amount decimals = Ok (lw_tokens w')"
    by (rule process_lockup_Ok [OF run]) (use esc in simp)
  show "tv_holdings tv (lw_tokens w) escrow m + (if m = ?mint then amount else 0) \<le> tv_holdings tv (lw_tokens w') escrow m"
  proof (cases "m = ?mint")
    case True
    note law = token_lawsD [OF laws *(3) [folded True]]
    have "accounts ! 1 \<in> set accounts" using *(1) by simp
    then have "ai_key (accounts ! 1) \<noteq> escrow" using signers law(1) by blast
    then have src: "tv_owner tv (lw_tokens w) (ai_key (accounts ! 2)) \<noteq> escrow" using guarded law(2) by (auto simp: escrow_guarded_def)
    have dst: "tv_owner tv (lw_tokens w) (ai_key (accounts ! 6)) = escrow" using law(6) [OF *(2) [folded True]] by simp
    show ?thesis using law(5) [of escrow] src dst True by (simp split: if_splits)
  next
    case False
    then show ?thesis using other_mint(2) [OF laws *(3) guarded] by simp
  qed
  show "escrow_guarded tv escrow m (lw_tokens w')" by (rule transfer_guarded [OF laws *(3) guarded])
qed

lemma lockup_solvent:
  assumes laws: "token_laws (le_tokens env) tv escrow m" and esc: "get_escrow_authority_address env program_id = Ok escrow"
    and disc: "le_lockup_discriminator env \<noteq> uninitialized" and inv: "escrow_solvent env program_id tv escrow m w"
    and signers: "\<And>a. a \<in> set accounts \<Longrightarrow> ai_is_signer a \<Longrightarrow> ai_key a \<noteq> escrow"
    and run: "process_lockup env program_id accounts metadata amount w = Ok w'"
  shows "escrow_solvent env program_id tv escrow m w'"
proof -
  let ?A = "lw_accounts w" and ?mint = "ai_key (accounts ! 7)" and ?pk = "ai_key (accounts ! 3)" and ?lk = "ai_key (accounts ! 4)"
  obtain pool old pool' tokens where *: "pa_data (?A ?pk) = Pool_Bytes pool" "pa_owner (?A ?lk) = program_id" "?lk \<noteq> ?pk"
    "pa_data (?A ?lk) = Lockup_Bytes old" "lk_discriminator old = uninitialized"
    "w' = w\<lparr>lw_accounts := set_data ?pk (Pool_Bytes pool') (set_data ?lk
      (Lockup_Bytes \<lparr>lk_discriminator = le_lockup_discriminator env, lk_amount = amount, lk_authority = ai_key (accounts ! 0),
           lk_start_timestamp = as_u64 (lw_unix_timestamp w), lk_end_timestamp = None, lk_mint = ?mint,
           lk_pool = ?pk, lk_metadata = metadata\<rparr>) ?A), lw_tokens := tokens\<rparr>"
    by (rule process_lockup_Ok [OF run])
  have guarded: "escrow_guarded tv escrow m (lw_tokens w)" using inv by (simp add: escrow_solvent_def)
  note paid = lockup_pays_in [OF laws esc guarded signers run]
  let ?l = "\<lparr>lk_discriminator = le_lockup_discriminator env, lk_amount = amount, lk_authority = ai_key (accounts ! 0),
           lk_start_timestamp = as_u64 (lw_unix_timestamp w), lk_end_timestamp = None, lk_mint = ?mint, lk_pool = ?pk, lk_metadata = metadata\<rparr>"
  let ?a = "(?A ?lk)\<lparr>pa_data := Lockup_Bytes ?l\<rparr>" and ?p = "(?A ?pk)\<lparr>pa_data := Pool_Bytes pool'\<rparr>"
  have accts: "lw_accounts w' = (?A(?lk := ?a))(?pk := ?p)" using *(3,6) by (simp add: set_data_def)
  have fin: "finite (open_keys env program_id ?A)" using inv by (simp add: escrow_solvent_def)
  have none: "open_lockup env program_id (?A ?lk) = None" using *(4,5) disc by (auto simp: open_lockup_def)
  have new: "owed_for env program_id ?a m = (if m = ?mint then amount else 0)" for m using *(2) by (simp add: owed_for_def open_lockup_def)
  note u1 = owed_update [OF fin, of ?lk ?a] and u2 = owed_update [OF owed_update(1) [OF fin, of ?lk ?a], of ?pk ?p]
  have "owed env program_id (lw_accounts w') m = owed env program_id ?A m + (if m = ?mint then amount else 0)" for m
    using u1(2) [of m] u2(2) [of m] *(1,3) none new [of m] unfolding accts by (simp add: owed_for_open)
  moreover have "finite (open_keys env program_id (lw_accounts w'))" using u2(1) by (simp only: accts)
  ultimately show ?thesis using inv paid by (fastforce simp: escrow_solvent_def)
qed

lemma unlock_solvent:
  assumes inv: "escrow_solvent env program_id tv escrow m w" and run: "process_unlock env program_id accounts w = Ok w'"
  shows "escrow_solvent env program_id tv escrow m w'"
proof -
  let ?A = "lw_accounts w" and ?pk = "ai_key (accounts ! 1)" and ?lk = "ai_key (accounts ! 2)"
  obtain pool state pool' where *: "pa_data (?A ?pk) = Pool_Bytes pool" "?lk \<noteq> ?pk" "pa_owner (?A ?lk) = program_id"
    "pa_data (?A ?lk) = Lockup_Bytes state" "lk_discriminator state = le_lockup_discriminator env"
    "w' = w\<lparr>lw_accounts := set_data ?pk (Pool_Bytes pool') (set_data ?lk
      (Lockup_Bytes (state\<lparr>lk_end_timestamp := (if as_u64 (lw_unix_timestamp w) = 0 then None else Some (as_u64 (lw_unix_timestamp w)))\<rparr>)) ?A)\<rparr>"
    using process_unlock_Ok [OF run] by metis
  have "open_view env program_id (lw_accounts w' k) = open_view env program_id (?A k)" for k
    using * by (cases "k = ?pk"; cases "k = ?lk") (auto simp: set_data_def open_lockup_def)
  then show ?thesis using owed_same [of env program_id "lw_accounts w'" ?A] inv *(6) by (simp add: escrow_solvent_def)
qed

lemma withdraw_solvent:
  assumes laws: "token_laws (le_tokens env) tv escrow m" and esc: "get_escrow_authority_address env program_id = Ok escrow"
    and inv: "escrow_solvent env program_id tv escrow m w" and run: "process_withdraw env program_id accounts w = Ok w'"
  shows "escrow_solvent env program_id tv escrow m w'"
proof -
  let ?A = "lw_accounts w" and ?lk = "ai_key (accounts ! 3)" and ?dk = "ai_key (accounts ! 1)" and ?mint = "ai_key (accounts ! 6)"
  obtain state esc' bump decimals tokens new where *:
    "pa_owner (?A ?lk) = program_id" "pa_data (?A ?lk) = Lockup_Bytes state" "lk_discriminator state = le_lockup_discriminator env"
    "get_escrow_authority_address_and_bump_seed env program_id = Ok (esc', bump)" "lk_mint state = ?mint"
    "tk_transfer_checked (le_tokens env) (lw_tokens w) (ai_key (accounts ! 5)) ?mint (ai_key (accounts ! 2)) esc'
      (signed_by_seeds env program_id (collect_escrow_authority_signer_seeds bump) esc') (drop 8 accounts) (lk_amount state) decimals = Ok tokens"
    "w' = w\<lparr>lw_accounts := (let accts = set_lamports_of ?dk new (set_lamports_of ?lk 0 ?A)
      in accts(?lk := (accts ?lk)\<lparr>pa_data := Other_Bytes [], pa_owner := 0\<rparr>)), lw_tokens := tokens\<rparr>"
    using process_withdraw_Ok [OF run] by metis
  have esc': "esc' = escrow" using *(4) esc by (simp add: get_escrow_authority_address_def)
  let ?B = "set_lamports_of ?dk new (set_lamports_of ?lk 0 ?A)"
  have same: "open_lockup env program_id (?B k) = open_lockup env program_id (?A k)" for k by (simp add: set_lamports_of_def)
  have B: "(open_keys env program_id ?B) = (open_keys env program_id ?A)"
      "owed env program_id ?B = owed env program_id ?A"
    using owed_same [of env program_id ?B ?A] same by simp_all
  have fin: "finite (open_keys env program_id ?B)" using inv unfolding B by (simp add: escrow_solvent_def)
  have lk: "owed_for env program_id (?B ?lk) m = (if m = ?mint then lk_amount state else 0)" for m
    unfolding owed_for_def same using *(1-3,5) by (simp add: open_lockup_def)
  let ?a = "(?B ?lk)\<lparr>pa_data := Other_Bytes [], pa_owner := 0\<rparr>"
  have accts: "lw_accounts w' = ?B(?lk := ?a)" using *(7) by (simp add: Let_def)
  note u = owed_update [OF fin, of ?lk ?a]
  have paid: "owed env program_id (lw_accounts w') m + (if m = ?mint then lk_amount state else 0) = owed env program_id ?A m" for m
    using u(2) [of m] lk [of m] unfolding accts B by (simp add: owed_for_open)
  have guarded: "escrow_guarded tv escrow m (lw_tokens w)" using inv by (simp add: escrow_solvent_def)
  have left: "tv_holdings tv (lw_tokens w) escrow m \<le> tv_holdings tv tokens escrow m + (if m = ?mint then lk_amount state else 0)"
    by (rule withdraw_takes [OF laws *(6) guarded])
  have "owed env program_id (lw_accounts w') m \<le> tv_holdings tv tokens escrow m"
    using inv paid [of m] left by (simp add: escrow_solvent_def)
  moreover have "finite (open_keys env program_id (lw_accounts w'))" using u(1) by (simp only: accts)
  moreover have "escrow_guarded tv escrow m tokens" using transfer_guarded [OF laws *(6)] inv by (simp add: escrow_solvent_def)
  ultimately show ?thesis using *(7) by (simp add: escrow_solvent_def)
qed

lemma outside_open:
  assumes disc: "le_lockup_discriminator env \<noteq> uninitialized" and out: "outside_step program_id tv escrow m w w'"
  shows "open_lockup env program_id (lw_accounts w' k) = open_lockup env program_id (lw_accounts w k)"
proof (cases "pa_owner (lw_accounts w k) = program_id")
  case True
  then have "pa_owner (lw_accounts w' k) = program_id" "pa_data (lw_accounts w' k) = pa_data (lw_accounts w k)"
    using out by (auto simp: outside_step_def)
  then show ?thesis using True unfolding open_lockup_def by (auto split: option.splits)
next
  case False
  have "open_lockup env program_id a = None" if "pa_owner a = program_id" "zeroed (pa_data a)" for a
    using that disc by (cases "pa_data a") (auto simp: open_lockup_def)
  moreover have "pa_owner (lw_accounts w' k) = program_id \<Longrightarrow> zeroed (pa_data (lw_accounts w' k))"
    using out False by (auto simp: outside_step_def)
  moreover have "open_lockup env program_id a = None" if "pa_owner a \<noteq> program_id" for a
    using that by (auto simp: open_lockup_def split: option.splits)
  ultimately show ?thesis using False by metis
qed

lemma outside_solvent:
  assumes disc: "le_lockup_discriminator env \<noteq> uninitialized" and inv: "escrow_solvent env program_id tv escrow m w"
    and out: "outside_step program_id tv escrow m w w'"
  shows "escrow_solvent env program_id tv escrow m w'"
proof -
  have "(open_keys env program_id (lw_accounts w')) = (open_keys env program_id (lw_accounts w))"
      "owed env program_id (lw_accounts w') = owed env program_id (lw_accounts w)"
    using owed_same [of env program_id "lw_accounts w'" "lw_accounts w"] outside_open [OF disc out] by simp_all
  then show ?thesis using inv out unfolding escrow_solvent_def outside_step_def by (metis le_trans)
qed

lemma lockup_run_solvent:
  assumes laws: "token_laws (le_tokens env) tv escrow m" and esc: "get_escrow_authority_address env program_id = Ok escrow"
    and disc: "le_lockup_discriminator env \<noteq> uninitialized" and "lockup_run env program_id tv escrow m amount_ok w"
  shows "escrow_solvent env program_id tv escrow m w"
  using assms(4)
proof (induction rule: lockup_run.induct)
  case (lockup_start w)
  then have none: "open_lockup env program_id (lw_accounts w k) = None" for k by (simp add: open_lockup_def split: option.splits)
  then show ?case using lockup_start by (simp add: escrow_solvent_def owed_def open_keys_def)
next
  case (lockup_instr w accounts input w')
  then obtain i where i: "lockup_unpack input = Ok i" by (auto simp: lockup_process_def result_simps)
  show ?case
  proof (cases i)
    case (Lockup_Tokens metadata amount)
    then show ?thesis
      using lockup_solvent [OF laws esc disc lockup_instr.IH lockup_instr(3)] lockup_instr(2) i by (simp add: lockup_process_def)
  qed (use lockup_instr(2) i initialize_solvent [OF _ lockup_instr.IH] unlock_solvent [OF lockup_instr.IH]
      withdraw_solvent [OF laws esc lockup_instr.IH] in \<open>simp_all add: lockup_process_def\<close>)
next
  case (lockup_outside w w')
  then show ?case using outside_solvent [OF disc] by blast
qed

section \<open>The pools of a run\<close>

lemma pools_okD:
  assumes "pools_ok env program_id accts" and "pa_owner (accts k) = program_id" and "pa_data (accts k) = Pool_Bytes pool"
  shows "pool_inv pool" and "e \<in> set (pool_entries pool) \<Longrightarrow> entry_backed env program_id accts k e"
  using assms unfolding pools_ok_def by blast+

lemma pools_ok_amount: "pools_ok env program_id accts \<Longrightarrow> open_lockup env program_id (accts k) = Some l \<Longrightarrow> 0 < lk_amount l"
  unfolding pools_ok_def by blast

lemma open_lockup_eq:
  "open_lockup env program_id a = Some l \<longleftrightarrow>
     pa_data a = Lockup_Bytes l \<and> pa_owner a = program_id \<and> lk_discriminator l = le_lockup_discriminator env"
  by (cases "pa_data a") (auto simp: open_lockup_def)

lemma backed_key:
  assumes "entry_backed env program_id accts k e"
  shows "\<exists>l. pa_data (accts (pe_lockup e)) = Lockup_Bytes l \<and> pa_owner (accts (pe_lockup e)) = program_id
    \<and> lk_discriminator l = le_lockup_discriminator env \<and> lk_amount l = pe_amount e \<and> lk_pool l = k \<and> lk_end_timestamp l = None"
  using assms unfolding entry_backed_def open_lockup_eq by blast

text \<open>A change of one lockup account and one pool keeps the entries of all other pools backed.\<close>

lemma pools_ok_update:
  assumes ok: "pools_ok env program_id accts" and lk: "pa_data (accts lk) = Lockup_Bytes old" "lk \<noteq> pk"
    and pk: "pa_data (accts pk) = Pool_Bytes pool" "pa_owner (accts pk) = program_id"
    and pool': "pool_inv pool'" "\<And>e. e \<in> set (pool_entries pool') \<Longrightarrow> e \<in> set (pool_entries pool) \<or> pe_lockup e = lk"
    and new: "\<And>e. e \<in> set (pool_entries pool') \<Longrightarrow> pe_lockup e = lk \<Longrightarrow>
      pa_owner (accts lk) = program_id \<and> lk_discriminator l = le_lockup_discriminator env \<and> lk_amount l = pe_amount e \<and> lk_pool l = pk \<and> lk_end_timestamp l = None"
    and amount: "0 < lk_amount l"
    and gone: "\<And>k e. k \<noteq> pk \<Longrightarrow> entry_backed env program_id accts k e \<Longrightarrow> pe_lockup e \<noteq> lk"
  shows "pools_ok env program_id (set_data pk (Pool_Bytes pool') (set_data lk (Lockup_Bytes l) accts))" (is "pools_ok _ _ ?B")
  unfolding pools_ok_def
proof (intro conjI allI impI ballI)
  fix k l' assume "open_lockup env program_id (?B k) = Some l'"
  then show "0 < lk_amount l'"
    using amount pools_ok_amount [OF ok, of k] by (auto simp: open_lockup_eq set_data_def split: if_splits)
next
  fix k p assume k: "pa_owner (?B k) = program_id" "pa_data (?B k) = Pool_Bytes p"
  have keep: "entry_backed env program_id ?B k e" if e: "entry_backed env program_id accts k e" "pe_lockup e \<noteq> lk" for e
  proof -
    obtain l' where "pa_data (accts (pe_lockup e)) = Lockup_Bytes l'" "pa_owner (accts (pe_lockup e)) = program_id"
        "lk_discriminator l' = le_lockup_discriminator env" "lk_amount l' = pe_amount e" "lk_pool l' = k" "lk_end_timestamp l' = None"
      using backed_key [OF e(1)] by blast
    moreover from this(1) have "pe_lockup e \<noteq> pk" using pk(1) by auto
    ultimately show ?thesis using e(2) by (auto simp: entry_backed_def open_lockup_eq set_data_def)
  qed
  have "pool_inv p \<and> (\<forall>e\<in>set (pool_entries p). entry_backed env program_id ?B k e)"
  proof (cases "k = pk")
    case True
    then have p: "p = pool'" using k by (simp add: set_data_def)
    have "entry_backed env program_id ?B k e" if e: "e \<in> set (pool_entries pool')" for e
    proof (cases "pe_lockup e = lk")
      case True
      then show ?thesis using new [OF e] lk(2) \<open>k = pk\<close> by (auto simp: entry_backed_def open_lockup_eq set_data_def)
    next
      case False
      then show ?thesis using keep pool'(2) [OF e] pools_okD(2) [OF ok pk(2,1)] \<open>k = pk\<close> by blast
    qed
    then show ?thesis using p pool'(1) by blast
  next
    case False
    then have "k \<noteq> lk" "pa_owner (accts k) = program_id" "pa_data (accts k) = Pool_Bytes p"
      using k by (auto simp: set_data_def split: if_splits)
    then show ?thesis using pools_okD [OF ok] keep gone [OF False] by blast
  qed
  then show "pool_inv p" and "e \<in> set (pool_entries p) \<Longrightarrow> entry_backed env program_id ?B k e" for e by blast+
qed

lemma lockup_pools:
  assumes ok: "pools_ok env program_id (lw_accounts w)" and disc: "le_lockup_discriminator env \<noteq> uninitialized"
    and amount: "0 < amount" "amount \<le> u64_max" and run: "process_lockup env program_id accounts metadata amount w = Ok w'"
  shows "pools_ok env program_id (lw_accounts w')"
proof -
  let ?A = "lw_accounts w" and ?pk = "ai_key (accounts ! 3)" and ?lk = "ai_key (accounts ! 4)"
  obtain pool old pool' tokens l where *: "pa_owner (?A ?pk) = program_id" "pa_data (?A ?pk) = Pool_Bytes pool" "pa_owner (?A ?lk) = program_id"
    "?lk \<noteq> ?pk" "pa_data (?A ?lk) = Lockup_Bytes old" "lk_discriminator old = uninitialized" "pool_insert ?lk amount metadata pool = Ok pool'"
    "lw_accounts w' = set_data ?pk (Pool_Bytes pool') (set_data ?lk (Lockup_Bytes l) ?A)"
    "lk_discriminator l = le_lockup_discriminator env" "lk_amount l = amount" "lk_pool l = ?pk" "lk_end_timestamp l = None"
    by (rule process_lockup_Ok [OF run]) simp
  have fresh: "pe_lockup e \<noteq> ?lk" if "entry_backed env program_id ?A k e" for k e
    using backed_key [OF that] *(5,6) disc by auto
  have inv: "pool_inv pool" by (rule pools_okD(1) [OF ok *(1,2)])
  have "?lk \<notin> pe_lockup ` set (pool_entries pool)" using pools_okD(2) [OF ok *(1,2)] fresh by fastforce
  from pool_insert_entries [OF inv amount this, of metadata]
  obtain i xs where p': "pool_inv pool'" "set xs \<subseteq> set (pool_entries pool)"
      "pool_entries pool' = take i xs @ \<lparr>pe_lockup = ?lk, pe_amount = amount, pe_metadata = metadata\<rparr> # drop i xs"
    using *(7) by (auto split: if_splits dest: in_set_butlastD)
  show ?thesis
    unfolding *(8)
  proof (rule pools_ok_update [OF ok *(5,4,2,1) p'(1)])
    fix e assume e: "e \<in> set (pool_entries pool')"
    then show "e \<in> set (pool_entries pool) \<or> pe_lockup e = ?lk" using p'(2,3) by (auto dest: in_set_takeD in_set_dropD)
    assume "pe_lockup e = ?lk"
    moreover have "e' \<in> set xs \<Longrightarrow> pe_lockup e' \<noteq> ?lk" for e' using p'(2) pools_okD(2) [OF ok *(1,2)] fresh by blast
    ultimately have "e = \<lparr>pe_lockup = ?lk, pe_amount = amount, pe_metadata = metadata\<rparr>"
      using e p'(3) by (auto dest: in_set_takeD in_set_dropD)
    then show "pa_owner (?A ?lk) = program_id \<and> lk_discriminator l = le_lockup_discriminator env \<and> lk_amount l = pe_amount e \<and> lk_pool l = ?pk \<and> lk_end_timestamp l = None"
      using * by simp
  next
    show "0 < lk_amount l" using * amount by simp
  qed (use fresh in blast)
qed

text \<open>Leaving a pool, for a lockup that is backed by its account.\<close>

lemma pool_remove_outcome:
  assumes ok: "pools_ok env program_id accts" and pk: "pa_owner (accts pk) = program_id" "pa_data (accts pk) = Pool_Bytes pool"
    and l: "pa_data (accts lk) = Lockup_Bytes l" and amount: "0 < lk_amount l"
  shows "lk \<in> pe_lockup ` set (pool_entries pool) \<Longrightarrow> \<exists>pool'. pool_remove lk (lk_amount l) pool = Ok pool' \<and> pool_inv pool'
      \<and> pool_entries pool' = filter (\<lambda>e. pe_lockup e \<noteq> lk) (pool_entries pool)"
    and "lk \<notin> pe_lockup ` set (pool_entries pool) \<Longrightarrow>
      pool_remove lk (lk_amount l) pool = (if \<forall>e\<in>set (pool_entries pool). lk_amount l < pe_amount e then Ok pool else Panic)"
proof -
  note inv = pools_okD [OF ok pk]
  show "\<exists>pool'. pool_remove lk (lk_amount l) pool = Ok pool' \<and> pool_inv pool'
      \<and> pool_entries pool' = filter (\<lambda>e. pe_lockup e \<noteq> lk) (pool_entries pool)" if present: "lk \<in> pe_lockup ` set (pool_entries pool)"
  proof -
    obtain e where e: "e \<in> set (pool_entries pool)" "pe_lockup e = lk" using present by blast
    then have "pe_amount e = lk_amount l" using backed_key [OF inv(2) [OF e(1)]] l by auto
    then show ?thesis using pool_remove_present [OF inv(1) e(1)] e(2) by auto
  qed
  show "pool_remove lk (lk_amount l) pool = (if \<forall>e\<in>set (pool_entries pool). lk_amount l < pe_amount e then Ok pool else Panic)"
    if "lk \<notin> pe_lockup ` set (pool_entries pool)"
    by (rule pool_remove_absent [OF inv(1) amount]) (use that in blast)
qed

lemma unlock_pools:
  assumes ok: "pools_ok env program_id (lw_accounts w)" and run: "process_unlock env program_id accounts w = Ok w'"
  shows "pools_ok env program_id (lw_accounts w')"
proof -
  let ?A = "lw_accounts w" and ?pk = "ai_key (accounts ! 1)" and ?lk = "ai_key (accounts ! 2)"
  obtain pool state pool' l where *: "pa_owner (?A ?pk) = program_id" "pa_data (?A ?pk) = Pool_Bytes pool" "?lk \<noteq> ?pk"
    "pa_owner (?A ?lk) = program_id" "pa_data (?A ?lk) = Lockup_Bytes state" "lk_discriminator state = le_lockup_discriminator env"
    "lk_pool state = ?pk" "pool_remove ?lk (lk_amount state) pool = Ok pool'"
    "lw_accounts w' = set_data ?pk (Pool_Bytes pool') (set_data ?lk (Lockup_Bytes l) ?A)" "lk_amount l = lk_amount state"
    by (rule process_unlock_Ok [OF run]) simp
  have amount: "0 < lk_amount state" using pools_ok_amount [OF ok, of ?lk state] * by (simp add: open_lockup_eq)
  note out = pool_remove_outcome [OF ok *(1,2,5) amount]
  have p': "pool_inv pool'" "pool_entries pool' = filter (\<lambda>e. pe_lockup e \<noteq> ?lk) (pool_entries pool)"
  proof -
    have "pool_inv pool' \<and> pool_entries pool' = filter (\<lambda>e. pe_lockup e \<noteq> ?lk) (pool_entries pool)"
    proof (cases "?lk \<in> pe_lockup ` set (pool_entries pool)")
      case True
      then show ?thesis using out(1) *(8) by auto
    next
      case False
      then have "pool' = pool" using out(2) *(8) by (auto split: if_splits)
      moreover have "filter (\<lambda>e. pe_lockup e \<noteq> ?lk) (pool_entries pool) = pool_entries pool" using False by (auto simp: filter_id_conv intro: rev_image_eqI)
      ultimately show ?thesis using pools_okD(1) [OF ok *(1,2)] by simp
    qed
    then show "pool_inv pool'" "pool_entries pool' = filter (\<lambda>e. pe_lockup e \<noteq> ?lk) (pool_entries pool)" by blast+
  qed
  show ?thesis
    unfolding *(9)
  proof (rule pools_ok_update [OF ok *(5,3,2,1) p'(1)])
    show "pe_lockup e \<noteq> ?lk" if "k \<noteq> ?pk" "entry_backed env program_id ?A k e" for k e
      using backed_key [OF that(2)] that(1) *(5,7) by auto
  qed (use p'(2) amount *(10) in auto)
qed

lemma pools_ok_frame:
  assumes ok: "pools_ok env program_id accts"
    and same: "\<And>k. open_lockup env program_id (accts' k) \<noteq> open_lockup env program_id (accts k) \<Longrightarrow>
      (\<exists>l. open_lockup env program_id (accts k) = Some l \<and> lk_end_timestamp l \<noteq> None) \<and> open_lockup env program_id (accts' k) = None"
    and pools: "\<And>k pool. pa_owner (accts' k) = program_id \<Longrightarrow> pa_data (accts' k) = Pool_Bytes pool \<Longrightarrow>
      pool_entries pool = [] \<and> pool_inv pool \<or>
      (\<exists>pool'. pa_owner (accts k) = program_id \<and> pa_data (accts k) = Pool_Bytes pool' \<and> pool_inv pool = pool_inv pool' \<and> pool_entries pool = pool_entries pool')"
  shows "pools_ok env program_id accts'"
  unfolding pools_ok_def
proof (intro conjI allI impI ballI)
  fix k l assume "open_lockup env program_id (accts' k) = Some l"
  then show "0 < lk_amount l" using same [of k] pools_ok_amount [OF ok, of k] by fastforce
next
  fix k pool assume k: "pa_owner (accts' k) = program_id" "pa_data (accts' k) = Pool_Bytes pool"
  show "pool_inv pool" using pools [OF k] pools_okD(1) [OF ok] by blast
  fix e assume "e \<in> set (pool_entries pool)"
  then have "entry_backed env program_id accts k e" using pools [OF k] pools_okD(2) [OF ok] by fastforce
  then show "entry_backed env program_id accts' k e" using same [of "pe_lockup e"] unfolding entry_backed_def by fastforce
qed

lemma withdraw_pools:
  assumes ok: "pools_ok env program_id (lw_accounts w)" and run: "process_withdraw env program_id accounts w = Ok w'"
    and pid: "program_id \<noteq> 0"
  shows "pools_ok env program_id (lw_accounts w')"
proof -
  let ?A = "lw_accounts w" and ?dk = "ai_key (accounts ! 1)" and ?lk = "ai_key (accounts ! 3)"
  obtain state end_timestamp new_lamports where *: "pa_owner (?A ?lk) = program_id" "pa_data (?A ?lk) = Lockup_Bytes state"
    "lk_discriminator state = le_lockup_discriminator env" "lk_end_timestamp state = Some end_timestamp"
    "lw_accounts w' = (let accts = set_lamports_of ?dk new_lamports (set_lamports_of ?lk 0 ?A)
      in accts(?lk := (accts ?lk)\<lparr>pa_data := Other_Bytes [], pa_owner := 0\<rparr>))"
    by (rule process_withdraw_Ok [OF run]) simp
  have other: "pa_data (lw_accounts w' k) = pa_data (?A k)" "pa_owner (lw_accounts w' k) = pa_owner (?A k)" if "k \<noteq> ?lk" for k
    using that *(5) by (auto simp: set_lamports_of_def Let_def)
  have at: "pa_data (lw_accounts w' ?lk) = Other_Bytes []" "pa_owner (lw_accounts w' ?lk) = 0" using *(5) by (simp_all add: Let_def)
  show ?thesis
  proof (rule pools_ok_frame [OF ok])
    fix k assume d: "open_lockup env program_id (lw_accounts w' k) \<noteq> open_lockup env program_id (?A k)"
    have "open_lockup env program_id (lw_accounts w' k) = open_lockup env program_id (?A k)" if "k \<noteq> ?lk"
      unfolding open_lockup_def other [OF that] ..
    then have "k = ?lk" using d by blast
    then show "(\<exists>l. open_lockup env program_id (?A k) = Some l \<and> lk_end_timestamp l \<noteq> None) \<and> open_lockup env program_id (lw_accounts w' k) = None"
      using * at by (simp add: open_lockup_eq, simp add: open_lockup_def)
  next
    fix k pool assume k: "pa_owner (lw_accounts w' k) = program_id" "pa_data (lw_accounts w' k) = Pool_Bytes pool"
    then have "k \<noteq> ?lk" using at by auto
    then show "pool_entries pool = [] \<and> pool_inv pool \<or> (\<exists>pool'. pa_owner (?A k) = program_id \<and> pa_data (?A k) = Pool_Bytes pool'
        \<and> pool_inv pool = pool_inv pool' \<and> pool_entries pool = pool_entries pool')"
      using other k by auto
  qed
qed

lemma initialize_pools:
  assumes ok: "pools_ok env program_id (lw_accounts w)" and run: "process_initialize_lockup_pool env program_id accounts w = Ok w'"
  shows "pools_ok env program_id (lw_accounts w')"
proof -
  let ?k = "ai_key (accounts ! 0)"
  obtain p where p: "pa_data (lw_accounts w ?k) = Pool_Bytes p" "pa_owner (lw_accounts w ?k) = program_id"
      "w' = w\<lparr>lw_accounts := set_data ?k (Pool_Bytes (p\<lparr>lp_discriminator := le_pool_discriminator env\<rparr>)) (lw_accounts w)\<rparr>"
    by (rule process_initialize_Ok [OF run])
  show ?thesis
    by (rule pools_ok_frame [OF ok])
      (use p in \<open>auto simp: set_data_def pool_inv_def pool_entries_def split: if_splits\<close>)
qed

lemma outside_pools:
  assumes ok: "pools_ok env program_id (lw_accounts w)" and disc: "le_lockup_discriminator env \<noteq> uninitialized"
    and out: "outside_step program_id tv escrow m w w'"
  shows "pools_ok env program_id (lw_accounts w')"
proof (rule pools_ok_frame [OF ok])
  fix k assume d: "open_lockup env program_id (lw_accounts w' k) \<noteq> open_lockup env program_id (lw_accounts w k)"
  then show "(\<exists>l. open_lockup env program_id (lw_accounts w k) = Some l \<and> lk_end_timestamp l \<noteq> None) \<and> open_lockup env program_id (lw_accounts w' k) = None"
    using outside_open [OF disc out, of k] by simp
next
  fix k pool assume k: "pa_owner (lw_accounts w' k) = program_id" "pa_data (lw_accounts w' k) = Pool_Bytes pool"
  have "pool_inv pool \<and> pool_entries pool = []" if "zeroed (Pool_Bytes pool)"
    using that by (simp add: pool_inv_def pool_entries_def)
  then show "pool_entries pool = [] \<and> pool_inv pool \<or> (\<exists>pool'. pa_owner (lw_accounts w k) = program_id \<and> pa_data (lw_accounts w k) = Pool_Bytes pool'
      \<and> pool_inv pool = pool_inv pool' \<and> pool_entries pool = pool_entries pool')"
    using out k unfolding outside_step_def by metis
qed

lemma u64_from_le_bytes_bound: "length bs = 8 \<Longrightarrow> u64_from_le_bytes bs \<le> u64_max"
proof -
  have "u64_from_le_bytes bs < 256 ^ length bs" for bs
  proof (induction bs)
    case (Cons b bs)
    have "unat b < 256" using unsigned_less [of b] by simp
    then show ?case using Cons by (simp add: u64_from_le_bytes_def)
  qed (simp add: u64_from_le_bytes_def)
  from this [of bs] show "length bs = 8 \<Longrightarrow> u64_from_le_bytes bs \<le> u64_max" by simp
qed

lemma lockup_run_pools:
  assumes disc: "le_lockup_discriminator env \<noteq> uninitialized" and pid: "program_id \<noteq> 0"
    and "lockup_run env program_id tv escrow m (\<lambda>amount. 0 < amount) w"
  shows "pools_ok env program_id (lw_accounts w)"
  using assms(3)
proof (induction rule: lockup_run.induct)
  case (lockup_start w)
  then show ?case by (auto simp: pools_ok_def open_lockup_eq)
next
  case (lockup_instr w accounts input w')
  then obtain i where i: "lockup_unpack input = Ok i" by (auto simp: lockup_process_def result_simps)
  show ?case
  proof (cases i)
    case (Lockup_Tokens metadata amount)
    then have "amount \<le> u64_max" using i u64_from_le_bytes_bound by (auto simp: lockup_unpack_def split: list.splits if_splits)
    then show ?thesis using lockup_pools [OF lockup_instr.IH disc] lockup_instr(2,4) i Lockup_Tokens by (auto simp: lockup_process_def)
  qed (use lockup_instr(2) i initialize_pools [OF lockup_instr.IH] unlock_pools [OF lockup_instr.IH]
      withdraw_pools [OF lockup_instr.IH _ pid] in \<open>simp_all add: lockup_process_def\<close>)
next
  case (lockup_outside w w')
  then show ?case using outside_pools [OF _ disc] by blast
qed

end
