(* ===== verification/Lockup_Safety.thy ===== *)
theory Lockup_Safety
  imports Lockup_Runs
begin

text \<open>
  What the lockup program promises: the escrow covers the open lockups of a mint without special extensions
  and pays withdrawals only, the pools
  are ranked, and the outcome of an unlock, which includes a panic for a lockup that was pushed out of a
  pool that still holds an entry of the same amount. The example at the end fills a pool and shows that
  this state is reached. Instructions are read back from their encoding.
\<close>

section \<open>Definitions\<close>

fun wire_instruction :: "lockup_instruction \<Rightarrow> bool" where
  "wire_instruction (Lockup_Tokens metadata amount) = (length metadata = 32 \<and> amount \<le> u64_max)"
| "wire_instruction _ = True"

text \<open>
  A token program in which every account belongs to its own address and transfers of mint 8 cost a fee of
  one token, and a program 7 whose escrow authority is 42. The owner 2 of 5000 tokens of mint 3 fills the pool 50 with lockups of one token in
  the accounts from 100 on; the authority of all of them is 9.
\<close>

definition ex_transfer ::
  "(pubkey \<Rightarrow> pubkey \<Rightarrow> nat) \<Rightarrow> pubkey \<Rightarrow> pubkey \<Rightarrow> pubkey \<Rightarrow> pubkey \<Rightarrow> bool \<Rightarrow> account_info list \<Rightarrow> nat \<Rightarrow> nat \<Rightarrow>
   (program_error, pubkey \<Rightarrow> pubkey \<Rightarrow> nat) result" where
  "ex_transfer tok src mint dst auth sg rest amount dec =
     (if sg \<and> auth = src \<and> amount \<le> tok src mint then
        let tok = tok(src := (tok src)(mint := tok src mint - amount)) in 
        Ok (tok(dst := (tok dst)(mint := tok dst mint + (if mint = 8 then amount - 1 else amount))))
      else Err InsufficientFunds)"

definition ex_env :: "(pubkey \<Rightarrow> pubkey \<Rightarrow> nat) lockup_env" where
  "ex_env = \<lparr>le_sha256 = (\<lambda>_. 42), le_is_curve_point = (\<lambda>_. False), le_pool_discriminator = replicate 8 1,
     le_lockup_discriminator = replicate 8 2,
     le_tokens = \<lparr>tk_associated_address = (\<lambda>a mint tp. a), tk_decimals = (\<lambda>_ _. Ok 9), tk_transfer_checked = ex_transfer\<rparr>\<rparr>"

definition ex_view :: "(pubkey \<Rightarrow> pubkey \<Rightarrow> nat) token_view" where
  "ex_view = \<lparr>tv_owner = (\<lambda>_ k. k), tv_may_spend = (\<lambda>_ _ s a. a = s), tv_holdings = (\<lambda>tok. tok)\<rparr>"

definition ex_info :: "nat \<Rightarrow> account_info" where
  "ex_info k = \<lparr>ai_key = k, ai_is_signer = (k = 2 \<or> k = 9)\<rparr>"

definition ex_lock_infos :: "nat \<Rightarrow> account_info list" where
  "ex_lock_infos k = map ex_info [9, 2, 2, 50, k, 42, 42, 3, 4]"

definition ex_unlock_infos :: "nat \<Rightarrow> account_info list" where
  "ex_unlock_infos k = map ex_info [9, 50, k]"

definition ex_withdraw_infos :: "nat \<Rightarrow> account_info list" where
  "ex_withdraw_infos k = map ex_info [9, 9, 2, k, 42, 42, 3, 4]"

abbreviation ex_run :: "(pubkey \<Rightarrow> pubkey \<Rightarrow> nat) lockup_world \<Rightarrow> bool" where
  "ex_run \<equiv> lockup_run ex_env 7 ex_view 42 3 (\<lambda>amount. 0 < amount)"

definition ex_lockup :: "nat \<Rightarrow> lockup" where
  "ex_lockup amount = \<lparr>lk_discriminator = replicate 8 2, lk_amount = amount, lk_authority = 9, lk_start_timestamp = 1000,
     lk_end_timestamp = None, lk_mint = 3, lk_pool = 50, lk_metadata = replicate 32 0\<rparr>"

definition ex_blank :: lockup where
  "ex_blank = \<lparr>lk_discriminator = uninitialized, lk_amount = 0, lk_authority = 0, lk_start_timestamp = 0,
     lk_end_timestamp = None, lk_mint = 0, lk_pool = 0, lk_metadata = replicate 32 0\<rparr>"

definition ex_world :: "lockup_pool \<Rightarrow> (nat \<Rightarrow> lockup) \<Rightarrow> (pubkey \<Rightarrow> pubkey \<Rightarrow> nat) \<Rightarrow> (pubkey \<Rightarrow> pubkey \<Rightarrow> nat) lockup_world" where
  "ex_world pool locks tok =
     \<lparr>lw_accounts = (\<lambda>k. \<lparr>pa_lamports = 1, pa_data = (if k = 50 then Pool_Bytes pool else if 100 \<le> k then Lockup_Bytes (locks k) else Other_Bytes []),
        pa_owner = (if k = 50 \<or> 100 \<le> k then 7 else 0)\<rparr>),
      lw_tokens = tok, lw_unix_timestamp = 1000\<rparr>"

definition ex_tokens :: "nat \<Rightarrow> pubkey \<Rightarrow> pubkey \<Rightarrow> nat" where
  "ex_tokens n = (\<lambda>k m. if m = 3 then if k = 2 then 5000 - n else if k = 42 then n else 0 else 0)"

text \<open>Owner 2 has sent \<open>n\<close> of five tokens of mint 8 to the escrow authority.\<close>

definition ex_fee_tokens :: "nat \<Rightarrow> pubkey \<Rightarrow> pubkey \<Rightarrow> nat" where
  "ex_fee_tokens n = (\<lambda>k m. if m = 8 then if k = 2 then 5 - n else if k = 42 then n - 1 else 0 else 0)"

definition ex_pool :: lockup_pool where
  "ex_pool = \<lparr>lp_discriminator = uninitialized, lp_entries = replicate LOCKUP_CAPACITY lockup_pool_entry_default, lp_entries_len = 0\<rparr>"

definition ex_locks :: "nat \<Rightarrow> nat \<Rightarrow> lockup" where
  "ex_locks n k = (if k < 100 + n then ex_lockup 1 else ex_blank)"

section \<open>The encoding of instructions\<close>

lemma u64_le_bytes_prefix: "u64_from_le_bytes (map (\<lambda>i. word_of_nat (n div 256 ^ i)) [0..<k]) = n mod 256 ^ k"
proof (induction k arbitrary: n)
  case (Suc k)
  have "[0..<Suc k] = 0 # map Suc [0..<k]" by (metis upt_conv_Cons map_Suc_upt zero_less_Suc)
  moreover have "(\<lambda>i. word_of_nat (n div 256 ^ i) :: byte) \<circ> Suc = (\<lambda>i. word_of_nat (n div 256 div 256 ^ i))"
    by (simp add: fun_eq_iff div_mult2_eq)
  ultimately have "u64_from_le_bytes (map (\<lambda>i. word_of_nat (n div 256 ^ i)) [0..<Suc k]) =
      unat (word_of_nat n :: byte) + 256 * u64_from_le_bytes (map (\<lambda>i. word_of_nat (n div 256 div 256 ^ i)) [0..<k])"
    by (simp add: u64_from_le_bytes_def)
  also have "\<dots> = n mod 256 + 256 * (n div 256 mod 256 ^ k)" by (simp only: Suc.IH) (simp add: unsigned_of_nat take_bit_eq_mod)
  finally show ?case by (simp add: mod_mult2_eq)
qed (simp add: u64_from_le_bytes_def)

lemma u64_le_bytes_roundtrip: "n \<le> u64_max \<Longrightarrow> u64_from_le_bytes (u64_to_le_bytes n) = n"
  using u64_le_bytes_prefix [of n 8] by (simp add: u64_to_le_bytes_def del: upt_rec_numeral)

lemma lockup_pack_unpack: "wire_instruction i \<Longrightarrow> lockup_unpack (lockup_pack i) = Ok i"
  by (cases i) (simp_all add: lockup_unpack_def u64_le_bytes_roundtrip, simp_all add: u64_to_le_bytes_def)

section \<open>Claims\<close>

text \<open>
  C7: Nobody can take what the lockup program owes of a mint that behaves as \<open>token_laws\<close> says, which is what
  is documented for a mint without transfer fees, permanent delegate and transfer hook; the program accepts
  other mints too, and of them this is not claimed. Start in any world in which the program owns no account
  and nobody but the escrow authority may spend its tokens of that mint, and let anybody interleave the
  instructions of the program, with any accounts, any data, any mints and any signers but the escrow
  authority, and steps outside it (transfers of others, new accounts with zeroed data, time), which neither
  take tokens of the mint from the escrow authority nor let others spend them. Whatever happens, only
  finitely many lockups are open, and the escrow authority holds at least the sum of the amounts of the open
  lockups of the mint. The discriminator of a lockup is not the one of zeroed data.
\<close>

theorem lockup_escrow_solvent:
  assumes "token_laws (le_tokens env) tv escrow mint" and "get_escrow_authority_address env program_id = Ok escrow"
    and "le_lockup_discriminator env \<noteq> uninitialized" and "lockup_run env program_id tv escrow mint (\<lambda>_. True) w"
  shows "finite (open_keys env program_id (lw_accounts w))
    \<and> owed env program_id (lw_accounts w) mint \<le> tv_holdings tv (lw_tokens w) escrow mint"
  using lockup_run_solvent [OF assms] by (simp add: escrow_solvent_def)

text \<open>
  C30: Every pool of the lockup program is well-formed in every run whose lockups have positive amounts: it
  has 1024 slots, the ones in use come first with descending positive amounts and without repetition, the
  others are empty, and each entry is a lockup of this very pool with this amount that is still open and
  not unlocked. (A lockup of amount zero is accepted by the program and breaks this.)
\<close>

theorem lockup_pools_ranked:
  assumes "le_lockup_discriminator env \<noteq> uninitialized" and "program_id \<noteq> 0"
    and "lockup_run env program_id tv escrow m (\<lambda>amount. 0 < amount) w"
    and "pa_owner (lw_accounts w k) = program_id" and "pa_data (lw_accounts w k) = Pool_Bytes pool"
  shows "pool_inv pool \<and> (\<forall>i < lp_entries_len pool. entry_backed env program_id (lw_accounts w) k (lp_entries pool ! i))"
proof -
  note ok = pools_okD [OF lockup_run_pools [OF assms(1-3)] assms(4,5)]
  have "lp_entries pool ! i \<in> set (pool_entries pool)" if "i < lp_entries_len pool" for i
    using ok(1) that by (auto simp: pool_inv_def pool_entries_def in_set_conv_nth intro!: exI [of _ i])
  then show ?thesis using ok by blast
qed

text \<open>
  C31: What an unlock does, in every run whose lockups have positive amounts, for an open lockup that was
  not unlocked, signed by its authority and with its pool. If the pool lists it, the entry is removed and
  the time of the unlock recorded. If the pool does not list it (it was pushed out by larger ones), the
  unlock succeeds and leaves the pool alone when all entries are larger, and otherwise it panics, although
  the entry is meant to be removed only if it exists.
\<close>

theorem lockup_unlock_outcome:
  assumes "le_lockup_discriminator env \<noteq> uninitialized" and "program_id \<noteq> 0"
    and "lockup_run env program_id tv escrow m (\<lambda>amount. 0 < amount) w"
    and "pa_owner (lw_accounts w pk) = program_id" and "pa_data (lw_accounts w pk) = Pool_Bytes pool"
    and "open_lockup env program_id (lw_accounts w lk) = Some l" and "lk_end_timestamp l = None" and "lk_pool l = pk"
    and "accounts = \<lparr>ai_key = lk_authority l, ai_is_signer = True\<rparr> # a # b # rest" and "ai_key a = pk" and "ai_key b = lk"
  shows "let listed = lk \<in> pe_lockup ` set (pool_entries pool); larger = (\<forall>e\<in>set (pool_entries pool). lk_amount l < pe_amount e);
      now = as_u64 (lw_unix_timestamp w); l' = l\<lparr>lk_end_timestamp := (if now = 0 then None else Some now)\<rparr>;
      done = (\<lambda>pool'. Ok (w\<lparr>lw_accounts := set_data pk (Pool_Bytes pool') (set_data lk (Lockup_Bytes l') (lw_accounts w))\<rparr>));
      r = process_unlock env program_id accounts w
    in (listed \<longrightarrow> (\<exists>pool'. r = done pool' \<and> pool_entries pool' = filter (\<lambda>e. pe_lockup e \<noteq> lk) (pool_entries pool)))
      \<and> (\<not> listed \<and> larger \<longrightarrow> r = done pool) \<and> (\<not> listed \<and> \<not> larger \<longrightarrow> r = Panic)"
proof -
  note ok = lockup_run_pools [OF assms(1-3)]
  have l: "pa_data (lw_accounts w lk) = Lockup_Bytes l" "pa_owner (lw_accounts w lk) = program_id"
      "lk_discriminator l = le_lockup_discriminator env"
    using assms(6) by (simp_all add: open_lockup_eq)
  have "lk \<noteq> pk" using l(1) assms(5) by auto
  then have r: "process_unlock env program_id accounts w = rbind (pool_remove lk (lk_amount l) pool) (\<lambda>pool'.
      Ok (w\<lparr>lw_accounts := set_data pk (Pool_Bytes pool') (set_data lk (Lockup_Bytes (l\<lparr>lk_end_timestamp :=
        (if as_u64 (lw_unix_timestamp w) = 0 then None else Some (as_u64 (lw_unix_timestamp w)))\<rparr>)) (lw_accounts w))\<rparr>))"
    using assms(4-11) l by (simp add: process_unlock_def next_account_infos_def borrow_pool_def borrow_lockup_def Let_def
        assert_that_def ensure_def ok_or_def)
  note out = pool_remove_outcome [OF ok assms(4,5) l(1) pools_ok_amount [OF ok assms(6)]]
  show ?thesis
  proof (cases "lk \<in> pe_lockup ` set (pool_entries pool)")
    case True
    from out(1) [OF True] obtain pool' where "pool_remove lk (lk_amount l) pool = Ok pool'"
        "pool_entries pool' = filter (\<lambda>e. pe_lockup e \<noteq> lk) (pool_entries pool)"
      by blast
    then show ?thesis unfolding r Let_def using True by (intro conjI impI exI [of _ pool']) simp_all
  next
    case False
    then show ?thesis unfolding r Let_def out(2) [OF False] by simp
  qed
qed

text \<open>
  C8: The escrow pays withdrawals only, for a mint that behaves as \<open>token_laws\<close> says (the documented behaviour
  of a mint without transfer fees, permanent delegate and transfer hook) and while nobody but the escrow
  authority may spend its tokens of the mint (\<open>escrow_guarded\<close>). If an instruction of the lockup program, of
  whatever mint, succeeds, is not signed by the escrow authority itself, and leaves the escrow authority with
  fewer tokens of the mint, then it is a withdrawal from an open lockup of that mint, signed by the authority
  of the lockup, at least the cooldown after its unlock; it takes at most the amount of the lockup, and
  closes it.
\<close>

theorem lockup_escrow_pays_withdrawals:
  assumes "token_laws (le_tokens env) tv escrow mint" and "get_escrow_authority_address env program_id = Ok escrow"
    and "escrow_guarded tv escrow mint (lw_tokens w)" and "lockup_process env program_id accounts input w = Ok w'"
    and "\<forall>a\<in>set accounts. ai_is_signer a \<longrightarrow> ai_key a \<noteq> escrow"
    and "tv_holdings tv (lw_tokens w') escrow mint < tv_holdings tv (lw_tokens w) escrow mint"
  shows "lockup_unpack input = Ok Withdraw_Tokens \<and>
    (\<exists>l end_timestamp. open_lockup env program_id (lw_accounts w (ai_key (accounts ! 3))) = Some l \<and> lk_mint l = mint
      \<and> ai_is_signer (accounts ! 0) \<and> ai_key (accounts ! 0) = lk_authority l
      \<and> lk_end_timestamp l = Some end_timestamp \<and> sat_add_u64 end_timestamp 1800 \<le> as_u64 (lw_unix_timestamp w)
      \<and> tv_holdings tv (lw_tokens w) escrow mint \<le> tv_holdings tv (lw_tokens w') escrow mint + lk_amount l
      \<and> open_lockup env program_id (lw_accounts w' (ai_key (accounts ! 3))) = None)"
proof -
  obtain i where i: "lockup_unpack input = Ok i" using assms(4) by (auto simp: lockup_process_def result_simps)
  then have run: "(case i of InitializeLockupPool \<Rightarrow> process_initialize_lockup_pool env program_id accounts w
     | Lockup_Tokens metadata amount \<Rightarrow> process_lockup env program_id accounts metadata amount w
     | Unlock \<Rightarrow> process_unlock env program_id accounts w
     | Withdraw_Tokens \<Rightarrow> process_withdraw env program_id accounts w) = Ok w'"
    using assms(4) by (simp add: lockup_process_def)
  show ?thesis
  proof (cases i)
    case InitializeLockupPool
    then have "lw_tokens w' = lw_tokens w" using run by (auto elim: process_initialize_Ok)
    then show ?thesis using assms(6) by simp
  next
    case (Lockup_Tokens metadata amount)
    then have "process_lockup env program_id accounts metadata amount w = Ok w'" using run by simp
    then show ?thesis using lockup_pays_in(1) [OF assms(1-3)] assms(5,6) by (metis add_leD1 not_less)
  next
    case Unlock
    then have "lw_tokens w' = lw_tokens w" using run by (auto elim: process_unlock_Ok)
    then show ?thesis using assms(6) by simp
  next
    case Withdraw_Tokens
    let ?lk = "ai_key (accounts ! 3)"
    obtain state escrow' bump end_timestamp decimals where *: "ai_is_signer (accounts ! 0)"
      "open_lockup env program_id (lw_accounts w ?lk) = Some state" "lk_authority state = ai_key (accounts ! 0)"
      "lk_mint state = ai_key (accounts ! 6)" "lk_end_timestamp state = Some end_timestamp"
      "sat_add_u64 end_timestamp LOCKUP_COOLDOWN_SECONDS \<le> as_u64 (lw_unix_timestamp w)"
      "tk_transfer_checked (le_tokens env) (lw_tokens w) (ai_key (accounts ! 5)) (ai_key (accounts ! 6)) (ai_key (accounts ! 2)) escrow'
        (signed_by_seeds env program_id (collect_escrow_authority_signer_seeds bump) escrow') (drop 8 accounts) (lk_amount state) decimals = Ok (lw_tokens w')"
      "open_lockup env program_id (lw_accounts w' ?lk) = None"
      by (rule process_withdraw_Ok [where env = env and program_id = program_id and accounts = accounts and w = w and w' = w'])
        (use run Withdraw_Tokens in \<open>auto simp: open_lockup_eq Let_def\<close>)
    note takes = withdraw_takes [OF assms(1) *(7) assms(3)]
    have "mint = ai_key (accounts ! 6)" using takes assms(6) by (auto split: if_splits)
    moreover have "tv_holdings tv (lw_tokens w) escrow mint \<le> tv_holdings tv (lw_tokens w') escrow mint + lk_amount state"
      using takes by (auto split: if_splits)
    ultimately show ?thesis using * i Withdraw_Tokens by (auto simp: LOCKUP_COOLDOWN_SECONDS_def)
  qed
qed

section \<open>An example\<close>

lemma ex_laws: "token_laws (le_tokens ex_env) ex_view 42 3"
  by (auto simp: token_laws_def escrow_guarded_def ex_env_def ex_view_def ex_transfer_def Let_def split: if_splits)

lemma ex_env_simps [simp]:
  "le_lockup_discriminator ex_env = replicate 8 2" "tk_associated_address (le_tokens ex_env) a mint tp = a"
  "tk_decimals (le_tokens ex_env) tok mint = Ok 9" "tk_transfer_checked (le_tokens ex_env) = ex_transfer"
  by (simp_all add: ex_env_def)

lemma ex_address: "create_program_address (le_sha256 ex_env) (le_is_curve_point ex_env) (collect_escrow_authority_signer_seeds 255) 7 = Ok 42"
  by (simp add: ex_env_def create_program_address_def collect_escrow_authority_signer_seeds_def SEED_PREFIX_ESCROW_AUTHORITY_def
      MAX_SEEDS_def MAX_SEED_LEN_def hashv_def)

lemma ex_escrow: "get_escrow_authority_address_and_bump_seed ex_env 7 = Ok (42, 255)" "get_escrow_authority_address ex_env 7 = Ok 42"
proof -
  have "find_bump (le_sha256 ex_env) (le_is_curve_point ex_env) collect_escrow_authority_seeds 7 (Suc 254) 255 = Some (42, 255)"
    unfolding find_bump.simps using ex_address by (simp add: collect_escrow_authority_seeds_def collect_escrow_authority_signer_seeds_def)
  then show "get_escrow_authority_address_and_bump_seed ex_env 7 = Ok (42, 255)"
    by (simp add: get_escrow_authority_address_and_bump_seed_def try_find_program_address_def unwrap_def)
  then show "get_escrow_authority_address ex_env 7 = Ok 42" by (simp add: get_escrow_authority_address_def)
qed

lemma ex_disc: "le_lockup_discriminator ex_env \<noteq> uninitialized"
  by (simp add: ex_env_def uninitialized_def)

lemma ex_guarded: "escrow_guarded ex_view 42 m tok"
  by (simp add: escrow_guarded_def ex_view_def)

lemma ex_begin: "ex_run (ex_world ex_pool (\<lambda>_. ex_blank) (ex_tokens 0))"
proof (rule lockup_outside)
  let ?w = "\<lparr>lw_accounts = (\<lambda>k. \<lparr>pa_lamports = 1, pa_data = Other_Bytes [], pa_owner = 0\<rparr>), lw_tokens = ex_tokens 0, lw_unix_timestamp = 0\<rparr>"
  show "ex_run ?w" by (rule lockup_start) (simp_all add: ex_guarded)
  show "outside_step 7 ex_view 42 3 ?w (ex_world ex_pool (\<lambda>_. ex_blank) (ex_tokens 0))"
    by (simp add: outside_step_def ex_guarded ex_world_def ex_pool_def ex_blank_def)
qed

lemma ex_lock:
  assumes run: "ex_run (ex_world pool locks (ex_tokens n))" and k: "100 \<le> k" "locks k = ex_blank"
    and a: "0 < amount" "n + amount \<le> 5000" and ins: "pool_insert k amount (replicate 32 0) pool = Ok pool'"
  shows "ex_run (ex_world pool' (locks(k := ex_lockup amount)) (ex_tokens (n + amount)))"
proof (rule lockup_instr [OF run])
  let ?i = "lockup_pack (Lockup_Tokens (replicate 32 0) amount)" and ?w = "ex_world pool locks (ex_tokens n)"
  have i: "lockup_unpack ?i = Ok (Lockup_Tokens (replicate 32 0) amount)" using a by (intro lockup_pack_unpack) simp
  have tok: "ex_transfer (ex_tokens n) 2 3 42 2 True [] amount 9 = Ok (ex_tokens (n + amount))"
    using a by (auto simp: ex_transfer_def ex_tokens_def fun_eq_iff Let_def)
  have final: "?w\<lparr>lw_accounts := set_data 50 (Pool_Bytes pool') (set_data k (Lockup_Bytes (ex_lockup amount)) (lw_accounts ?w)),
      lw_tokens := tok\<rparr> = ex_world pool' (locks(k := ex_lockup amount)) tok" for tok
    using k by (auto simp: set_data_def ex_world_def fun_eq_iff)
  have w: "pa_owner (lw_accounts ?w 50) = 7" "pa_data (lw_accounts ?w 50) = Pool_Bytes pool" "pa_owner (lw_accounts ?w k) = 7"
      "pa_data (lw_accounts ?w k) = Lockup_Bytes ex_blank" "lw_tokens ?w = ex_tokens n" "as_u64 (lw_unix_timestamp ?w) = 1000"
      "lk_discriminator ex_blank = uninitialized"
    using k by (simp_all add: ex_world_def ex_blank_def as_u64_def)
  have "process_lockup ex_env 7 (ex_lock_infos k) (replicate 32 0) amount ?w =
      Ok (ex_world pool' (locks(k := ex_lockup amount)) (ex_tokens (n + amount)))"
    using k ins w tok
    by (simp add: process_lockup_def next_account_infos_def borrow_pool_def assert_that_def ensure_def ok_or_def ex_lock_infos_def ex_info_def
        ex_escrow final [unfolded ex_lockup_def] ex_lockup_def Let_def)
  then show "lockup_process ex_env 7 (ex_lock_infos k) ?i ?w = Ok (ex_world pool' (locks(k := ex_lockup amount)) (ex_tokens (n + amount)))"
    using i by (simp add: lockup_process_def)
  show "ai_key a \<noteq> 42" if "a \<in> set (ex_lock_infos k)" "ai_is_signer a" for a
    using that by (auto simp: ex_lock_infos_def ex_info_def)
  show "0 < amount'" if "lockup_unpack ?i = Ok (Lockup_Tokens metadata amount')" for metadata amount'
    using that i a by simp
qed

lemma ex_inv: "ex_run (ex_world pool locks tok) \<Longrightarrow> pool_inv pool"
  using pools_okD(1) [OF lockup_run_pools [OF ex_disc], of 7 ex_view 42 3 "ex_world pool locks tok" 50 pool] by (simp add: ex_world_def)

lemma ex_filled:
  "n \<le> LOCKUP_CAPACITY \<Longrightarrow> \<exists>pool. ex_run (ex_world pool (ex_locks n) (ex_tokens n)) \<and> length (pool_entries pool) = n
     \<and> (\<forall>e\<in>set (pool_entries pool). pe_amount e = 1 \<and> 100 \<le> pe_lockup e \<and> pe_lockup e < 100 + n)"
proof (induction n)
  case 0
  have "ex_world ex_pool (ex_locks 0) tok = ex_world ex_pool (\<lambda>_. ex_blank) tok" for tok by (auto simp: ex_world_def ex_locks_def fun_eq_iff)
  then show ?case using ex_begin by (intro exI [of _ ex_pool]) (simp add: ex_pool_def pool_entries_def)
next
  case (Suc n)
  then obtain pool where p: "ex_run (ex_world pool (ex_locks n) (ex_tokens n))" "length (pool_entries pool) = n"
      "\<forall>e\<in>set (pool_entries pool). pe_amount e = 1 \<and> 100 \<le> pe_lockup e \<and> pe_lockup e < 100 + n"
    by auto
  note inv = ex_inv [OF p(1)]
  have len: "lp_entries_len pool = n" using inv p(2) by (simp add: pool_inv_def pool_entries_def)
  have "100 + n \<notin> pe_lockup ` set (pool_entries pool)" using p(3) by auto
  from pool_insert_entries [OF inv _ _ this, of 1 "replicate 32 0"] len Suc.prems obtain k pool' where
    p': "pool_insert (100 + n) 1 (replicate 32 0) pool = Ok pool'" "pool_entries pool' = take k (pool_entries pool) @
      \<lparr>pe_lockup = 100 + n, pe_amount = 1, pe_metadata = replicate 32 0\<rparr> # drop k (pool_entries pool)" "k \<le> length (pool_entries pool)"
    by auto
  have "(ex_locks n)(100 + n := ex_lockup 1) = ex_locks (Suc n)" by (auto simp: ex_locks_def)
  moreover have "ex_run (ex_world pool' ((ex_locks n)(100 + n := ex_lockup 1)) (ex_tokens (n + 1)))"
    by (rule ex_lock [OF p(1) _ _ _ _ p'(1)]) (use Suc.prems in \<open>simp_all add: ex_locks_def LOCKUP_CAPACITY_def\<close>)
  ultimately have "ex_run (ex_world pool' (ex_locks (Suc n)) (ex_tokens (Suc n)))" by simp
  moreover have "length (pool_entries pool') = Suc n" using p'(2,3) p(2) by simp
  moreover have "pe_amount e = 1 \<and> 100 \<le> pe_lockup e \<and> pe_lockup e < 100 + Suc n" if "e \<in> set (pool_entries pool')" for e
    using that p(3) unfolding p'(2) by (fastforce dest: in_set_takeD in_set_dropD)
  ultimately show ?case by blast
qed

text \<open>One more lockup, of two tokens, pushes one of them out of the pool.\<close>

lemma ex_evicted:
  "\<exists>pool lk e. ex_run (ex_world pool ((ex_locks 1024)(1124 := ex_lockup 2)) (ex_tokens 1026)) \<and> 100 \<le> lk \<and> lk < 1124
     \<and> lk \<notin> pe_lockup ` set (pool_entries pool) \<and> e \<in> set (pool_entries pool) \<and> pe_amount e = 1"
proof -
  obtain pool where p: "ex_run (ex_world pool (ex_locks 1024) (ex_tokens 1024))" "length (pool_entries pool) = 1024"
      "\<forall>e\<in>set (pool_entries pool). pe_amount e = 1 \<and> 100 \<le> pe_lockup e \<and> pe_lockup e < 1124"
    using ex_filled [of 1024] by (auto simp: LOCKUP_CAPACITY_def)
  let ?xs = "pool_entries pool"
  note inv = ex_inv [OF p(1)]
  have len: "lp_entries_len pool = LOCKUP_CAPACITY" using inv p(2) by (simp add: pool_inv_def pool_entries_def LOCKUP_CAPACITY_def)
  have "?xs \<noteq> []" "butlast ?xs \<noteq> []" using p(2) by (auto simp flip: length_greater_0_conv)
  then have xs: "?xs = butlast ?xs @ [last ?xs]" "last ?xs \<in> set ?xs" "hd (butlast ?xs) \<in> set (butlast ?xs)" by simp_all
  have "1124 \<notin> pe_lockup ` set ?xs" using p(3) by auto
  from pool_insert_entries [OF inv _ _ this, of 2 "replicate 32 0"] len p(3) xs(2) obtain k pool' where
    p': "pool_insert 1124 2 (replicate 32 0) pool = Ok pool'" "pool_entries pool' = take k (butlast ?xs) @
      \<lparr>pe_lockup = 1124, pe_amount = 2, pe_metadata = replicate 32 0\<rparr> # drop k (butlast ?xs)" "k \<le> length (butlast ?xs)"
    by auto
  have set': "set (pool_entries pool') = insert \<lparr>pe_lockup = 1124, pe_amount = 2, pe_metadata = replicate 32 0\<rparr> (set (butlast ?xs))"
    unfolding p'(2) using set_append [of "take k (butlast ?xs)" "drop k (butlast ?xs)"] by simp
  have "distinct (map pe_lockup (butlast ?xs @ [last ?xs]))" using inv xs(1) by (simp add: pool_inv_def)
  then have "pe_lockup (last ?xs) \<notin> pe_lockup ` set (pool_entries pool')" using set' p(3) xs(2) by auto
  moreover have "ex_run (ex_world pool' ((ex_locks 1024)(1124 := ex_lockup 2)) (ex_tokens (1024 + 2)))"
    by (rule ex_lock [OF p(1) _ _ _ _ p'(1)]) (simp_all add: ex_locks_def)
  ultimately show ?thesis
    using p(3) xs(2,3) set' in_set_butlastD [of "hd (butlast ?xs)" ?xs]
    by (intro exI [of _ pool'] exI [of _ "pe_lockup (last ?xs)"] exI [of _ "hd (butlast ?xs)"]) auto
qed

lemma lockup_run_mono: "lockup_run env program_id tv escrow m p w \<Longrightarrow> (\<And>a. p a \<Longrightarrow> q a) \<Longrightarrow> lockup_run env program_id tv escrow m q w"
  by (induction rule: lockup_run.induct) (blast intro: lockup_run.intros)+

lemma ex_open: "100 \<le> k \<Longrightarrow> lk_discriminator (locks k) = replicate 8 2 \<Longrightarrow> open_lockup ex_env 7 (lw_accounts (ex_world pool locks tok) k) = Some (locks k)"
  by (simp add: open_lockup_eq ex_world_def)

theorem lockup_escrow_solvent_witness:
  "\<exists>pool. lockup_run ex_env 7 ex_view 42 3 (\<lambda>_. True) (ex_world pool (ex_locks 3) (ex_tokens 3))
     \<and> owed ex_env 7 (lw_accounts (ex_world pool (ex_locks 3) (ex_tokens 3))) 3 \<le> 3"
proof -
  obtain pool where "ex_run (ex_world pool (ex_locks 3) (ex_tokens 3))" using ex_filled [of 3] by (auto simp: LOCKUP_CAPACITY_def)
  then have run: "lockup_run ex_env 7 ex_view 42 3 (\<lambda>_. True) (ex_world pool (ex_locks 3) (ex_tokens 3))" by (rule lockup_run_mono) simp
  then show ?thesis using lockup_escrow_solvent [OF ex_laws ex_escrow(2) ex_disc run]
    by (auto simp: ex_view_def ex_world_def ex_tokens_def)
qed

theorem lockup_pools_ranked_witness:
  "\<exists>pool. lp_entries_len pool = 3 \<and> pool_inv pool
     \<and> entry_backed ex_env 7 (lw_accounts (ex_world pool (ex_locks 3) (ex_tokens 3))) 50 (lp_entries pool ! 2)"
proof -
  obtain pool where p: "ex_run (ex_world pool (ex_locks 3) (ex_tokens 3))" "length (pool_entries pool) = 3"
    using ex_filled [of 3] by (auto simp: LOCKUP_CAPACITY_def)
  have "lp_entries_len pool = 3" using ex_inv [OF p(1)] p(2) by (simp add: pool_inv_def pool_entries_def)
  then show ?thesis using lockup_pools_ranked [OF ex_disc _ p(1), of 50 pool] by (auto simp: ex_world_def)
qed

theorem lockup_unlock_outcome_witness:
  "\<exists>pool lk. ex_run (ex_world pool ((ex_locks 1024)(1124 := ex_lockup 2)) (ex_tokens 1026))
     \<and> open_lockup ex_env 7 (lw_accounts (ex_world pool ((ex_locks 1024)(1124 := ex_lockup 2)) (ex_tokens 1026)) lk) = Some (ex_lockup 1)
     \<and> process_unlock ex_env 7 (ex_unlock_infos lk) (ex_world pool ((ex_locks 1024)(1124 := ex_lockup 2)) (ex_tokens 1026)) = Panic"
proof -
  obtain pool lk e where p: "ex_run (ex_world pool ((ex_locks 1024)(1124 := ex_lockup 2)) (ex_tokens 1026))" "100 \<le> lk" "lk < 1124"
      "lk \<notin> pe_lockup ` set (pool_entries pool)" "e \<in> set (pool_entries pool)" "pe_amount e = 1"
    using ex_evicted by blast
  let ?w = "ex_world pool ((ex_locks 1024)(1124 := ex_lockup 2)) (ex_tokens 1026)"
  have l: "((ex_locks 1024)(1124 := ex_lockup 2)) lk = ex_lockup 1" using p(3) by (simp add: ex_locks_def)
  have opened: "open_lockup ex_env 7 (lw_accounts ?w lk) = Some (ex_lockup 1)"
    using ex_open [OF p(2), of "(ex_locks 1024)(1124 := ex_lockup 2)"] l by (simp add: ex_lockup_def)
  have infos: "ex_unlock_infos lk = \<lparr>ai_key = lk_authority (ex_lockup 1), ai_is_signer = True\<rparr> # ex_info 50 # ex_info lk # []"
    by (simp add: ex_unlock_infos_def ex_info_def ex_lockup_def)
  have "\<not> (\<forall>e\<in>set (pool_entries pool). lk_amount (ex_lockup 1) < pe_amount e)" using p(5,6) by (auto simp: ex_lockup_def intro!: bexI [of _ e])
  then have "process_unlock ex_env 7 (ex_unlock_infos lk) ?w = Panic"
    using lockup_unlock_outcome [OF ex_disc _ p(1) _ _ opened _ _ infos, of 50 pool] p(4)
    by (simp add: Let_def ex_world_def ex_lockup_def ex_info_def)
  then show ?thesis using p(1) opened by blast
qed

theorem lockup_escrow_pays_withdrawals_witness:
  "\<exists>w w'. lockup_process ex_env 7 (ex_withdraw_infos 100) [3] w = Ok w' \<and> tv_holdings ex_view (lw_tokens w) 42 3 = 5
     \<and> tv_holdings ex_view (lw_tokens w') 42 3 = 0 \<and> open_lockup ex_env 7 (lw_accounts w' 100) = None"
proof -
  let ?w = "(ex_world ex_pool (\<lambda>_. (ex_lockup 5)\<lparr>lk_end_timestamp := Some 1000\<rparr>) (ex_tokens 5))\<lparr>lw_unix_timestamp := 2800\<rparr>"
  have tok: "ex_transfer (ex_tokens 5) 42 3 2 42 True [] 5 9 = Ok (ex_tokens 0)"
    by (auto simp: ex_transfer_def ex_tokens_def fun_eq_iff Let_def)
  have "\<exists>w'. lockup_process ex_env 7 (ex_withdraw_infos 100) [3] ?w = Ok w' \<and> lw_tokens w' = ex_tokens 0"
    by (simp add: lockup_process_def lockup_unpack_def process_withdraw_def next_account_infos_def borrow_lockup_def ensure_def ok_or_def
        ex_withdraw_infos_def ex_info_def ex_escrow ex_world_def ex_lockup_def Let_def sat_add_u64_def LOCKUP_COOLDOWN_SECONDS_def as_u64_def
        signed_by_seeds_def ex_address checked_add_u64_def tok)
  then obtain w' where w': "lockup_process ex_env 7 (ex_withdraw_infos 100) [3] ?w = Ok w'" "lw_tokens w' = ex_tokens 0" by blast
  have h: "tv_holdings ex_view (lw_tokens ?w) 42 3 = 5" "tv_holdings ex_view (lw_tokens w') 42 3 = 0"
    using w'(2) by (simp_all add: ex_view_def ex_world_def ex_tokens_def)
  have "\<forall>a\<in>set (ex_withdraw_infos 100). ai_is_signer a \<longrightarrow> ai_key a \<noteq> 42" by (simp add: ex_withdraw_infos_def ex_info_def)
  from lockup_escrow_pays_withdrawals [OF ex_laws ex_escrow(2) ex_guarded w'(1) this] h
  have "open_lockup ex_env 7 (lw_accounts w' (ai_key (ex_withdraw_infos 100 ! 3))) = None" by (simp only: h) auto
  then have "open_lockup ex_env 7 (lw_accounts w' 100) = None" by (simp add: ex_withdraw_infos_def ex_info_def)
  then show ?thesis using w'(1) h by blast
qed

text \<open>
  A lockup of mint 8, whose transfers cost a fee, records the amount that was sent although the escrow
  authority receives less, so that it does not cover the lockup.
\<close>

lemma lockup_fee_not_covered:
  "\<exists>w. lockup_run ex_env 7 ex_view 42 8 (\<lambda>_. True) w \<and>
     tv_holdings ex_view (lw_tokens w) 42 8 < owed ex_env 7 (lw_accounts w) 8"
proof -
  let ?start = "\<lparr>lw_accounts = (\<lambda>k. \<lparr>pa_lamports = 1, pa_data = Other_Bytes [], pa_owner = 0\<rparr>), lw_tokens = ex_fee_tokens 0, lw_unix_timestamp = 0\<rparr>"
  let ?w = "ex_world ex_pool (\<lambda>_. ex_blank) (ex_fee_tokens 0)" and ?infos = "map ex_info [9, 2, 2, 50, 100, 42, 42, 8, 4]"
  let ?l = "\<lparr>lk_discriminator = replicate 8 2, lk_amount = 5, lk_authority = 9, lk_start_timestamp = 1000,
     lk_end_timestamp = None, lk_mint = 8, lk_pool = 50, lk_metadata = replicate 32 0\<rparr>" and ?i = "lockup_pack (Lockup_Tokens (replicate 32 0) 5)"
  have i: "lockup_unpack ?i = Ok (Lockup_Tokens (replicate 32 0) 5)" by (intro lockup_pack_unpack) simp
  have "lockup_run ex_env 7 ex_view 42 8 (\<lambda>_. True) ?start" by (rule lockup_start) (simp_all add: ex_guarded)
  then have run: "lockup_run ex_env 7 ex_view 42 8 (\<lambda>_. True) ?w"
    by (rule lockup_outside) (simp add: outside_step_def ex_guarded ex_world_def ex_pool_def ex_blank_def)
  have inv: "pool_inv ex_pool" and empty: "pool_entries ex_pool = []" "lp_entries_len ex_pool = 0"
    by (simp_all add: pool_inv_def pool_entries_def ex_pool_def)
  from pool_insert_entries [OF inv, of 5 100 "replicate 32 0"] empty obtain pool' where
    ins: "pool_insert 100 5 (replicate 32 0) ex_pool = Ok pool'" by (auto simp: LOCKUP_CAPACITY_def)
  let ?w' = "ex_world pool' ((\<lambda>_. ex_blank)(100 := ?l)) (ex_fee_tokens 5)"
  have tok: "ex_transfer (ex_fee_tokens 0) 2 8 42 2 True [] 5 9 = Ok (ex_fee_tokens 5)"
    by (auto simp: ex_transfer_def ex_fee_tokens_def fun_eq_iff Let_def)
  have final: "?w\<lparr>lw_accounts := set_data 50 (Pool_Bytes pool') (set_data 100 (Lockup_Bytes ?l) (lw_accounts ?w)),
      lw_tokens := ex_fee_tokens 5\<rparr> = ?w'"
    by (auto simp: set_data_def ex_world_def fun_eq_iff)
  have w: "pa_owner (lw_accounts ?w 50) = 7" "pa_data (lw_accounts ?w 50) = Pool_Bytes ex_pool" "pa_owner (lw_accounts ?w 100) = 7"
      "pa_data (lw_accounts ?w 100) = Lockup_Bytes ex_blank" "lw_tokens ?w = ex_fee_tokens 0" "as_u64 (lw_unix_timestamp ?w) = 1000"
      "lk_discriminator ex_blank = uninitialized"
    by (simp_all add: ex_world_def ex_blank_def as_u64_def)
  have "process_lockup ex_env 7 ?infos (replicate 32 0) 5 ?w = Ok ?w'"
    using ins w tok
    by (simp add: process_lockup_def next_account_infos_def borrow_pool_def assert_that_def ensure_def ok_or_def ex_info_def
        ex_escrow final Let_def)
  then have "lockup_process ex_env 7 ?infos ?i ?w = Ok ?w'" using i by (simp add: lockup_process_def)
  then have run': "lockup_run ex_env 7 ex_view 42 8 (\<lambda>_. True) ?w'"
    by (rule lockup_instr [OF run]) (auto simp: ex_info_def)
  have "open_lockup ex_env 7 (lw_accounts ?w' k) = (if k = 100 then Some ?l else None)" for k
    by (auto simp: open_lockup_def ex_world_def ex_blank_def uninitialized_def)
  then have "owed ex_env 7 (lw_accounts ?w') 8 = 5"
    by (simp add: owed_def open_keys_def owed_for_def)
  then show ?thesis using run' by (intro exI [of _ ?w']) (simp add: ex_view_def ex_world_def ex_fee_tokens_def)
qed

end
