(* ===== verification/Fork_Choice.thy ===== *)
theory Fork_Choice
  imports Ordered_Map Std_Slice Epoch_Schedule "HOL-Library.Product_Lexorder"
begin

text \<open>
  The fork choice of consensus, \<^verbatim>\<open>core/src/consensus/heaviest_subtree_fork_choice.rs\<close> with the tree walk of
  \<^verbatim>\<open>core/src/consensus/tree_diff.rs\<close>: a tree of blocks with the stake that voted in every subtree, and in
  every block the best and the deepest block below it. The latest votes are maps from vote accounts; the
  stake of a vote account in an epoch is read from a map of epochs. \<open>HashMap\<close>s are partial functions, the
  \<open>BTreeSet\<close> of children is a sorted list, and the update operations are an ordered map.
\<close>

section \<open>Definitions\<close>

text \<open>A block is named by its slot and the hash of its bank; a loop over the tree can fail to end.\<close>

type_synonym slot_hash_key = "slot \<times> hash"

datatype fork_loop = Loop_Continues

datatype update_label = L_Aggregate | L_Add | L_MarkValid slot | L_MarkInvalid slot | L_Subtract

fun label_rank :: "update_label \<Rightarrow> nat \<times> slot" where
  "label_rank L_Aggregate = (0, 0)"
| "label_rank L_Add = (1, 0)"
| "label_rank (L_MarkValid s) = (2, s)"
| "label_rank (L_MarkInvalid s) = (3, s)"
| "label_rank L_Subtract = (4, 0)"

instantiation update_label :: linorder
begin

definition less_eq_update_label :: "update_label \<Rightarrow> update_label \<Rightarrow> bool" where
  "less_eq_update_label a b \<longleftrightarrow> label_rank a \<le> label_rank b"

definition less_update_label :: "update_label \<Rightarrow> update_label \<Rightarrow> bool" where
  "less_update_label a b \<longleftrightarrow> label_rank a < label_rank b"

instance
proof
  fix a b c :: update_label
  show "a < b \<longleftrightarrow> a \<le> b \<and> \<not> b \<le> a" by (auto simp: less_eq_update_label_def less_update_label_def)
  show "a \<le> a" by (simp add: less_eq_update_label_def)
  show "a \<le> b \<Longrightarrow> b \<le> c \<Longrightarrow> a \<le> c" by (auto simp: less_eq_update_label_def)
  show "a \<le> b \<Longrightarrow> b \<le> a \<Longrightarrow> a = b" by (cases a; cases b) (simp_all add: less_eq_update_label_def)
  show "a \<le> b \<or> b \<le> a" by (auto simp: less_eq_update_label_def)
qed

end

datatype update_operation = Op_Add nat | Op_MarkValid slot | Op_MarkInvalid slot | Op_Subtract nat | Op_Aggregate

type_synonym update_operations = "(slot_hash_key \<times> update_label, update_operation) btree_map"

text \<open>Sums and differences of stake are 64 bits wide and wrap, as in a build without overflow checks.\<close>

definition stake_add :: "nat \<Rightarrow> nat \<Rightarrow> nat" where "stake_add a b = (a + b) mod 2 ^ 64"

definition stake_sub :: "nat \<Rightarrow> nat \<Rightarrow> nat" where "stake_sub a b = (a + 2 ^ 64 - b mod 2 ^ 64) mod 2 ^ 64"

fun update_stake :: "nat \<Rightarrow> update_operation \<Rightarrow> (fork_loop, update_operation) result" where
  "update_stake new_stake (Op_Add stake) = Ok (Op_Add (stake_add stake new_stake))"
| "update_stake new_stake (Op_Subtract stake) = Ok (Op_Subtract (stake_add stake new_stake))"
| "update_stake new_stake _ = Panic"

record fork_info =
  fi_stake_voted_at :: nat
  fi_stake_voted_subtree :: nat
  fi_height :: nat
  fi_best_slot :: slot_hash_key
  fi_deepest_slot :: slot_hash_key
  fi_parent :: "slot_hash_key option"
  fi_children :: "slot_hash_key list"
  fi_latest_invalid_ancestor :: "slot option"
  fi_is_duplicate_confirmed :: bool

type_synonym fork_infos = "slot_hash_key \<rightharpoonup> fork_info"

definition fi_is_unconfirmed_duplicate :: "slot \<Rightarrow> fork_info \<Rightarrow> bool" where
  "fi_is_unconfirmed_duplicate my_slot i = (fi_latest_invalid_ancestor i = Some my_slot)"

definition fi_is_candidate :: "fork_info \<Rightarrow> bool" where
  "fi_is_candidate i = (fi_latest_invalid_ancestor i = None)"

definition set_duplicate_confirmed :: "fork_info \<Rightarrow> fork_info" where
  "set_duplicate_confirmed i = i\<lparr>fi_is_duplicate_confirmed := True, fi_latest_invalid_ancestor := None\<rparr>"

definition update_with_newly_valid_ancestor :: "slot \<Rightarrow> fork_info \<Rightarrow> fork_info" where
  "update_with_newly_valid_ancestor newly_valid_ancestor i =
     (case fi_latest_invalid_ancestor i of
        Some latest_invalid_ancestor \<Rightarrow>
          if latest_invalid_ancestor \<le> newly_valid_ancestor then i\<lparr>fi_latest_invalid_ancestor := None\<rparr> else i
      | None \<Rightarrow> i)"

definition update_with_newly_invalid_ancestor :: "slot \<Rightarrow> fork_info \<Rightarrow> (fork_loop, fork_info) result" where
  "update_with_newly_invalid_ancestor newly_invalid_ancestor i =
     rbind (assert_that (\<not> fi_is_duplicate_confirmed i)) (\<lambda>_.
     if (case fi_latest_invalid_ancestor i of Some latest \<Rightarrow> latest < newly_invalid_ancestor | None \<Rightarrow> True)
     then Ok (i\<lparr>fi_latest_invalid_ancestor := Some newly_invalid_ancestor\<rparr>) else Ok i)"

text \<open>The time of the last root only decides when the state is logged, and is left out.\<close>

record fork_choice =
  fork_infos :: fork_infos
  latest_votes :: "pubkey \<rightharpoonup> slot_hash_key"
  tree_root :: slot_hash_key

section \<open>Reading the tree\<close>

definition contains_block :: "slot_hash_key \<Rightarrow> fork_choice \<Rightarrow> bool" where
  "contains_block key fc = (fork_infos fc key \<noteq> None)"

definition best_slot :: "fork_infos \<Rightarrow> slot_hash_key \<Rightarrow> slot_hash_key option" where
  "best_slot fi key = map_option fi_best_slot (fi key)"

definition deepest_slot :: "fork_infos \<Rightarrow> slot_hash_key \<Rightarrow> slot_hash_key option" where
  "deepest_slot fi key = map_option fi_deepest_slot (fi key)"

definition best_overall_slot :: "fork_choice \<Rightarrow> (fork_loop, slot_hash_key) result" where
  "best_overall_slot fc = unwrap (best_slot (fork_infos fc) (tree_root fc))"

definition deepest_overall_slot :: "fork_choice \<Rightarrow> (fork_loop, slot_hash_key) result" where
  "deepest_overall_slot fc = unwrap (deepest_slot (fork_infos fc) (tree_root fc))"

definition stake_voted_subtree :: "fork_infos \<Rightarrow> slot_hash_key \<Rightarrow> nat option" where
  "stake_voted_subtree fi key = map_option fi_stake_voted_subtree (fi key)"

definition stake_voted_at :: "fork_infos \<Rightarrow> slot_hash_key \<Rightarrow> nat option" where
  "stake_voted_at fi key = map_option fi_stake_voted_at (fi key)"

definition fork_height :: "fork_infos \<Rightarrow> slot_hash_key \<Rightarrow> nat option" where
  "fork_height fi key = map_option fi_height (fi key)"

definition fork_parent :: "fork_infos \<Rightarrow> slot_hash_key \<Rightarrow> slot_hash_key option" where
  "fork_parent fi key = (case fi key of Some i \<Rightarrow> fi_parent i | None \<Rightarrow> None)"

definition fork_children :: "fork_infos \<Rightarrow> slot_hash_key \<Rightarrow> slot_hash_key list option" where
  "fork_children fi key = map_option fi_children (fi key)"

definition latest_invalid_ancestor :: "fork_infos \<Rightarrow> slot_hash_key \<Rightarrow> slot option" where
  "latest_invalid_ancestor fi key = (case fi key of Some i \<Rightarrow> fi_latest_invalid_ancestor i | None \<Rightarrow> None)"

definition is_duplicate_confirmed :: "fork_infos \<Rightarrow> slot_hash_key \<Rightarrow> bool option" where
  "is_duplicate_confirmed fi key = map_option fi_is_duplicate_confirmed (fi key)"

definition is_unconfirmed_duplicate :: "fork_infos \<Rightarrow> slot_hash_key \<Rightarrow> bool option" where
  "is_unconfirmed_duplicate fi key = map_option (fi_is_unconfirmed_duplicate (fst key)) (fi key)"

definition is_candidate :: "fork_infos \<Rightarrow> slot_hash_key \<Rightarrow> bool option" where
  "is_candidate fi key = map_option fi_is_candidate (fi key)"

definition max_by_weight :: "fork_infos \<Rightarrow> slot_hash_key \<Rightarrow> slot_hash_key \<Rightarrow> (fork_loop, ordering) result" where
  "max_by_weight fi slot1 slot2 =
     rbind (unwrap (stake_voted_subtree fi slot1)) (\<lambda>weight1.
     rbind (unwrap (stake_voted_subtree fi slot2)) (\<lambda>weight2.
     Ok (if weight1 = weight2 then cmp slot2 slot1 else cmp weight1 weight2)))"

text \<open>
  The loops along parents and down the tree end only if the links have no cycle. Such a loop is a partial
  function, and \<open>returns\<close> turns its not returning into an error value of its own.
\<close>

definition returns :: "(fork_loop, 'a) result option \<Rightarrow> (fork_loop, 'a) result" where
  "returns r = (case r of Some r \<Rightarrow> r | None \<Rightarrow> Err Loop_Continues)"

partial_function (option) ancestor_iterator :: "fork_infos \<Rightarrow> slot_hash_key \<Rightarrow> slot_hash_key list option" where
  "ancestor_iterator fi key =
     (case fork_parent fi key of
        None \<Rightarrow> Some []
      | Some parent \<Rightarrow> Option.bind (ancestor_iterator fi parent) (\<lambda>rest. Some (parent # rest)))"

partial_function (option) ancestor_any :: "fork_infos \<Rightarrow> (slot_hash_key \<Rightarrow> bool) \<Rightarrow> slot_hash_key \<Rightarrow> bool option" where
  "ancestor_any fi p key =
     (case fork_parent fi key of
        None \<Rightarrow> Some False
      | Some parent \<Rightarrow> if p parent then Some True else ancestor_any fi p parent)"

definition is_strict_ancestor :: "fork_infos \<Rightarrow> slot_hash_key \<Rightarrow> slot_hash_key \<Rightarrow> (fork_loop, bool) result" where
  "is_strict_ancestor fi maybe_ancestor_key node_key =
     (if maybe_ancestor_key = node_key then Ok False
      else if fst node_key < fst maybe_ancestor_key then Ok False
      else returns (map_option Ok (ancestor_any fi (\<lambda>a. fst a = fst maybe_ancestor_key \<and> snd a = snd maybe_ancestor_key) node_key)))"

text \<open>The stack of pending keys has its top at the head; the set of reachable keys is a list without repetition.\<close>

partial_function (option) subtree_diff_loop ::
  "fork_infos \<Rightarrow> slot_hash_key \<Rightarrow> slot_hash_key list \<Rightarrow> slot_hash_key list \<Rightarrow> (fork_loop, slot_hash_key list) result option" where
  "subtree_diff_loop fi root2 pending_keys reachable_set =
     (case pending_keys of
        [] \<Rightarrow> Some (Ok reachable_set)
      | current_key # pending_keys \<Rightarrow>
          if current_key = root2 then subtree_diff_loop fi root2 pending_keys reachable_set
          else case fork_children fi current_key of
            None \<Rightarrow> Some Panic
          | Some children \<Rightarrow>
              subtree_diff_loop fi root2 (rev children @ pending_keys) (List.insert current_key reachable_set))"

definition subtree_diff :: "fork_infos \<Rightarrow> slot_hash_key \<Rightarrow> slot_hash_key \<Rightarrow> (fork_loop, slot_hash_key list) result" where
  "subtree_diff fi root1 root2 =
     (if fi root1 = None then Ok [] else returns (subtree_diff_loop fi root2 [root1] []))"

section \<open>Best and deepest children\<close>

fun best_among :: "fork_infos \<Rightarrow> slot_hash_key \<Rightarrow> nat \<Rightarrow> slot_hash_key list \<Rightarrow> (fork_loop, bool) result" where
  "best_among fi maybe_best_child weight [] = Ok True"
| "best_among fi maybe_best_child weight (child # children) =
     rbind (unwrap (stake_voted_subtree fi child)) (\<lambda>child_weight.
     rbind (unwrap (is_candidate fi child)) (\<lambda>candidate.
     if \<not> candidate then best_among fi maybe_best_child weight children
     else if weight < child_weight \<or> weight = child_weight \<and> child < maybe_best_child then Ok False
     else best_among fi maybe_best_child weight children))"

definition is_best_child :: "fork_infos \<Rightarrow> slot_hash_key \<Rightarrow> (fork_loop, bool) result" where
  "is_best_child fi maybe_best_child =
     rbind (unwrap (stake_voted_subtree fi maybe_best_child)) (\<lambda>weight.
     case fork_parent fi maybe_best_child of
       None \<Rightarrow> Ok True
     | Some parent \<Rightarrow> rbind (unwrap (fork_children fi parent)) (best_among fi maybe_best_child weight))"

fun deepest_among :: "fork_infos \<Rightarrow> slot_hash_key \<Rightarrow> nat \<Rightarrow> nat \<Rightarrow> slot_hash_key list \<Rightarrow> (fork_loop, bool) result" where
  "deepest_among fi maybe_deepest_child weight height [] = Ok True"
| "deepest_among fi maybe_deepest_child weight height (child # children) =
     rbind (unwrap (fork_height fi child)) (\<lambda>child_height.
     rbind (unwrap (stake_voted_subtree fi child)) (\<lambda>child_weight.
     case (cmp child_height height, cmp child_weight weight, cmp child maybe_deepest_child) of
       (Greater, _, _) \<Rightarrow> Ok False
     | (Equal, Greater, _) \<Rightarrow> Ok False
     | (Equal, Equal, Less) \<Rightarrow> Ok False
     | _ \<Rightarrow> deepest_among fi maybe_deepest_child weight height children))"

definition is_deepest_child :: "fork_infos \<Rightarrow> slot_hash_key \<Rightarrow> (fork_loop, bool) result" where
  "is_deepest_child fi maybe_deepest_child =
     rbind (unwrap (stake_voted_subtree fi maybe_deepest_child)) (\<lambda>weight.
     rbind (unwrap (fork_height fi maybe_deepest_child)) (\<lambda>height.
     case fork_parent fi maybe_deepest_child of
       None \<Rightarrow> Ok True
     | Some parent \<Rightarrow> rbind (unwrap (fork_children fi parent)) (deepest_among fi maybe_deepest_child weight height)))"

section \<open>A new leaf\<close>

partial_function (option) propagate_best ::
  "slot_hash_key \<Rightarrow> slot_hash_key \<Rightarrow> slot_hash_key option \<Rightarrow> fork_infos \<Rightarrow> (fork_loop, fork_infos) result option" where
  "propagate_best leaf parent_best ancestor fi =
     (case ancestor of
        None \<Rightarrow> Some (Ok fi)
      | Some a \<Rightarrow>
          case fi a of
            None \<Rightarrow> Some Panic
          | Some i \<Rightarrow>
              if fi_best_slot i = parent_best
              then propagate_best leaf parent_best (fi_parent i) (fi(a \<mapsto> i\<lparr>fi_best_slot := leaf\<rparr>))
              else Some (Ok fi))"

partial_function (option) propagate_deepest ::
  "slot_hash_key \<Rightarrow> slot_hash_key option \<Rightarrow> slot_hash_key \<Rightarrow> nat \<Rightarrow> fork_infos \<Rightarrow> (fork_loop, fork_infos) result option" where
  "propagate_deepest leaf ancestor current_child current_height fi =
     (case ancestor of
        None \<Rightarrow> Some (Ok fi)
      | Some a \<Rightarrow>
          case is_deepest_child fi current_child of
            Panic \<Rightarrow> Some Panic
          | Err e \<Rightarrow> Some (Err e)
          | Ok deepest \<Rightarrow>
              if \<not> deepest then Some (Ok fi)
              else case fi a of
                None \<Rightarrow> Some Panic
              | Some i \<Rightarrow>
                  propagate_deepest leaf (fi_parent i) a (current_height + 1)
                    (fi(a \<mapsto> i\<lparr>fi_deepest_slot := leaf, fi_height := current_height + 1\<rparr>)))"

definition propagate_new_leaf :: "slot_hash_key \<Rightarrow> slot_hash_key \<Rightarrow> fork_infos \<Rightarrow> (fork_loop, fork_infos) result" where
  "propagate_new_leaf slot_hash_key parent fi =
     rbind (unwrap (best_slot fi parent)) (\<lambda>parent_best.
     rbind (is_best_child fi slot_hash_key) (\<lambda>best.
     rbind (if best then returns (propagate_best slot_hash_key parent_best (Some parent) fi) else Ok fi) (\<lambda>fi.
     returns (propagate_deepest slot_hash_key (Some parent) slot_hash_key 1 fi))))"

definition new_fork_info :: "slot_hash_key \<Rightarrow> slot_hash_key option \<Rightarrow> fork_infos \<Rightarrow> fork_info" where
  "new_fork_info slot_hash_key parent fi =
     \<lparr>fi_stake_voted_at = 0, fi_stake_voted_subtree = 0, fi_height = 1, fi_best_slot = slot_hash_key,
      fi_deepest_slot = slot_hash_key, fi_parent = parent, fi_children = [],
      fi_latest_invalid_ancestor = Option.bind parent (latest_invalid_ancestor fi),
      fi_is_duplicate_confirmed = (parent = None)\<rparr>"

definition add_new_leaf_slot ::
  "slot_hash_key \<Rightarrow> slot_hash_key option \<Rightarrow> fork_choice \<Rightarrow> (fork_loop, fork_choice) result" where
  "add_new_leaf_slot slot_hash_key parent fc =
     (let fi = fork_infos fc in
      if fi slot_hash_key \<noteq> None then Ok fc
      else
        let fi = fi(slot_hash_key \<mapsto> new_fork_info slot_hash_key parent fi) in
        case parent of
          None \<Rightarrow> Ok (fc\<lparr>fork_infos := fi\<rparr>)
        | Some parent \<Rightarrow>
            rbind (unwrap (fi parent)) (\<lambda>i.
            rbind (propagate_new_leaf slot_hash_key parent
              (fi(parent \<mapsto> i\<lparr>fi_children := insort_insert slot_hash_key (fi_children i)\<rparr>))) (\<lambda>fi.
            Ok (fc\<lparr>fork_infos := fi\<rparr>))))"

definition fork_choice_new :: "slot_hash_key \<Rightarrow> (fork_loop, fork_choice) result" where
  "fork_choice_new root =
     add_new_leaf_slot root None \<lparr>fork_infos = Map.empty, latest_votes = Map.empty, tree_root = root\<rparr>"

record frozen_bank =
  fb_is_frozen :: bool
  fb_slot :: slot
  fb_hash :: hash
  fb_parent_slot :: slot
  fb_parent_hash :: hash

fun add_frozen_banks :: "slot \<Rightarrow> slot \<Rightarrow> frozen_bank list \<Rightarrow> fork_choice \<Rightarrow> (fork_loop, fork_choice) result" where
  "add_frozen_banks root prev_slot [] fc = Ok fc"
| "add_frozen_banks root prev_slot (bank # banks) fc =
     rbind (assert_that (fb_is_frozen bank)) (\<lambda>_.
     if root < fb_slot bank then
       rbind (assert_that (prev_slot < fb_slot bank)) (\<lambda>_.
       rbind (assert_that (fb_hash bank \<noteq> 0)) (\<lambda>_.
       rbind (assert_that (fb_parent_hash bank \<noteq> 0)) (\<lambda>_.
       rbind (add_new_leaf_slot (fb_slot bank, fb_hash bank) (Some (fb_parent_slot bank, fb_parent_hash bank)) fc) (\<lambda>fc.
       add_frozen_banks root (fb_slot bank) banks fc))))
     else add_frozen_banks root prev_slot banks fc)"

definition new_from_frozen_banks :: "slot_hash_key \<Rightarrow> frozen_bank list \<Rightarrow> (fork_loop, fork_choice) result" where
  "new_from_frozen_banks root frozen_banks =
     rbind (fork_choice_new root) (add_frozen_banks (fst root) (fst root) frozen_banks)"

definition add_root_parent :: "slot_hash_key \<Rightarrow> fork_choice \<Rightarrow> (fork_loop, fork_choice) result" where
  "add_root_parent root_parent fc =
     rbind (assert_that (fst root_parent < fst (tree_root fc))) (\<lambda>_.
     rbind (assert_that (fork_infos fc root_parent = None)) (\<lambda>_.
     rbind (unwrap (fork_infos fc (tree_root fc))) (\<lambda>root_info.
     let root_parent_info =
       \<lparr>fi_stake_voted_at = 0, fi_stake_voted_subtree = fi_stake_voted_subtree root_info, fi_height = fi_height root_info + 1,
        fi_best_slot = fi_best_slot root_info, fi_deepest_slot = fi_deepest_slot root_info, fi_parent = None,
        fi_children = [tree_root fc], fi_latest_invalid_ancestor = None,
        fi_is_duplicate_confirmed = fi_is_duplicate_confirmed root_info\<rparr> in
     Ok (fc\<lparr>fork_infos := (fork_infos fc)(tree_root fc \<mapsto> root_info\<lparr>fi_parent := Some root_parent\<rparr>, root_parent \<mapsto> root_parent_info),
            tree_root := root_parent\<rparr>))))"

section \<open>Aggregation\<close>

record aggregate =
  ag_stake_voted_subtree :: nat
  ag_deepest_child_height :: nat
  ag_best_slot :: slot_hash_key
  ag_deepest_slot :: slot_hash_key
  ag_is_duplicate_confirmed :: bool
  ag_best_child_stake :: nat
  ag_best_child :: slot_hash_key
  ag_deepest_child_stake :: nat
  ag_deepest_child :: slot_hash_key

definition aggregate_child :: "slot_hash_key \<Rightarrow> slot_hash_key \<Rightarrow> fork_info \<Rightarrow> aggregate \<Rightarrow> aggregate" where
  "aggregate_child slot_hash_key child_key child ag =
     (let stake = fi_stake_voted_subtree child; height = fi_height child;
          ag = ag\<lparr>ag_is_duplicate_confirmed := ag_is_duplicate_confirmed ag \<or> fi_is_duplicate_confirmed child,
                  ag_stake_voted_subtree := stake_add (ag_stake_voted_subtree ag) stake\<rparr>;
          ag = (if fi_is_candidate child \<and> (ag_best_child ag = slot_hash_key \<or> ag_best_child_stake ag < stake
                    \<or> stake = ag_best_child_stake ag \<and> child_key < ag_best_child ag)
                then ag\<lparr>ag_best_child_stake := stake, ag_best_child := child_key, ag_best_slot := fi_best_slot child\<rparr> else ag);
          deeper = (case (ag_deepest_child ag = slot_hash_key, cmp height (ag_deepest_child_height ag),
                      cmp stake (ag_deepest_child_stake ag), cmp child_key (ag_deepest_child ag)) of
              (True, _, _, _) \<Rightarrow> True
            | (_, Greater, _, _) \<Rightarrow> True
            | (_, Equal, Greater, _) \<Rightarrow> True
            | (_, Equal, Equal, Less) \<Rightarrow> True
            | _ \<Rightarrow> False) in
      if deeper then ag\<lparr>ag_deepest_child_height := height, ag_deepest_child_stake := stake, ag_deepest_child := child_key,
                        ag_deepest_slot := fi_deepest_slot child\<rparr>
      else ag)"

fun aggregate_children ::
  "fork_infos \<Rightarrow> slot_hash_key \<Rightarrow> slot_hash_key list \<Rightarrow> aggregate \<Rightarrow> (fork_loop, aggregate) result" where
  "aggregate_children fi slot_hash_key [] ag = Ok ag"
| "aggregate_children fi slot_hash_key (child_key # children) ag =
     rbind (unwrap (fi child_key)) (\<lambda>child.
     aggregate_children fi slot_hash_key children (aggregate_child slot_hash_key child_key child ag))"

definition aggregate_info :: "fork_infos \<Rightarrow> slot_hash_key \<Rightarrow> fork_info \<Rightarrow> (fork_loop, fork_info) result" where
  "aggregate_info fi slot_hash_key i =
     rbind (aggregate_children fi slot_hash_key (fi_children i)
       \<lparr>ag_stake_voted_subtree = fi_stake_voted_at i, ag_deepest_child_height = 0, ag_best_slot = slot_hash_key,
        ag_deepest_slot = slot_hash_key, ag_is_duplicate_confirmed = False, ag_best_child_stake = 0, ag_best_child = slot_hash_key,
        ag_deepest_child_stake = 0, ag_deepest_child = slot_hash_key\<rparr>) (\<lambda>ag.
     Ok ((if ag_is_duplicate_confirmed ag then set_duplicate_confirmed i else i)
       \<lparr>fi_stake_voted_subtree := ag_stake_voted_subtree ag, fi_height := ag_deepest_child_height ag + 1,
        fi_best_slot := ag_best_slot ag, fi_deepest_slot := ag_deepest_slot ag\<rparr>))"

definition mark_fork_valid :: "slot_hash_key \<Rightarrow> slot \<Rightarrow> fork_info \<Rightarrow> fork_info" where
  "mark_fork_valid key valid_slot i =
     (let i = update_with_newly_valid_ancestor valid_slot i in
      if fst key = valid_slot then i\<lparr>fi_is_duplicate_confirmed := True\<rparr> else i)"

definition add_slot_stake :: "nat \<Rightarrow> fork_info \<Rightarrow> fork_info" where
  "add_slot_stake stake i =
     i\<lparr>fi_stake_voted_at := stake_add (fi_stake_voted_at i) stake, fi_stake_voted_subtree := stake_add (fi_stake_voted_subtree i) stake\<rparr>"

definition subtract_slot_stake :: "nat \<Rightarrow> fork_info \<Rightarrow> fork_info" where
  "subtract_slot_stake stake i =
     i\<lparr>fi_stake_voted_at := stake_sub (fi_stake_voted_at i) stake, fi_stake_voted_subtree := stake_sub (fi_stake_voted_subtree i) stake\<rparr>"

text \<open>What an operation does to the entry of its key; an absent entry is skipped.\<close>

fun apply_operation :: "fork_infos \<Rightarrow> slot_hash_key \<Rightarrow> update_operation \<Rightarrow> fork_info \<Rightarrow> (fork_loop, fork_info) result" where
  "apply_operation fi key (Op_MarkValid valid_slot) i = Ok (mark_fork_valid key valid_slot i)"
| "apply_operation fi key (Op_MarkInvalid invalid_slot) i = update_with_newly_invalid_ancestor invalid_slot i"
| "apply_operation fi key Op_Aggregate i = aggregate_info fi key i"
| "apply_operation fi key (Op_Add stake) i = Ok (add_slot_stake stake i)"
| "apply_operation fi key (Op_Subtract stake) i = Ok (subtract_slot_stake stake i)"

fun process_operations :: "((slot_hash_key \<times> update_label) \<times> update_operation) list \<Rightarrow> fork_infos \<Rightarrow> (fork_loop, fork_infos) result" where
  "process_operations [] fi = Ok fi"
| "process_operations (((key, label), operation) # operations) fi =
     (case fi key of
        None \<Rightarrow> process_operations operations fi
      | Some i \<Rightarrow> rbind (apply_operation fi key operation i) (\<lambda>i. process_operations operations (fi(key \<mapsto> i))))"

definition process_update_operations :: "update_operations \<Rightarrow> fork_infos \<Rightarrow> (fork_loop, fork_infos) result" where
  "process_update_operations update_operations fi = process_operations (rev update_operations) fi"

definition do_insert_aggregate_operation ::
  "update_operation option \<Rightarrow> slot_hash_key \<Rightarrow> update_operations \<Rightarrow> bool \<times> update_operations" where
  "do_insert_aggregate_operation modify_fork_validity key ops =
     (if bt_get ops (key, L_Aggregate) \<noteq> None then (False, ops)
      else
        let ops = (case modify_fork_validity of
              Some (Op_MarkValid slot) \<Rightarrow> bt_insert (key, L_MarkValid slot) (Op_MarkValid slot) ops
            | Some (Op_MarkInvalid slot) \<Rightarrow> bt_insert (key, L_MarkInvalid slot) (Op_MarkInvalid slot) ops
            | _ \<Rightarrow> ops)
        in (True, bt_insert (key, L_Aggregate) Op_Aggregate ops))"

partial_function (option) do_insert_aggregate_operations_across_ancestors ::
  "fork_infos \<Rightarrow> update_operation option \<Rightarrow> slot_hash_key \<Rightarrow> update_operations \<Rightarrow> update_operations option" where
  "do_insert_aggregate_operations_across_ancestors fi modify_fork_validity key ops =
     (case fork_parent fi key of
        None \<Rightarrow> Some ops
      | Some parent \<Rightarrow>
          (case do_insert_aggregate_operation modify_fork_validity parent ops of
             (inserted, ops) \<Rightarrow>
               if \<not> inserted then Some ops
               else do_insert_aggregate_operations_across_ancestors fi modify_fork_validity parent ops))"

definition insert_aggregate_operations ::
  "fork_infos \<Rightarrow> slot_hash_key \<Rightarrow> update_operations \<Rightarrow> (fork_loop, update_operations) result" where
  "insert_aggregate_operations fi key ops =
     returns (map_option Ok (do_insert_aggregate_operations_across_ancestors fi None key ops))"

section \<open>Votes\<close>

type_synonym epoch_stakes_map = "epoch \<rightharpoonup> (pubkey \<Rightarrow> nat)"

definition stake_update :: "epoch_stakes_map \<Rightarrow> epoch_schedule \<Rightarrow> pubkey \<Rightarrow> slot \<Rightarrow> nat" where
  "stake_update epoch_stakes es pubkey slot =
     (case epoch_stakes (get_epoch es slot) of Some vote_account_stake \<Rightarrow> vote_account_stake pubkey | None \<Rightarrow> 0)"

text \<open>An entry is updated if it is there and inserted otherwise.\<close>

definition insert_stake_operation ::
  "slot_hash_key \<times> update_label \<Rightarrow> (nat \<Rightarrow> update_operation) \<Rightarrow> nat \<Rightarrow> update_operations \<Rightarrow> (fork_loop, update_operations) result" where
  "insert_stake_operation label operation stake ops =
     (case bt_get ops label of
        Some update \<Rightarrow> rbind (update_stake stake update) (\<lambda>update. Ok (bt_insert label update ops))
      | None \<Rightarrow> Ok (bt_insert label (operation stake) ops))"

definition remove_old_vote ::
  "epoch_stakes_map \<Rightarrow> epoch_schedule \<Rightarrow> pubkey \<Rightarrow> slot_hash_key \<Rightarrow> slot_hash_key option \<Rightarrow> fork_infos \<Rightarrow> update_operations \<Rightarrow>
   (fork_loop, update_operations) result" where
  "remove_old_vote epoch_stakes es pubkey new_vote old_vote fi ops =
     (case old_vote of
        None \<Rightarrow> Ok ops
      | Some old \<Rightarrow>
          rbind (assert_that (if fst new_vote = fst old then snd new_vote < snd old else fst old < fst new_vote)) (\<lambda>_.
          let stake = stake_update epoch_stakes es pubkey (fst old) in
          if 0 < stake then
            rbind (insert_stake_operation (old, L_Subtract) Op_Subtract stake ops) (insert_aggregate_operations fi old)
          else Ok ops))"

fun generate_update_operations ::
  "epoch_stakes_map \<Rightarrow> epoch_schedule \<Rightarrow> (pubkey \<times> slot_hash_key) list \<Rightarrow> pubkey list \<Rightarrow> update_operations \<Rightarrow> fork_choice \<Rightarrow>
   (fork_loop, update_operations \<times> fork_choice) result" where
  "generate_update_operations epoch_stakes es [] observed ops fc = Ok (ops, fc)"
| "generate_update_operations epoch_stakes es ((pubkey, new_vote) # votes) observed ops fc =
     (if fst new_vote < fst (tree_root fc) then generate_update_operations epoch_stakes es votes observed ops fc
      else if pubkey \<in> set observed then Panic
      else if (case latest_votes fc pubkey of
                 Some old \<Rightarrow> fst new_vote < fst old \<or> fst new_vote = fst old \<and> snd old \<le> snd new_vote
               | None \<Rightarrow> False)
      then generate_update_operations epoch_stakes es votes (pubkey # observed) ops fc
      else
        rbind (remove_old_vote epoch_stakes es pubkey new_vote (latest_votes fc pubkey) (fork_infos fc) ops) (\<lambda>ops.
        rbind (insert_stake_operation (new_vote, L_Add) Op_Add (stake_update epoch_stakes es pubkey (fst new_vote)) ops) (\<lambda>ops.
        rbind (insert_aggregate_operations (fork_infos fc) new_vote ops) (\<lambda>ops.
        generate_update_operations epoch_stakes es votes (pubkey # observed) ops
          (fc\<lparr>latest_votes := (latest_votes fc)(pubkey \<mapsto> new_vote)\<rparr>)))))"

definition add_votes ::
  "epoch_stakes_map \<Rightarrow> epoch_schedule \<Rightarrow> (pubkey \<times> slot_hash_key) list \<Rightarrow> fork_choice \<Rightarrow>
   (fork_loop, slot_hash_key \<times> fork_choice) result" where
  "add_votes epoch_stakes es pubkey_votes fc =
     rbind (generate_update_operations epoch_stakes es pubkey_votes [] [] fc) (\<lambda>(ops, fc).
     rbind (process_update_operations ops (fork_infos fc)) (\<lambda>fi.
     let fc = fc\<lparr>fork_infos := fi\<rparr> in
     rbind (best_overall_slot fc) (\<lambda>best. Ok (best, fc))))"

section \<open>Roots\<close>

fun remove_nodes :: "slot_hash_key list \<Rightarrow> fork_infos \<Rightarrow> (fork_loop, fork_infos) result" where
  "remove_nodes [] fi = Ok fi"
| "remove_nodes (key # keys) fi = rbind (unwrap (fi key)) (\<lambda>_. remove_nodes keys (fi(key := None)))"

definition set_tree_root :: "slot_hash_key \<Rightarrow> fork_choice \<Rightarrow> (fork_loop, fork_choice) result" where
  "set_tree_root new_root fc =
     rbind (subtree_diff (fork_infos fc) (tree_root fc) new_root) (\<lambda>remove_set.
     rbind (remove_nodes remove_set (fork_infos fc)) (\<lambda>fi.
     rbind (unwrap (fi new_root)) (\<lambda>i.
     Ok (fc\<lparr>fork_infos := fi(new_root \<mapsto> i\<lparr>fi_parent := None\<rparr>), tree_root := new_root\<rparr>))))"

partial_function (option) take_subtree ::
  "slot_hash_key list \<Rightarrow> fork_infos \<Rightarrow> fork_infos \<Rightarrow> (fork_loop, fork_infos \<times> fork_infos) result option" where
  "take_subtree to_visit fi split_tree =
     (case to_visit of
        [] \<Rightarrow> Some (Ok (fi, split_tree))
      | current_node # to_visit \<Rightarrow>
          case fi current_node of
            None \<Rightarrow> Some Panic
          | Some i \<Rightarrow> take_subtree (rev (fi_children i) @ to_visit) (fi(current_node := None)) (split_tree(current_node \<mapsto> i)))"

definition retain_votes :: "fork_infos \<Rightarrow> (pubkey \<rightharpoonup> slot_hash_key) \<Rightarrow> (pubkey \<rightharpoonup> slot_hash_key)" where
  "retain_votes fi votes = (\<lambda>p. case votes p of Some key \<Rightarrow> if fi key \<noteq> None then Some key else None | None \<Rightarrow> None)"

definition split_off :: "slot_hash_key \<Rightarrow> fork_choice \<Rightarrow> (fork_loop, fork_choice \<times> fork_choice) result" where
  "split_off key fc =
     rbind (assert_that (tree_root fc \<noteq> key)) (\<lambda>_.
     rbind (unwrap (fork_infos fc key)) (\<lambda>split_tree_root.
     rbind (unwrap (fi_parent split_tree_root)) (\<lambda>parent.
     rbind (insert_aggregate_operations (fork_infos fc) key []) (\<lambda>ops.
     rbind (unwrap (fork_infos fc parent)) (\<lambda>i.
     rbind (assert_that (key \<in> set (fi_children i))) (\<lambda>_.
     rbind (process_update_operations ops ((fork_infos fc)(parent \<mapsto> i\<lparr>fi_children := remove1 key (fi_children i)\<rparr>))) (\<lambda>fi.
     rbind (returns (take_subtree [key] fi Map.empty)) (\<lambda>(fi, split_tree).
     rbind (unwrap (fi parent)) (\<lambda>i.
     let fi = fi(parent \<mapsto> i\<lparr>fi_children := remove1 key (fi_children i)\<rparr>);
         split_tree = split_tree(key \<mapsto> split_tree_root\<lparr>fi_parent := None\<rparr>) in
     Ok (\<lparr>fork_infos = split_tree, latest_votes = retain_votes split_tree (latest_votes fc), tree_root = key\<rparr>,
         fc\<lparr>fork_infos := fi, latest_votes := retain_votes fi (latest_votes fc)\<rparr>))))))))))"

partial_function (option) purge_prune_loop ::
  "slot_hash_key \<Rightarrow> slot_hash_key list \<Rightarrow> slot_hash_key option \<Rightarrow> slot_hash_key list \<Rightarrow> fork_choice list \<Rightarrow> fork_choice \<Rightarrow>
   (fork_loop, slot_hash_key option \<times> slot_hash_key list \<times> fork_choice list \<times> fork_choice) result option" where
  "purge_prune_loop new_root to_visit root purged_slots pruned_subtrees fc =
     (case to_visit of
        [] \<Rightarrow> Some (Ok (root, purged_slots, pruned_subtrees, fc))
      | cur_slot # to_visit \<Rightarrow>
          if cur_slot = new_root then purge_prune_loop new_root to_visit (Some new_root) purged_slots pruned_subtrees fc
          else if cur_slot < new_root then
            (case fork_children (fork_infos fc) cur_slot of
               None \<Rightarrow> Some Panic
             | Some children \<Rightarrow> purge_prune_loop new_root (rev children @ to_visit) root (purged_slots @ [cur_slot]) pruned_subtrees fc)
          else
            (case split_off cur_slot fc of
               Panic \<Rightarrow> Some Panic
             | Err e \<Rightarrow> Some (Err e)
             | Ok (subtree, fc) \<Rightarrow> purge_prune_loop new_root to_visit root purged_slots (pruned_subtrees @ [subtree]) fc))"

definition purge_prune ::
  "slot_hash_key \<Rightarrow> fork_choice \<Rightarrow> (fork_loop, (slot_hash_key list \<times> fork_choice list) \<times> fork_choice) result" where
  "purge_prune new_root fc =
     rbind (returns (purge_prune_loop new_root [tree_root fc] None [] [] fc)) (\<lambda>(root, purged_slots, pruned_subtrees, fc).
     rbind (remove_nodes purged_slots (fork_infos fc)) (\<lambda>fi.
     case root of
       None \<Rightarrow> Ok ((purged_slots, pruned_subtrees), fc\<lparr>fork_infos := fi\<rparr>)
     | Some root \<Rightarrow>
         rbind (unwrap (fi root)) (\<lambda>i.
         Ok ((purged_slots, pruned_subtrees), fc\<lparr>fork_infos := fi(root \<mapsto> i\<lparr>fi_parent := None\<rparr>), tree_root := root\<rparr>))))"

text \<open>The nodes of the other tree are added in the order of their keys.\<close>

fun add_leaves :: "(slot_hash_key \<times> slot_hash_key) list \<Rightarrow> fork_choice \<Rightarrow> (fork_loop, fork_choice) result" where
  "add_leaves [] fc = Ok fc"
| "add_leaves ((key, parent) # leaves) fc = rbind (add_new_leaf_slot key (Some parent) fc) (add_leaves leaves)"

definition merge_fork_choice ::
  "fork_choice \<Rightarrow> slot_hash_key \<Rightarrow> epoch_stakes_map \<Rightarrow> epoch_schedule \<Rightarrow> fork_choice \<Rightarrow> (fork_loop, fork_choice) result" where
  "merge_fork_choice other merge_leaf epoch_stakes es fc =
     rbind (assert_that (fork_infos fc merge_leaf \<noteq> None)) (\<lambda>_.
     let parent_of = (\<lambda>key. case fork_parent (fork_infos other) key of Some parent \<Rightarrow> parent | None \<Rightarrow> merge_leaf) in
     rbind (add_leaves (map (\<lambda>key. (key, parent_of key)) (sorted_list_of_set (dom (fork_infos other)))) fc) (\<lambda>fc.
     rbind (add_votes epoch_stakes es
       (map (\<lambda>p. (p, the (latest_votes other p))) (sorted_list_of_set (dom (latest_votes other)))) fc) (\<lambda>(_, fc).
     Ok fc)))"

section \<open>Duplicate blocks and the choice of forks\<close>

fun insert_marks :: "update_operation \<Rightarrow> slot_hash_key list \<Rightarrow> update_operations \<Rightarrow> update_operations" where
  "insert_marks mark [] ops = ops"
| "insert_marks mark (key # keys) ops = insert_marks mark keys (snd (do_insert_aggregate_operation (Some mark) key ops))"

definition mark_fork_invalid_candidate :: "slot_hash_key \<Rightarrow> fork_choice \<Rightarrow> (fork_loop, fork_choice) result" where
  "mark_fork_invalid_candidate key fc =
     (case fork_infos fc key of
        None \<Rightarrow> Ok fc
      | Some i \<Rightarrow>
          rbind (assert_that (\<not> fi_is_duplicate_confirmed i)) (\<lambda>_.
          rbind (subtree_diff (fork_infos fc) key (0, 0)) (\<lambda>subtree.
          rbind (insert_aggregate_operations (fork_infos fc) key (insert_marks (Op_MarkInvalid (fst key)) subtree [])) (\<lambda>ops.
          rbind (process_update_operations ops (fork_infos fc)) (\<lambda>fi.
          Ok (fc\<lparr>fork_infos := fi\<rparr>))))))"

fun not_yet_confirmed :: "fork_infos \<Rightarrow> slot_hash_key list \<Rightarrow> (fork_loop, slot_hash_key list) result" where
  "not_yet_confirmed fi [] = Ok []"
| "not_yet_confirmed fi (key # keys) =
     rbind (unwrap (is_duplicate_confirmed fi key)) (\<lambda>confirmed.
     rbind (not_yet_confirmed fi keys) (\<lambda>rest.
     Ok (if \<not> confirmed then key # rest else rest)))"

definition mark_fork_valid_candidate ::
  "slot_hash_key \<Rightarrow> fork_choice \<Rightarrow> (fork_loop, slot_hash_key list \<times> fork_choice) result" where
  "mark_fork_valid_candidate key fc =
     rbind (returns (map_option Ok (ancestor_iterator (fork_infos fc) key))) (\<lambda>ancestors.
     rbind (not_yet_confirmed (fork_infos fc) (key # ancestors)) (\<lambda>newly_duplicate_confirmed_ancestors.
     rbind (subtree_diff (fork_infos fc) key (0, 0)) (\<lambda>subtree.
     rbind (insert_aggregate_operations (fork_infos fc) key (insert_marks (Op_MarkValid (fst key)) subtree [])) (\<lambda>ops.
     rbind (process_update_operations ops (fork_infos fc)) (\<lambda>fi.
     Ok (newly_duplicate_confirmed_ancestors, fc\<lparr>fork_infos := fi\<rparr>))))))"

text \<open>The tower is asked for its last vote and whether it is stray.\<close>

definition heaviest_slot_on_same_voted_fork ::
  "slot_hash_key option \<Rightarrow> bool \<Rightarrow> fork_choice \<Rightarrow> (fork_loop, slot_hash_key option) result" where
  "heaviest_slot_on_same_voted_fork last_voted_slot_hash is_stray_last_vote fc =
     (case last_voted_slot_hash of
        None \<Rightarrow> Ok None
      | Some last_vote \<Rightarrow>
          (case is_candidate (fork_infos fc) last_vote of
             Some True \<Rightarrow> Ok (best_slot (fork_infos fc) last_vote)
           | Some False \<Rightarrow> Ok (deepest_slot (fork_infos fc) last_vote)
           | None \<Rightarrow> if \<not> is_stray_last_vote then Panic else Ok None))"

text \<open>Of a bank, its slot and hash; the bank forks give the hash of the bank of a slot.\<close>

definition select_forks ::
  "slot_hash_key option \<Rightarrow> bool \<Rightarrow> (slot \<rightharpoonup> hash) \<Rightarrow> fork_choice \<Rightarrow>
   (fork_loop, slot_hash_key \<times> slot_hash_key option) result" where
  "select_forks last_voted_slot_hash is_stray_last_vote bank_forks fc =
     rbind (best_overall_slot fc) (\<lambda>best.
     rbind (unwrap (bank_forks (fst best))) (\<lambda>hash.
     rbind (assert_that (hash = snd best)) (\<lambda>_.
     rbind (heaviest_slot_on_same_voted_fork last_voted_slot_hash is_stray_last_vote fc) (\<lambda>heaviest.
     Ok (best, Option.bind heaviest (\<lambda>key.
       case bank_forks (fst key) of Some hash \<Rightarrow> if hash \<noteq> snd key then None else Some key | None \<Rightarrow> None))))))"

end
