(* ===== verification/Spec2Isabelle.thy ===== *)
theory Spec2Isabelle
  imports Vote_Authority System_Accounts Wire_Format Greedy_Safety Lockup_Safety Fork_Choice
begin

text \<open>
  A verification library for the validator under \<^verbatim>\<open>src/\<close>: Solana's validator with the block-engine and
  bundle changes of Jito and the priority programs of Paladin. Paths below are relative to \<^verbatim>\<open>src/\<close>.

  \<^bold>\<open>The program and its parts.\<close> A transaction reaches the leader as a packet. The banking stage puts it into
  a container, and a scheduler (\<^verbatim>\<open>core/src/banking_stage/transaction_scheduler\<close>) hands batches of
  transactions to worker threads under account locks of its own. The workers lock the accounts in the bank
  (\<^verbatim>\<open>accounts-db\<close>), load them into a transaction context (\<^verbatim>\<open>sdk/src/transaction_context.rs\<close>) and run the
  programs of the instructions. Built-in programs are the system program (accounts, lamports, durable
  nonces) and the vote program (towers of validators), which consensus and the rewards of an epoch rest on.
  The fork choice of consensus decides from the votes which block to build on. The library models that path
  from the scheduler through the locks and the guarded accounts to the two programs, with the encodings and
  schedules they use, the fork choice, and the on-chain lockup program of Paladin.

  \<^bold>\<open>Conventions.\<close> A Rust function that returns a \<open>Result\<close> is a function into \<open>result\<close>: \<open>Ok\<close>, \<open>Err\<close>, or
  \<open>Panic\<close> for every \<open>unwrap\<close>, assertion, explicit panic and index out of range. State is passed explicitly;
  where a caller writes its copy back only on success, the new state is part of \<open>Ok\<close>. Counting integers are
  \<^typ>\<open>nat\<close> with the saturation, check or wrap of the source written out; bit sets and bytes are words. Keys and
  hashes are numbers. What the source takes from other crates or from generated code is a parameter (hash,
  curve test, serialisation of account states, channels, the double-ended priority queue, the token
  program), and a theorem that needs something of it says so in a hypothesis. Loops are recursions with
  termination proofs. No definition uses fuel, except that the scheduling loop counts down the scan limit of
  its configuration, which is its own bound; the walks of the fork choice along links of the tree are
  partial functions into \<open>option\<close>, and a walk that would not end is the error \<open>Loop_Continues\<close>.

  \<^bold>\<open>Theories, in layers.\<close>
  \<^item> \<open>Prelude\<close>: outcomes, checked and saturating arithmetic, list lemmas. \<open>Ordered_Map\<close> and \<open>Std_Slice\<close>: the
    parts of the standard library that matter, each as a locale with the contract and an interpretation on
    the implementation (\<open>ordered_map\<close>, \<open>binary_search\<close>).
  \<^item> Vote state: \<open>Authorized_Voters\<close> (\<^verbatim>\<open>sdk/program/src/vote/authorized_voters.rs\<close>), \<open>Vote_State\<close>
    (\<^verbatim>\<open>sdk/program/src/vote/state/mod.rs\<close>) with its properties in \<open>Vote_Tower\<close> (the tower invariant, lockouts,
    consecutive votes) and \<open>Vote_Accounting\<close> (voters per epoch, credits, commission split). \<open>Vote_Check\<close> and
    \<open>Vote_New_State\<close> are \<^verbatim>\<open>programs/vote/src/vote_state/mod.rs\<close>: a vote against the slot hashes, and replacing
    a tower; \<open>Feature_Set\<close> (\<^verbatim>\<open>sdk/feature-set\<close>) names the features asked for.
  \<^item> Accounts: \<open>Instruction_Error\<close>, \<open>Transaction_Context\<close> (\<^verbatim>\<open>sdk/src/transaction_context.rs\<close>, with borrow flags,
    instruction frames and resize limits), \<open>Access_Control\<close> (what any sequence of operations, with nested
    calls, can do to accounts), \<open>Epoch_Schedule\<close>, \<open>Pubkey\<close> (derived addresses), \<open>Invoke_Context\<close> (sysvars),
    \<open>Account_Facts\<close> (shared by the programs).
  \<^item> Programs: \<open>Vote_Program\<close> (\<^verbatim>\<open>programs/vote\<close>, dispatch included) with \<open>Vote_Authority\<close> (who may do what);
    \<open>System_Program\<close> (\<^verbatim>\<open>programs/system\<close>, nonces) with \<open>System_Accounts\<close> (what moves, and when).
  \<^item> Encodings: \<open>Wire_Format\<close> (\<^verbatim>\<open>sdk/serde-varint\<close>, \<^verbatim>\<open>short-vec\<close>, the compact vote payloads).
  \<^item> Locks and scheduling: \<open>Account_Locks\<close> (\<^verbatim>\<open>accounts-db/src/account_locks.rs\<close>, the lock operations of
    \<^verbatim>\<open>accounts.rs\<close>, the keys of a message), \<open>Thread_Aware_Locks\<close>, \<open>Transaction_Container\<close>,
    \<open>Greedy_Scheduler\<close> (the files of the transaction scheduler of the same names, the in-flight tracker, the
    read-write account set, the batches), with \<open>Greedy_Loop\<close> (the invariant of a pass) and \<open>Greedy_Safety\<close>
    (every run).
  \<^item> Fork choice: \<open>Fork_Choice\<close> (\<^verbatim>\<open>core/src/consensus/heaviest_subtree_fork_choice.rs\<close>, \<^verbatim>\<open>tree_diff.rs\<close>).
  \<^item> Lockup program: \<open>Program_Account\<close> (errors and account infos of the SDK), \<open>Lockup_Pool\<close> and \<open>Lockup_Program\<close>
    (\<^verbatim>\<open>paladin-programs/lockup/program/src\<close>, the pool and the instructions), \<open>Lockup_Runs\<close> (its runs and their
    invariants) and \<open>Lockup_Safety\<close>.

  \<^bold>\<open>What the theorems show.\<close>
  \<^item> Votes: the tower invariant is kept by every vote; a vote leaves the tower only rooted or expired; an
    accepted tower is on the voter's fork and well-formed; no path panics; credits, voters and commissions
    follow their rules; every vote instruction needs the key the state names for it.
  \<^item> Accounts: no program changes what it may not; an instruction conserves lamports; data growth is bounded;
    creating, funding and withdrawing move exactly what they say; a nonce advances once per blockhash.
  \<^item> Locks: the tables are read as multisets of held locks; a request is granted exactly when it conflicts
    neither with what is held nor with the locks set aside for bundles, and releasing undoes granting. The scheduler's table refines the list
    of transactions in flight (locale \<open>lock_table\<close>).
  \<^item> Scheduling: for every run of the greedy scheduler with any workers, no panic, no conflict between
    threads, exact counts, and progress for the transaction of highest priority.
  \<^item> Encodings: decoders accept exactly the canonical encodings, and round trips.
  \<^item> Lockups: whoever calls the lockup program in whatever order, the escrow covers the open lockups and pays
    only withdrawals after the cooldown, for every mint with the behaviour documented for mints without
    transfer fees, permanent delegate and transfer hook; \<open>lockup_fee_not_covered\<close> shows that this does not
    extend to a mint with fees, which the program accepts. Pools rank open lockups; the outcome of an unlock,
    with a panic that a reachable state has.

  \<^bold>\<open>Bounds in hypotheses.\<close> Lock counts are 32 bits wide in the scheduler and 64 in the bank, so histories keep
  fewer locks than that; a container holds fewer than \<open>2 ^ 24\<close> transactions of at most 256 keys each, which
  keeps the counts below \<open>2 ^ 32\<close>; batch ids are 64 bits and a pass is made only while they have not gone
  round. Epochs have at most \<open>2 ^ 40\<close> slots and slots stay below \<open>2 ^ 62\<close>, where the saturating arithmetic of
  the schedule is exact.

  \<^bold>\<open>Not modelled.\<close> The accounts database, the blockstore and snapshots are files, memory maps and background
  threads. The bank, replay, gossip, turbine, proof of history, repair and the network stages are driven by
  threads, timers and sockets. The virtual machine is a third-party crate, and with it the loaders and
  syscalls. Stake activation is computed in floating point. The prio-graph scheduler is built on the
  third-party \<open>prio-graph\<close> crate; of its file, what the greedy scheduler uses is modelled. Cryptography
  (signatures, zero-knowledge proofs) is third-party. RPC, command line tools, metrics and test tools are
  I/O around the rest. Log messages and timing metrics are left out everywhere.
\<close>

end
